(* ===== verification/SFU_Prelude.thy ===== *)
theory SFU_Prelude
  imports Main "HOL-Library.Word" "HOL-Library.AList"
begin

text \<open>
  What every component of the development shares: bytes and byte strings, the big-endian
  integers of the wire format, wrapping \<open>usize\<close> arithmetic, hash maps as association
  lists, and the collections of rewrite rules the component proofs draw on.

  \<^item> \<open>byte\<close> is Rust's \<open>u8\<close>; a \<open>Bytes\<close> / \<open>&[u8]\<close> / \<open>Vec<u8>\<close> is a \<open>byte list\<close>.
  \<^item> \<open>usize\<close> values are natural numbers; the operations the code performs on atomics wrap
    at \<open>2 ^ 64\<close>, written out as \<open>usize_add\<close> and \<open>usize_sub\<close>.
  \<^item> A \<open>HashMap\<close> is an association list with distinct keys. The list order stands for the
    map's (unspecified) iteration order.
\<close>

type_synonym byte = "8 word"
type_synonym bytes = "byte list"
type_synonym usize = nat

named_theorems wire_simps \<open>unfolding rules of the wire format\<close>
named_theorems hash_simps \<open>lookup and length of the hash map operations\<close>

section \<open>Byte string literals\<close>

text \<open>Rust's \<open>b"..."\<close> and \<open>str::as_bytes\<close> for ASCII literals.\<close>

definition ascii :: "string \<Rightarrow> bytes" where
  "ascii s = map of_char s"

section \<open>Big-endian integers\<close>

text \<open>\<open>BufMut::put_u16\<close> / \<open>put_u32\<close> write most significant byte first; \<open>Buf::get_u16\<close> /
  \<open>get_u32\<close> and \<open>u32::from_be_bytes\<close> read them back.\<close>

definition put_u16 :: "16 word \<Rightarrow> bytes" where
  "put_u16 w = [ucast (drop_bit 8 w), ucast w]"

definition put_u32 :: "32 word \<Rightarrow> bytes" where
  "put_u32 w = [ucast (drop_bit 24 w), ucast (drop_bit 16 w), ucast (drop_bit 8 w), ucast w]"

definition from_be :: "bytes \<Rightarrow> nat" where
  "from_be bs = foldl (\<lambda>n b. 256 * n + unat b) 0 bs"

section \<open>Wrapping machine arithmetic\<close>

definition usize_add :: "usize \<Rightarrow> usize \<Rightarrow> usize" where
  "usize_add a b = (a + b) mod 2 ^ 64"

definition usize_sub :: "usize \<Rightarrow> usize \<Rightarrow> usize" where
  "usize_sub a b = (a + (2 ^ 64 - b mod 2 ^ 64)) mod 2 ^ 64"

section \<open>Results\<close>

text \<open>Rust's \<open>Result\<close> is a sum, \<open>Inl\<close> the error; \<open>and_then\<close> is the \<open>?\<close> operator: it hands a
  success on and returns early with an error. \<open>ensure\<close> is the macro of the same name.\<close>

fun and_then :: "'e + 'a \<Rightarrow> ('a \<Rightarrow> 'e + 'b) \<Rightarrow> 'e + 'b" where
  "and_then (Inl e) f = Inl e"
| "and_then (Inr a) f = f a"

definition ensure :: "bool \<Rightarrow> 'e \<Rightarrow> 'e + unit" where
  "ensure b e = (if b then Inr () else Inl e)"

section \<open>Hash maps\<close>

type_synonym ('k, 'v) hash_map = "('k \<times> 'v) list"

abbreviation hm_get :: "('k, 'v) hash_map \<Rightarrow> 'k \<Rightarrow> 'v option" where
  "hm_get \<equiv> map_of"

definition hm_insert :: "'k \<Rightarrow> 'v \<Rightarrow> ('k, 'v) hash_map \<Rightarrow> ('k, 'v) hash_map" where
  "hm_insert k v m = AList.update k v m"

definition hm_remove :: "'k \<Rightarrow> ('k, 'v) hash_map \<Rightarrow> ('k, 'v) hash_map" where
  "hm_remove k m = AList.delete k m"

definition hm_keys :: "('k, 'v) hash_map \<Rightarrow> 'k list" where
  "hm_keys m = map fst m"

definition hm_wf :: "('k, 'v) hash_map \<Rightarrow> bool" where
  "hm_wf m \<longleftrightarrow> distinct (map fst m)"

section \<open>Lemmas: integers on the wire\<close>

lemma length_put_u16 [simp]: "length (put_u16 w) = 2"
  by (simp add: put_u16_def)

lemma length_put_u32 [simp]: "length (put_u32 w) = 4"
  by (simp add: put_u32_def)

lemma unat_byte_bound [simp]: "unat (b :: byte) < 256"
  using unsigned_less [of b, where ?'a = nat] by simp

lemma unat_byte_of: "unat (ucast (w :: 'a::len word) :: byte) = unat w mod 256"
  by (simp add: unsigned_ucast_eq take_bit_eq_mod)

lemma unat_drop_bit_div: "unat (drop_bit n (w :: 'a::len word)) = unat w div 2 ^ n"
  by (simp only: unat_drop_bit_eq) (simp add: drop_bit_eq_div)

lemma from_be_put_u16 [simp]: "from_be (put_u16 w) = unat w"
proof -
  have "unat w < 65536" using unsigned_less [of w, where ?'a = nat] by simp
  then show ?thesis
    by (simp add: from_be_def put_u16_def unat_byte_of unat_drop_bit_div)
qed

lemma be32_digits:
  "16777216 * (n div 16777216) + 65536 * (n div 65536 mod 256) + 256 * (n div 256 mod 256)
     + n mod 256 = (n :: nat)"
proof -
  have "n div 16777216 = n div 65536 div 256" and "n div 65536 = n div 256 div 256"
    by (simp_all add: div_mult2_eq [symmetric])
  moreover have "256 * (n div 65536 div 256) + n div 65536 mod 256 = n div 65536"
    and "256 * (n div 256 div 256) + n div 256 mod 256 = n div 256"
    and "256 * (n div 256) + n mod 256 = n"
    by simp_all
  ultimately show ?thesis by linarith
qed

lemma from_be_put_u32 [simp]: "from_be (put_u32 w) = unat w"
proof -
  have "unat w < 4294967296" using unsigned_less [of w, where ?'a = nat] by simp
  then show ?thesis
    by (simp add: from_be_def put_u32_def unat_byte_of unat_drop_bit_div be32_digits)
qed

lemma from_be_bound: "from_be bs < 256 ^ length bs"
proof (induction bs rule: rev_induct)
  case Nil
  show ?case by (simp add: from_be_def)
next
  case (snoc b bs)
  have "from_be (bs @ [b]) = 256 * from_be bs + unat b"
    by (simp add: from_be_def)
  moreover have "256 * from_be bs + unat b < 256 * 256 ^ length bs"
    using snoc.IH unat_byte_bound [of b] by linarith
  ultimately show ?case by simp
qed

text \<open>A 4-byte string is the encoding of the number it denotes.\<close>

lemma from_be_snoc: "from_be (bs @ [b]) = 256 * from_be bs + unat b"
  by (simp add: from_be_def)

lemma from_be_inj: "length bs = length cs \<Longrightarrow> from_be bs = from_be cs \<Longrightarrow> bs = cs"
proof (induction bs arbitrary: cs rule: rev_induct)
  case Nil
  then show ?case by simp
next
  case (snoc b bs)
  from snoc.prems(1) obtain c cs' where cs: "cs = cs' @ [c]" and len: "length bs = length cs'"
    by (cases cs rule: rev_cases) auto
  have eq: "256 * from_be bs + unat b = 256 * from_be cs' + unat c"
    using snoc.prems(2) by (simp add: cs from_be_snoc)
  then have "(256 * from_be bs + unat b) div 256 = (256 * from_be cs' + unat c) div 256"
    by simp
  then have "from_be bs = from_be cs'" by simp
  with eq have "unat b = unat c" by simp
  then have "b = c" by (simp add: word_unat_eq_iff)
  with snoc.IH [OF len \<open>from_be bs = from_be cs'\<close>] show ?case by (simp add: cs)
qed

lemma put_u32_from_be:
  assumes "length bs = 4"
  shows "put_u32 (word_of_nat (from_be bs)) = bs"
proof (rule from_be_inj)
  show "length (put_u32 (word_of_nat (from_be bs))) = length bs"
    using assms by simp
  have "from_be bs < 2 ^ 32"
    using from_be_bound [of bs] assms by simp
  then show "from_be (put_u32 (word_of_nat (from_be bs))) = from_be bs"
    by (simp add: unat_of_nat)
qed

section \<open>Lemmas: lists\<close>

lemma drop_Cons_nth:
  assumes "drop n xs = b # rest"
  shows "xs ! n = b" and "drop (Suc n) xs = rest"
proof -
  show "xs ! n = b" using assms by (rule nth_via_drop)
  have "drop (Suc n) xs = tl (drop n xs)" by (simp add: drop_Suc tl_drop)
  then show "drop (Suc n) xs = rest" by (simp add: assms)
qed

section \<open>Lemmas: results\<close>

lemma and_then_eq_Inr [simp]: "and_then r f = Inr b \<longleftrightarrow> (\<exists>a. r = Inr a \<and> f a = Inr b)"
  by (cases r) auto

lemma and_then_eq_Inl: "and_then r f = Inl e \<longleftrightarrow> r = Inl e \<or> (\<exists>a. r = Inr a \<and> f a = Inl e)"
  by (cases r) auto

lemma ensure_eq_Inr [simp]: "ensure b e = Inr u \<longleftrightarrow> b"
  by (simp add: ensure_def)

lemma ensure_eq_Inl [simp]: "ensure b e = Inl e' \<longleftrightarrow> \<not> b \<and> e' = e"
  by (auto simp: ensure_def)

section \<open>Lemmas: wrapping arithmetic\<close>

lemma usize_add_exact: "a + b < 2 ^ 64 \<Longrightarrow> usize_add a b = a + b"
  by (simp add: usize_add_def)

lemma usize_sub_exact:
  assumes "b \<le> a" and "a < 2 ^ 64"
  shows "usize_sub a b = a - b"
proof -
  have b: "b mod 2 ^ 64 = b" using assms by (intro mod_less) linarith
  have "a + (2 ^ 64 - b) = (a - b) + 2 ^ 64" using assms by linarith
  moreover have "a - b < 2 ^ 64" using assms by linarith
  ultimately show ?thesis
    unfolding usize_sub_def b by (metis mod_add_self2 mod_less)
qed

section \<open>Lemmas: hash maps\<close>

lemma hm_get_insert [hash_simps]: "hm_get (hm_insert k v m) k' = (if k' = k then Some v else hm_get m k')"
  by (simp add: hm_insert_def update_conv')

lemma hm_get_remove [hash_simps]: "hm_get (hm_remove k m) k' = (if k' = k then None else hm_get m k')"
  by (simp add: hm_remove_def delete_conv')

lemma hm_wf_Nil [simp]: "hm_wf []"
  by (simp add: hm_wf_def)

lemma hm_wf_insert [simp, intro]: "hm_wf m \<Longrightarrow> hm_wf (hm_insert k v m)"
  by (simp add: hm_wf_def hm_insert_def distinct_update)

lemma hm_wf_remove [simp, intro]: "hm_wf m \<Longrightarrow> hm_wf (hm_remove k m)"
  by (simp add: hm_wf_def hm_remove_def distinct_delete)

lemma hm_keys_set: "set (hm_keys m) = dom (hm_get m)"
  by (simp add: hm_keys_def dom_map_of_conv_image_fst)

lemma length_hm_insert [hash_simps]:
  "length (hm_insert k v m) = (if hm_get m k = None then Suc (length m) else length m)"
  by (induction m) (auto simp: hm_insert_def)

lemma length_hm_remove [hash_simps]:
  "hm_wf m \<Longrightarrow> length (hm_remove k m) = (if hm_get m k = None then length m else length m - 1)"
proof (induction m)
  case Nil
  then show ?case by (simp add: hm_remove_def)
next
  case (Cons p m)
  then have wf: "hm_wf m" and fresh: "fst p \<notin> fst ` set m"
    by (auto simp: hm_wf_def)
  show ?case
  proof (cases "fst p = k")
    case True
    then have "hm_get m k = None" using fresh by (simp add: map_of_eq_None_iff)
    with True Cons.IH [OF wf] show ?thesis
      by (cases p) (simp add: hm_remove_def)
  next
    case False
    have "hm_get m k \<noteq> None \<Longrightarrow> m \<noteq> []" by auto
    with False Cons.IH [OF wf] show ?thesis
      by (cases p) (auto simp: hm_remove_def)
  qed
qed

lemma hm_get_in_set: "hm_get m k = Some v \<Longrightarrow> (k, v) \<in> set m"
  by (rule map_of_SomeD)

lemma hm_in_set_get: "hm_wf m \<Longrightarrow> (k, v) \<in> set m \<longleftrightarrow> hm_get m k = Some v"
  by (simp add: hm_wf_def map_of_eq_Some_iff)

end
