(* ===== verification/Utf8.thy ===== *)
theory Utf8
  imports SFU_Prelude
begin

text \<open>
  What the sources use of Rust's \<open>str\<close> and \<open>String\<close>: a string is its UTF-8 bytes,
  \<open>String::from_utf8_lossy\<close> replaces each maximal ill-formed sequence by U+FFFD, slicing
  checks character boundaries, and \<open>u8::from_str_radix\<close> parses two hexadecimal digits.
\<close>

section \<open>Decoding\<close>

definition byte_at :: "bytes \<Rightarrow> nat \<Rightarrow> byte" where
  "byte_at bs i = (if i < length bs then bs ! i else 0)"

definition is_cont :: "byte \<Rightarrow> bool" where
  "is_cont b \<longleftrightarrow> 0x80 \<le> b \<and> b \<le> 0xBF"

definition utf8_char_width :: "byte \<Rightarrow> nat" where
  "utf8_char_width b =
     (if b < 0x80 then 1
      else if 0xC2 \<le> b \<and> b \<le> 0xDF then 2
      else if 0xE0 \<le> b \<and> b \<le> 0xEF then 3
      else if 0xF0 \<le> b \<and> b \<le> 0xF4 then 4
      else 0)"

definition second_of_three :: "byte \<Rightarrow> byte \<Rightarrow> bool" where
  "second_of_three b c \<longleftrightarrow>
     (if b = 0xE0 then 0xA0 \<le> c \<and> c \<le> 0xBF
      else if b = 0xED then 0x80 \<le> c \<and> c \<le> 0x9F
      else is_cont c)"

definition second_of_four :: "byte \<Rightarrow> byte \<Rightarrow> bool" where
  "second_of_four b c \<longleftrightarrow>
     (if b = 0xF0 then 0x90 \<le> c \<and> c \<le> 0xBF
      else if b = 0xF4 then 0x80 \<le> c \<and> c \<le> 0x8F
      else is_cont c)"

text \<open>Whether a character starts here and how many bytes were read: the whole character, or
  the well-formed part of an ill-formed one.\<close>

fun utf8_head :: "bytes \<Rightarrow> bool \<times> nat" where
  "utf8_head [] = (True, 0)"
| "utf8_head (b # bs) =
     (if b < 0x80 then (True, 1)
      else if utf8_char_width b = 2 then
        (if is_cont (byte_at bs 0) then (True, 2) else (False, 1))
      else if utf8_char_width b = 3 then
        (if \<not> second_of_three b (byte_at bs 0) then (False, 1)
         else if is_cont (byte_at bs 1) then (True, 3) else (False, 2))
      else if utf8_char_width b = 4 then
        (if \<not> second_of_four b (byte_at bs 0) then (False, 1)
         else if \<not> is_cont (byte_at bs 1) then (False, 2)
         else if is_cont (byte_at bs 2) then (True, 4) else (False, 3))
      else (False, 1))"

declare utf8_head.simps(2) [simp del]

definition replacement :: bytes where
  "replacement = [0xEF, 0xBF, 0xBD]"

fun from_utf8_lossy :: "bytes \<Rightarrow> bytes" where
  "from_utf8_lossy [] = []"
| "from_utf8_lossy (b # bs) =
     (let (ok, n) = utf8_head (b # bs)
      in (if ok then take n (b # bs) else replacement) @ from_utf8_lossy (drop (n - 1) bs))"

text \<open>The invariant of every Rust \<open>String\<close>.\<close>

fun valid_utf8 :: "bytes \<Rightarrow> bool" where
  "valid_utf8 [] \<longleftrightarrow> True"
| "valid_utf8 (b # bs) \<longleftrightarrow>
     fst (utf8_head (b # bs)) \<and> valid_utf8 (drop (snd (utf8_head (b # bs)) - 1) bs)"

section \<open>Hexadecimal\<close>

text \<open>\<open>format!("{b:02x}")\<close>.\<close>

definition hex_digit :: "nat \<Rightarrow> byte" where
  "hex_digit n = word_of_nat (if n < 10 then 0x30 + n else 0x57 + n)"

definition hex_byte :: "byte \<Rightarrow> bytes" where
  "hex_byte b = [hex_digit (unat b div 16), hex_digit (unat b mod 16)]"

text \<open>\<open>char::to_digit(16)\<close>.\<close>

definition from_hex_digit :: "byte \<Rightarrow> nat option" where
  "from_hex_digit b =
     (let n = unat b in
      if 0x30 \<le> n \<and> n \<le> 0x39 then Some (n - 0x30)
      else if 0x61 \<le> n \<and> n \<le> 0x66 then Some (n - 0x57)
      else if 0x41 \<le> n \<and> n \<le> 0x46 then Some (n - 0x37)
      else None)"

text \<open>\<open>u8::from_str_radix(s, 16)\<close> on a two-byte string: a leading \<open>+\<close> is a sign.\<close>

definition from_str_radix_16 :: "byte \<Rightarrow> byte \<Rightarrow> byte option" where
  "from_str_radix_16 a b =
     (if a = 0x2B then map_option word_of_nat (from_hex_digit b)
      else case (from_hex_digit a, from_hex_digit b) of
             (Some m, Some n) \<Rightarrow> Some (word_of_nat (16 * m + n))
           | _ \<Rightarrow> None)"

section \<open>Lemmas\<close>

lemma is_cont_zero [simp]: "\<not> is_cont 0" "\<not> second_of_three b 0" "\<not> second_of_four b 0"
  by (simp_all add: is_cont_def second_of_three_def second_of_four_def)

lemma byte_at_Nil [simp]: "byte_at [] i = 0"
  by (simp add: byte_at_def)

lemma byte_at_cont_length:
  "is_cont (byte_at bs i) \<Longrightarrow> i < length bs"
  "second_of_three b (byte_at bs i) \<Longrightarrow> i < length bs"
  "second_of_four b (byte_at bs i) \<Longrightarrow> i < length bs"
  by (auto simp: byte_at_def split: if_splits)

lemma byte_at_append: "i < length bs \<Longrightarrow> byte_at (bs @ cs) i = byte_at bs i"
  by (simp add: byte_at_def nth_append)

lemma byte_at_append_cont:
  "is_cont (byte_at bs i) \<Longrightarrow> byte_at (bs @ cs) i = byte_at bs i"
  "second_of_three b (byte_at bs i) \<Longrightarrow> byte_at (bs @ cs) i = byte_at bs i"
  "second_of_four b (byte_at bs i) \<Longrightarrow> byte_at (bs @ cs) i = byte_at bs i"
  by (simp_all add: byte_at_append byte_at_cont_length)

lemma utf8_head_pos: "1 \<le> snd (utf8_head (b # bs))"
  by (simp add: utf8_head.simps(2))

lemma utf8_head_length: "fst (utf8_head bs) \<Longrightarrow> snd (utf8_head bs) \<le> length bs"
  by (cases bs) (auto simp: utf8_head.simps(2) Suc_le_eq split: if_splits dest: byte_at_cont_length)

lemma utf8_head_append:
  assumes "bs \<noteq> []" and "fst (utf8_head bs)"
  shows "utf8_head (bs @ cs) = utf8_head bs"
  using assms
  by (cases bs) (auto simp: utf8_head.simps(2) byte_at_append_cont split: if_splits)

lemma valid_utf8_append: "valid_utf8 bs \<Longrightarrow> valid_utf8 cs \<Longrightarrow> valid_utf8 (bs @ cs)"
proof (induction bs rule: valid_utf8.induct)
  case 1
  then show ?case by simp
next
  case (2 b bs)
  let ?n = "snd (utf8_head (b # bs))"
  from "2.prems"(1) have ok: "fst (utf8_head (b # bs))"
    and rest: "valid_utf8 (drop (?n - 1) bs)"
    by (simp_all only: valid_utf8.simps)
  from utf8_head_length [OF ok] have n: "?n - 1 \<le> length bs" by simp
  have hd: "utf8_head (b # bs @ cs) = utf8_head (b # bs)"
    using utf8_head_append [of "b # bs" cs] ok by simp
  have "valid_utf8 (drop (?n - 1) bs @ cs)"
    using "2.IH" rest "2.prems"(2) by blast
  then show ?case
    using ok n by (simp only: append_Cons valid_utf8.simps hd) simp
qed

lemma from_utf8_lossy_valid: "valid_utf8 bs \<Longrightarrow> from_utf8_lossy bs = bs"
proof (induction bs rule: valid_utf8.induct)
  case 1
  then show ?case by simp
next
  case (2 b bs)
  obtain ok n where h: "utf8_head (b # bs) = (ok, n)" by (cases "utf8_head (b # bs)")
  with "2.prems" have ok: ok and rest: "valid_utf8 (drop (n - 1) bs)"
    by (simp_all only: valid_utf8.simps fst_conv snd_conv)
  have n: "1 \<le> n" using utf8_head_pos [of b bs] h by simp
  have "from_utf8_lossy (drop (n - 1) bs) = drop (n - 1) bs"
    using "2.IH" rest h by simp
  moreover have "take n (b # bs) @ drop (n - 1) bs = b # bs"
    using n by (cases n) simp_all
  ultimately show ?case using h ok by simp
qed

lemma ascii_valid: "\<forall>b \<in> set bs. b < 0x80 \<Longrightarrow> valid_utf8 bs"
  by (induction bs) (simp_all add: utf8_head.simps(2))

text \<open>A whole character followed by anything well-formed is well-formed.\<close>

lemma valid_utf8_char:
  assumes "fst (utf8_head (b # bs))"
  shows "valid_utf8 (take (snd (utf8_head (b # bs))) (b # bs))"
proof -
  obtain ok n where h: "utf8_head (b # bs) = (ok, n)" by (cases "utf8_head (b # bs)")
  have ok using assms h by simp
  have len: "n \<le> length (b # bs)" using utf8_head_length [of "b # bs"] h \<open>ok\<close> by simp
  have n: "1 \<le> n" using utf8_head_pos [of b bs] h by simp
  have at: "byte_at (take (n - 1) bs) i = byte_at bs i" if "i < n - 1" for i
    using that by (simp add: byte_at_def)
  have tk: "take n (b # bs) = b # take (n - 1) bs" using n by (cases n) simp_all
  have "utf8_head (b # take (n - 1) bs) = (ok, n)"
    using h \<open>ok\<close> at by (auto simp: utf8_head.simps(2) split: if_splits)
  then show ?thesis
    using h \<open>ok\<close> unfolding tk by (simp only: h snd_conv tk valid_utf8.simps fst_conv) simp
qed

lemma from_utf8_lossy_is_valid: "valid_utf8 (from_utf8_lossy bs)"
proof (induction bs rule: from_utf8_lossy.induct)
  case 1
  then show ?case by simp
next
  case (2 b bs)
  obtain ok n where h: "utf8_head (b # bs) = (ok, n)" by (cases "utf8_head (b # bs)")
  have rest: "valid_utf8 (from_utf8_lossy (drop (n - 1) bs))"
    using "2.IH" h by simp
  have "valid_utf8 replacement"
    by (simp add: replacement_def utf8_head.simps(2) utf8_char_width_def second_of_three_def is_cont_def byte_at_def)
  then have "valid_utf8 (if ok then take n (b # bs) else replacement)"
    using valid_utf8_char [of b bs] h by (simp del: take_Cons')
  from valid_utf8_append [OF this rest] show ?case
    using h by simp
qed

subsection \<open>Hexadecimal digits\<close>

lemma from_hex_digit_hex_digit: "n < 16 \<Longrightarrow> from_hex_digit (hex_digit n) = Some n"
  by (auto simp: from_hex_digit_def hex_digit_def Let_def unat_of_nat)

lemma hex_digit_not_plus: "n < 16 \<Longrightarrow> hex_digit n \<noteq> 0x2B"
  using from_hex_digit_hex_digit [of n] by (auto simp: from_hex_digit_def)

lemma hex_digit_ascii: "n < 16 \<Longrightarrow> hex_digit n < 0x80"
  by (simp add: hex_digit_def word_less_nat_alt unat_of_nat)

lemma from_str_radix_16_hex_byte:
  "from_str_radix_16 (hex_digit (unat b div 16)) (hex_digit (unat b mod 16)) = Some b"
proof -
  have "unat b div 16 < 16" and "unat b mod 16 < 16"
    using unat_byte_bound [of b] by (simp_all add: less_mult_imp_div_less)
  then show ?thesis
    by (simp add: from_str_radix_16_def from_hex_digit_hex_digit hex_digit_not_plus)
qed

end
