(* ===== verification/Wire.thy ===== *)
theory Wire
  imports SFU_Prelude Utf8 "HOL-Library.List_Lexorder"
begin

unbundle bit_operations_syntax

text \<open>
  The wire format of \<open>src/src/proto.rs\<close>: constants, lanes, topics, the client and server
  frames with their encoders and decoders, and datagrams. Streams and framing are in
  \<open>Framing\<close>, snapshot chunking in \<open>Snapshots\<close>.

  \<open>EndpointId\<close> is a public key of the iroh library. A value is represented by its 32
  bytes (\<open>EndpointId::as_bytes\<close>); which byte strings are keys (\<open>EndpointId::from_bytes\<close>
  succeeds) is the parameter \<open>valid_key\<close> of the decoders.
\<close>

section \<open>Constants\<close>

definition SFU_ALPN :: bytes where "SFU_ALPN = ascii ''keeptalking/sfu/2''"
definition MAX_ANNOUNCE_LEN :: usize where "MAX_ANNOUNCE_LEN = 1024"
definition MAX_PUBLISH_LEN :: usize where "MAX_PUBLISH_LEN = 2 ^ 20"
definition MAX_FRAME_LEN :: usize where "MAX_FRAME_LEN = MAX_PUBLISH_LEN + 64 * 1024"
definition MAX_MEMBERS_PER_TOPIC :: usize where "MAX_MEMBERS_PER_TOPIC = 1024"
definition MAX_TOPICS_PER_CONNECTION :: usize where "MAX_TOPICS_PER_CONNECTION = 512"
definition SNAPSHOT_CHUNK_ENTRIES :: usize where "SNAPSHOT_CHUNK_ENTRIES = 256"
definition SNAPSHOT_CHUNK_BYTES :: usize where "SNAPSHOT_CHUNK_BYTES = 256 * 1024"
definition SNAPSHOT_MORE :: byte where "SNAPSHOT_MORE = 0x01"

text \<open>Frame type tags.\<close>

abbreviation SUBSCRIBE :: byte where "SUBSCRIBE \<equiv> 0x21"
abbreviation UNSUBSCRIBE :: byte where "UNSUBSCRIBE \<equiv> 0x22"
abbreviation ANNOUNCE :: byte where "ANNOUNCE \<equiv> 0x23"
abbreviation PUBLISH :: byte where "PUBLISH \<equiv> 0x24"
abbreviation PUBLISH_TO :: byte where "PUBLISH_TO \<equiv> 0x25"
abbreviation SNAPSHOT :: byte where "SNAPSHOT \<equiv> 0x31"
abbreviation JOINED :: byte where "JOINED \<equiv> 0x32"
abbreviation LEFT :: byte where "LEFT \<equiv> 0x33"
abbreviation PRESENCE :: byte where "PRESENCE \<equiv> 0x34"
abbreviation DELIVER :: byte where "DELIVER \<equiv> 0x35"
abbreviation ERROR :: byte where "ERROR \<equiv> 0x3F"

text \<open>Fixed ERROR reasons, close codes and stream error codes.\<close>

datatype refusal_reason =
    RoomFull | TooManyTopics | RateLimited | NotSubscribed | AnnounceTooLarge
  | PublishTooLarge | ReservedTopic | PublishOnSession | NoSuchRecipient

fun reason_text :: "refusal_reason \<Rightarrow> bytes" where
  "reason_text RoomFull = ascii ''room full''"
| "reason_text TooManyTopics = ascii ''too many topics''"
| "reason_text RateLimited = ascii ''rate limited''"
| "reason_text NotSubscribed = ascii ''not subscribed''"
| "reason_text AnnounceTooLarge = ascii ''announce too large''"
| "reason_text PublishTooLarge = ascii ''publish too large''"
| "reason_text ReservedTopic = ascii ''reserved topic''"
| "reason_text PublishOnSession = ascii ''publish on a lane stream''"
| "reason_text NoSuchRecipient = ascii ''no such recipient''"

datatype close_code = CloseNormal | CloseSlowConsumer | CloseProtocol | CloseStalled | CloseNoStream

fun close_value :: "close_code \<Rightarrow> nat" where
  "close_value CloseNormal = 0"
| "close_value CloseSlowConsumer = 1"
| "close_value CloseProtocol = 2"
| "close_value CloseStalled = 3"
| "close_value CloseNoStream = 4"

datatype stream_error = UnknownLane | BulkTrailing | Malformed | StreamStalled

fun stream_error_value :: "stream_error \<Rightarrow> nat" where
  "stream_error_value UnknownLane = 1"
| "stream_error_value BulkTrailing = 2"
| "stream_error_value Malformed = 3"
| "stream_error_value StreamStalled = 4"

definition priority_SESSION :: int where "priority_SESSION = 2"

section \<open>Lanes\<close>

datatype lane = Control | Interactive | Bulk

definition lane_ALL :: "lane list" where
  "lane_ALL = [Control, Interactive, Bulk]"

definition lane_from_byte :: "byte \<Rightarrow> lane option" where
  "lane_from_byte b =
     (if b = 0x01 then Some Control
      else if b = 0x02 then Some Interactive
      else if b = 0x03 then Some Bulk
      else None)"

fun lane_byte :: "lane \<Rightarrow> byte" where
  "lane_byte Control = 0x01"
| "lane_byte Interactive = 0x02"
| "lane_byte Bulk = 0x03"

fun lane_prefix :: "lane \<Rightarrow> bytes" where
  "lane_prefix Control = [0x01]"
| "lane_prefix Interactive = [0x02]"
| "lane_prefix Bulk = [0x03]"

fun lane_index :: "lane \<Rightarrow> nat" where
  "lane_index Control = 0"
| "lane_index Interactive = 1"
| "lane_index Bulk = 2"

fun lane_priority :: "lane \<Rightarrow> int" where
  "lane_priority Control = 2"
| "lane_priority Interactive = 1"
| "lane_priority Bulk = 0"

fun lane_name :: "lane \<Rightarrow> bytes" where
  "lane_name Control = ascii ''control''"
| "lane_name Interactive = ascii ''interactive''"
| "lane_name Bulk = ascii ''bulk''"

text \<open>\<open>#[derive(PartialOrd, Ord)]\<close>: the order of the variants.\<close>

instantiation lane :: linorder
begin

definition less_eq_lane :: "lane \<Rightarrow> lane \<Rightarrow> bool" where
  "less_eq_lane a b \<longleftrightarrow> lane_index a \<le> lane_index b"

definition less_lane :: "lane \<Rightarrow> lane \<Rightarrow> bool" where
  "less_lane a b \<longleftrightarrow> lane_index a < lane_index b"

instance
proof
  fix a b :: lane
  assume "a \<le> b" and "b \<le> a"
  then show "a = b"
    by (cases a; cases b) (simp_all add: less_eq_lane_def)
qed (auto simp: less_eq_lane_def less_lane_def)

end

section \<open>Topics and endpoint ids\<close>

datatype topic = Topic (topic_bytes: bytes)

text \<open>\<open>#[derive(PartialOrd, Ord)]\<close> on \<open>Topic([u8; 32])\<close>: lexicographic on the bytes.\<close>

instantiation topic :: linorder
begin

definition less_eq_topic :: "topic \<Rightarrow> topic \<Rightarrow> bool" where
  "less_eq_topic a b \<longleftrightarrow> topic_bytes a \<le> topic_bytes b"

definition less_topic :: "topic \<Rightarrow> topic \<Rightarrow> bool" where
  "less_topic a b \<longleftrightarrow> topic_bytes a < topic_bytes b"

instance
  by standard (auto simp: less_eq_topic_def less_topic_def intro: topic.expand)

end

definition ZERO :: topic where
  "ZERO = Topic (replicate 32 0)"

definition is_zero :: "topic \<Rightarrow> bool" where
  "is_zero t \<longleftrightarrow> topic_bytes t = replicate 32 0"

text \<open>The array type \<open>[u8; 32]\<close>.\<close>

definition wf_topic :: "topic \<Rightarrow> bool" where
  "wf_topic t \<longleftrightarrow> length (topic_bytes t) = 32"

datatype endpoint_id = EndpointId (id_bytes: bytes)

definition wf_id :: "(bytes \<Rightarrow> bool) \<Rightarrow> endpoint_id \<Rightarrow> bool" where
  "wf_id valid_key i \<longleftrightarrow> length (id_bytes i) = 32 \<and> valid_key (id_bytes i)"

definition hex :: "bytes \<Rightarrow> bytes" where
  "hex bs = concat (map hex_byte bs)"

definition topic_fmt_short :: "topic \<Rightarrow> bytes" where
  "topic_fmt_short t = hex (take 5 (topic_bytes t))"

text \<open>\<open>impl Display for Topic\<close>.\<close>

definition topic_to_string :: "topic \<Rightarrow> bytes" where
  "topic_to_string t = hex (topic_bytes t)"

datatype 'a hex_result = HexOk 'a | HexBadLength | HexNotHex | HexPanic

text \<open>\<open>Topic::from_hex\<close> slices two bytes at a time: the slice panics unless both its ends are
  character boundaries, then \<open>from_str_radix\<close> parses it.\<close>

definition char_boundary :: "bytes \<Rightarrow> bool" where
  "char_boundary rest \<longleftrightarrow> (rest = [] \<or> \<not> is_cont (hd rest))"

fun hex_pairs :: "bytes \<Rightarrow> bytes hex_result" where
  "hex_pairs [] = HexOk []"
| "hex_pairs [a] = HexPanic"
| "hex_pairs (a # b # rest) =
     (if \<not> char_boundary (a # b # rest) \<or> \<not> char_boundary rest then HexPanic
      else case from_str_radix_16 a b of
             None \<Rightarrow> HexNotHex
           | Some v \<Rightarrow> (case hex_pairs rest of HexOk vs \<Rightarrow> HexOk (v # vs) | r \<Rightarrow> r))"

definition topic_from_hex :: "bytes \<Rightarrow> topic hex_result" where
  "topic_from_hex s =
     (if length s \<noteq> 64 then HexBadLength
      else case hex_pairs s of
             HexOk bs \<Rightarrow> HexOk (Topic bs)
           | HexBadLength \<Rightarrow> HexBadLength
           | HexNotHex \<Rightarrow> HexNotHex
           | HexPanic \<Rightarrow> HexPanic)"

section \<open>Frames\<close>

datatype client_frame =
    Subscribe topic
  | Unsubscribe topic
  | Announce topic bytes
  | Publish topic bytes
  | PublishTo topic endpoint_id bytes

record member =
  m_id :: endpoint_id
  m_blob :: bytes

datatype server_frame =
    Snapshot topic bool "member list"
  | Joined topic endpoint_id
  | Left topic endpoint_id
  | Presence topic endpoint_id bytes
  | Deliver topic bytes
  | Error "topic option" bytes

section \<open>Encoding\<close>

text \<open>One frame in a single allocation: length, tag, body. The length is a \<open>u32\<close>.\<close>

definition encode :: "byte \<Rightarrow> usize \<Rightarrow> bytes \<Rightarrow> bytes" where
  "encode tag body_len body = put_u32 (1 + word_of_nat body_len) @ [tag] @ body"

definition frame_header :: "byte \<Rightarrow> usize \<Rightarrow> bytes" where
  "frame_header tag body_len = put_u32 (1 + word_of_nat body_len) @ [tag]"

fun client_encode :: "client_frame \<Rightarrow> bytes" where
  "client_encode (Subscribe topic) = encode SUBSCRIBE 32 (topic_bytes topic)"
| "client_encode (Unsubscribe topic) = encode UNSUBSCRIBE 32 (topic_bytes topic)"
| "client_encode (Announce topic blob) =
     encode ANNOUNCE (32 + length blob) (topic_bytes topic @ blob)"
| "client_encode (Publish topic payload) =
     encode PUBLISH (32 + length payload) (topic_bytes topic @ payload)"
| "client_encode (PublishTo topic recipient payload) =
     encode PUBLISH_TO (64 + length payload)
       (topic_bytes topic @ id_bytes recipient @ payload)"

fun frame_topic :: "client_frame \<Rightarrow> topic" where
  "frame_topic (Subscribe topic) = topic"
| "frame_topic (Unsubscribe topic) = topic"
| "frame_topic (Announce topic _) = topic"
| "frame_topic (Publish topic _) = topic"
| "frame_topic (PublishTo topic _ _) = topic"

fun is_lane_frame :: "client_frame \<Rightarrow> bool" where
  "is_lane_frame (Publish _ _) = True"
| "is_lane_frame (PublishTo _ _ _) = True"
| "is_lane_frame _ = False"

definition snapshot_entry_len :: "member \<Rightarrow> usize" where
  "snapshot_entry_len m = 32 + 4 + length (m_blob m)"

definition SNAPSHOT_HEAD_LEN :: usize where
  "SNAPSHOT_HEAD_LEN = 32 + 1 + 2"

definition encode_member :: "member \<Rightarrow> bytes" where
  "encode_member m = id_bytes (m_id m) @ put_u32 (word_of_nat (length (m_blob m))) @ m_blob m"

definition encode_snapshot_chunk :: "topic \<Rightarrow> bool \<Rightarrow> member list \<Rightarrow> bytes" where
  "encode_snapshot_chunk topic has_more members =
     encode SNAPSHOT (SNAPSHOT_HEAD_LEN + sum_list (map snapshot_entry_len members))
       (topic_bytes topic @ [if has_more then SNAPSHOT_MORE else 0]
          @ put_u16 (word_of_nat (length members)) @ concat (map encode_member members))"

fun server_encode :: "server_frame \<Rightarrow> bytes" where
  "server_encode (Snapshot topic has_more members) =
     encode_snapshot_chunk topic has_more (take (min (length members) 65535) members)"
| "server_encode (Joined topic i) = encode JOINED 64 (topic_bytes topic @ id_bytes i)"
| "server_encode (Left topic i) = encode LEFT 64 (topic_bytes topic @ id_bytes i)"
| "server_encode (Presence topic i blob) =
     encode PRESENCE (64 + length blob) (topic_bytes topic @ id_bytes i @ blob)"
| "server_encode (Deliver topic payload) =
     encode DELIVER (32 + length payload) (topic_bytes topic @ payload)"
| "server_encode (Error topic reason) =
     encode ERROR (32 + length reason)
       (topic_bytes (case topic of None \<Rightarrow> ZERO | Some t \<Rightarrow> t) @ reason)"

section \<open>Decoding\<close>

datatype proto_error =
    TruncatedTopic | TruncatedId | InvalidId
  | UnknownClientFrame byte | UnknownServerFrame byte
  | TrailingClient byte | TrailingServer byte
  | TruncatedHeader | TruncatedBlobLength | TruncatedBlob
  | NotALaneFrame

definition take_topic :: "bytes \<Rightarrow> proto_error + topic \<times> bytes" where
  "take_topic body =
     (if length body \<ge> 32 then Inr (Topic (take 32 body), drop 32 body) else Inl TruncatedTopic)"

definition take_id :: "(bytes \<Rightarrow> bool) \<Rightarrow> bytes \<Rightarrow> proto_error + endpoint_id \<times> bytes" where
  "take_id valid_key body =
     (if \<not> length body \<ge> 32 then Inl TruncatedId
      else if valid_key (take 32 body) then Inr (EndpointId (take 32 body), drop 32 body)
      else Inl InvalidId)"

definition client_decode :: "(bytes \<Rightarrow> bool) \<Rightarrow> byte \<Rightarrow> bytes \<Rightarrow> proto_error + client_frame" where
  "client_decode valid_key tag body =
     (if tag = SUBSCRIBE then
        and_then (take_topic body) (\<lambda>(topic, body).
        and_then (ensure (body = []) (TrailingClient tag)) (\<lambda>_. Inr (Subscribe topic)))
      else if tag = UNSUBSCRIBE then
        and_then (take_topic body) (\<lambda>(topic, body).
        and_then (ensure (body = []) (TrailingClient tag)) (\<lambda>_. Inr (Unsubscribe topic)))
      else if tag = ANNOUNCE then
        and_then (take_topic body) (\<lambda>(topic, body). Inr (Announce topic body))
      else if tag = PUBLISH then
        and_then (take_topic body) (\<lambda>(topic, body). Inr (Publish topic body))
      else if tag = PUBLISH_TO then
        and_then (take_topic body) (\<lambda>(topic, body).
        and_then (take_id valid_key body) (\<lambda>(recipient, body).
          Inr (PublishTo topic recipient body)))
      else Inl (UnknownClientFrame tag))"

text \<open>The entries of a SNAPSHOT: the \<open>for _ in 0..count\<close> loop.\<close>

fun take_members :: "(bytes \<Rightarrow> bool) \<Rightarrow> nat \<Rightarrow> bytes \<Rightarrow> proto_error + member list \<times> bytes" where
  "take_members valid_key 0 body = Inr ([], body)"
| "take_members valid_key (Suc count) body =
     and_then (take_id valid_key body) (\<lambda>(i, body).
     and_then (ensure (length body \<ge> 4) TruncatedBlobLength) (\<lambda>_.
     let len = from_be (take 4 body); body = drop 4 body in
     and_then (ensure (length body \<ge> len) TruncatedBlob) (\<lambda>_.
     and_then (take_members valid_key count (drop len body)) (\<lambda>(ms, rest).
       Inr (\<lparr>m_id = i, m_blob = take len body\<rparr> # ms, rest)))))"

definition server_decode :: "(bytes \<Rightarrow> bool) \<Rightarrow> byte \<Rightarrow> bytes \<Rightarrow> proto_error + server_frame" where
  "server_decode valid_key tag body =
     (if tag = SNAPSHOT then
        and_then (take_topic body) (\<lambda>(topic, body).
        and_then (ensure (length body \<ge> 3) TruncatedHeader) (\<lambda>_.
        let flags = hd body; count = from_be (take 2 (drop 1 body)) in
        and_then (take_members valid_key count (drop 3 body)) (\<lambda>(members, body).
        and_then (ensure (body = []) (TrailingServer tag)) (\<lambda>_.
          Inr (Snapshot topic (flags AND SNAPSHOT_MORE \<noteq> 0) members)))))
      else if tag = JOINED then
        and_then (take_topic body) (\<lambda>(topic, body).
        and_then (take_id valid_key body) (\<lambda>(i, body).
        and_then (ensure (body = []) (TrailingServer tag)) (\<lambda>_. Inr (Joined topic i))))
      else if tag = LEFT then
        and_then (take_topic body) (\<lambda>(topic, body).
        and_then (take_id valid_key body) (\<lambda>(i, body).
        and_then (ensure (body = []) (TrailingServer tag)) (\<lambda>_. Inr (Left topic i))))
      else if tag = PRESENCE then
        and_then (take_topic body) (\<lambda>(topic, body).
        and_then (take_id valid_key body) (\<lambda>(i, body). Inr (Presence topic i body)))
      else if tag = DELIVER then
        and_then (take_topic body) (\<lambda>(topic, body). Inr (Deliver topic body))
      else if tag = ERROR then
        and_then (take_topic body) (\<lambda>(topic, body).
          Inr (Error (if is_zero topic then None else Some topic) (from_utf8_lossy body)))
      else Inl (UnknownServerFrame tag))"

section \<open>Datagrams\<close>

definition datagram :: "topic \<Rightarrow> bytes \<Rightarrow> bytes" where
  "datagram topic payload = topic_bytes topic @ payload"

definition split_datagram :: "bytes \<Rightarrow> (topic \<times> bytes) option" where
  "split_datagram dg = (case take_topic dg of Inl _ \<Rightarrow> None | Inr r \<Rightarrow> Some r)"

section \<open>Well-formed frames\<close>

text \<open>What the Rust types guarantee (array lengths, valid keys, UTF-8 strings), and the size
  bound under which a frame passes the receiver's length check.\<close>

fun wf_client_frame :: "(bytes \<Rightarrow> bool) \<Rightarrow> client_frame \<Rightarrow> bool" where
  "wf_client_frame valid_key (Subscribe t) \<longleftrightarrow> wf_topic t"
| "wf_client_frame valid_key (Unsubscribe t) \<longleftrightarrow> wf_topic t"
| "wf_client_frame valid_key (Announce t blob) \<longleftrightarrow> wf_topic t \<and> 33 + length blob \<le> MAX_FRAME_LEN"
| "wf_client_frame valid_key (Publish t payload) \<longleftrightarrow>
     wf_topic t \<and> 33 + length payload \<le> MAX_FRAME_LEN"
| "wf_client_frame valid_key (PublishTo t i payload) \<longleftrightarrow>
     wf_topic t \<and> wf_id valid_key i \<and> 65 + length payload \<le> MAX_FRAME_LEN"

definition wf_member :: "(bytes \<Rightarrow> bool) \<Rightarrow> member \<Rightarrow> bool" where
  "wf_member valid_key m \<longleftrightarrow> wf_id valid_key (m_id m) \<and> length (m_blob m) < 2 ^ 32"

definition entries_len :: "member list \<Rightarrow> usize" where
  "entries_len ms = sum_list (map snapshot_entry_len ms)"

fun wf_server_frame :: "(bytes \<Rightarrow> bool) \<Rightarrow> server_frame \<Rightarrow> bool" where
  "wf_server_frame valid_key (Snapshot t has_more ms) \<longleftrightarrow>
     wf_topic t \<and> length ms \<le> 65535 \<and> (\<forall>m \<in> set ms. wf_member valid_key m)
     \<and> 1 + SNAPSHOT_HEAD_LEN + entries_len ms \<le> MAX_FRAME_LEN"
| "wf_server_frame valid_key (Joined t i) \<longleftrightarrow> wf_topic t \<and> wf_id valid_key i"
| "wf_server_frame valid_key (Left t i) \<longleftrightarrow> wf_topic t \<and> wf_id valid_key i"
| "wf_server_frame valid_key (Presence t i blob) \<longleftrightarrow>
     wf_topic t \<and> wf_id valid_key i \<and> 65 + length blob \<le> MAX_FRAME_LEN"
| "wf_server_frame valid_key (Deliver t payload) \<longleftrightarrow>
     wf_topic t \<and> 33 + length payload \<le> MAX_FRAME_LEN"
| "wf_server_frame valid_key (Error t reason) \<longleftrightarrow>
     (case t of None \<Rightarrow> True | Some t' \<Rightarrow> wf_topic t' \<and> \<not> is_zero t')
     \<and> valid_utf8 reason \<and> 33 + length reason \<le> MAX_FRAME_LEN"

section \<open>Lemmas: lanes, topics\<close>

lemma lane_from_byte_byte [simp]: "lane_from_byte (lane_byte l) = Some l"
  by (cases l) (simp_all add: lane_from_byte_def)

lemma lane_from_byte_Some: "lane_from_byte b = Some l \<longleftrightarrow> b = lane_byte l"
  by (cases l) (auto simp: lane_from_byte_def)

lemma lane_prefix_byte: "lane_prefix l = [lane_byte l]"
  by (cases l) simp_all

lemma wf_topic_ZERO [simp]: "wf_topic ZERO"
  by (simp add: wf_topic_def ZERO_def)

lemma is_zero_iff: "is_zero t \<longleftrightarrow> t = ZERO"
  by (cases t) (auto simp: is_zero_def ZERO_def)

lemma wf_topicD [dest]: "wf_topic t \<Longrightarrow> length (topic_bytes t) = 32"
  by (simp add: wf_topic_def)

lemma hex_Cons: "hex (b # bs) = hex_byte b @ hex bs"
  by (simp add: hex_def)

lemma length_hex: "length (hex bs) = 2 * length bs"
  by (induction bs) (simp_all add: hex_def hex_byte_def)

lemma ascii_boundary: "b < 0x80 \<Longrightarrow> \<not> is_cont b"
  by (auto simp: is_cont_def)

lemma char_boundary_hex: "char_boundary (hex bs)"
proof (cases bs)
  case (Cons b bs')
  have "unat b div 16 < 16" using unat_byte_bound [of b] by (simp add: less_mult_imp_div_less)
  then show ?thesis
    by (simp add: Cons hex_Cons hex_byte_def char_boundary_def ascii_boundary hex_digit_ascii)
qed (simp add: hex_def char_boundary_def)

lemma hex_pairs_hex: "hex_pairs (hex bs) = HexOk bs"
proof (induction bs)
  case Nil
  show ?case by (simp add: hex_def)
next
  case (Cons b bs)
  have "char_boundary (hex (b # bs))" and "char_boundary (hex bs)"
    by (rule char_boundary_hex)+
  then show ?case
    using Cons.IH by (simp add: hex_Cons hex_byte_def from_str_radix_16_hex_byte)
qed

section \<open>Lemmas: parsing primitives\<close>

lemma take_topic_append [simp]:
  "wf_topic t \<Longrightarrow> take_topic (topic_bytes t @ rest) = Inr (t, rest)"
  by (simp add: take_topic_def wf_topic_def)

lemma take_topic_exact [simp]: "wf_topic t \<Longrightarrow> take_topic (topic_bytes t) = Inr (t, [])"
  using take_topic_append [of t "[]"] by simp

lemma take_topic_Inr: "take_topic body = Inr (t, rest) \<longleftrightarrow> wf_topic t \<and> body = topic_bytes t @ rest"
proof
  assume "take_topic body = Inr (t, rest)"
  then show "wf_topic t \<and> body = topic_bytes t @ rest"
    by (auto simp: take_topic_def wf_topic_def split: if_splits)
qed (auto simp: take_topic_append)

lemma take_id_append [simp]:
  "wf_id vk i \<Longrightarrow> take_id vk (id_bytes i @ rest) = Inr (i, rest)"
  by (simp add: take_id_def wf_id_def)

lemma take_id_exact [simp]: "wf_id vk i \<Longrightarrow> take_id vk (id_bytes i) = Inr (i, [])"
  using take_id_append [of vk i "[]"] by simp

lemma take_id_Inr: "take_id vk body = Inr (i, rest) \<longleftrightarrow> wf_id vk i \<and> body = id_bytes i @ rest"
proof
  assume "take_id vk body = Inr (i, rest)"
  then show "wf_id vk i \<and> body = id_bytes i @ rest"
    by (auto simp: take_id_def wf_id_def split: if_splits)
qed (auto simp: take_id_append)

section \<open>Lemmas: a frame is a header and a body its decoder accepts\<close>

text \<open>The body length a frame declares, without wrap-around below \<open>2 ^ 32\<close>.\<close>

lemma encode_header: "encode tag n body = frame_header tag n @ body"
  by (simp add: encode_def frame_header_def)

lemma length_frame_header [simp]: "length (frame_header tag n) = 5"
  by (simp add: frame_header_def)

lemma declared_len: "n < 2 ^ 32 - 1 \<Longrightarrow> unat (1 + word_of_nat n :: 32 word) = 1 + n"
  by (simp add: unat_word_ariths(1) unat_of_nat)

lemma MAX_FRAME_LEN_value: "MAX_FRAME_LEN = 1114112"
  by (simp add: MAX_FRAME_LEN_def MAX_PUBLISH_LEN_def)

fun client_tag :: "client_frame \<Rightarrow> byte" where
  "client_tag (Subscribe _) = SUBSCRIBE"
| "client_tag (Unsubscribe _) = UNSUBSCRIBE"
| "client_tag (Announce _ _) = ANNOUNCE"
| "client_tag (Publish _ _) = PUBLISH"
| "client_tag (PublishTo _ _ _) = PUBLISH_TO"

fun client_body :: "client_frame \<Rightarrow> bytes" where
  "client_body (Subscribe t) = topic_bytes t"
| "client_body (Unsubscribe t) = topic_bytes t"
| "client_body (Announce t blob) = topic_bytes t @ blob"
| "client_body (Publish t payload) = topic_bytes t @ payload"
| "client_body (PublishTo t i payload) = topic_bytes t @ id_bytes i @ payload"

lemma client_encode_frame:
  "wf_client_frame vk f \<Longrightarrow>
     client_encode f = frame_header (client_tag f) (length (client_body f)) @ client_body f"
  by (cases f) (auto simp: encode_header wf_topic_def wf_id_def)

lemma client_body_len: "wf_client_frame vk f \<Longrightarrow> 1 + length (client_body f) \<le> MAX_FRAME_LEN"
  by (cases f) (auto simp: wf_topic_def wf_id_def MAX_FRAME_LEN_value)

lemma client_decode_body:
  "wf_client_frame vk f \<Longrightarrow> client_decode vk (client_tag f) (client_body f) = Inr f"
  by (cases f) (simp_all add: client_decode_def ensure_def)

text \<open>The other direction: whatever decodes is the canonical encoding of its result.\<close>

lemma client_decode_sound:
  assumes "client_decode vk tag body = Inr f"
  shows "tag = client_tag f \<and> body = client_body f"
  using assms
  by (auto simp: client_decode_def take_topic_Inr take_id_Inr split: if_splits)

lemma client_decode_wf:
  assumes "client_decode vk tag body = Inr f" and "1 + length body \<le> MAX_FRAME_LEN"
  shows "wf_client_frame vk f"
  using assms
  by (auto simp: client_decode_def take_topic_Inr take_id_Inr wf_topic_def wf_id_def split: if_splits)

subsection \<open>Server frames\<close>

lemma length_encode_member:
  "wf_id vk (m_id m) \<Longrightarrow> length (encode_member m) = snapshot_entry_len m"
  by (simp add: encode_member_def snapshot_entry_len_def wf_id_def)

lemma length_encode_members:
  "\<forall>m \<in> set ms. wf_member vk m \<Longrightarrow> length (concat (map encode_member ms)) = entries_len ms"
  by (induction ms) (auto simp: entries_len_def wf_member_def length_encode_member)

lemma take_members_encode:
  "\<forall>m \<in> set ms. wf_member vk m \<Longrightarrow>
     take_members vk (length ms) (concat (map encode_member ms) @ rest) = Inr (ms, rest)"
proof (induction ms)
  case Nil
  show ?case by simp
next
  case (Cons m ms)
  then have wf: "wf_id vk (m_id m)" and len: "length (m_blob m) < 2 ^ 32"
    and IH: "take_members vk (length ms) (concat (map encode_member ms) @ rest) = Inr (ms, rest)"
    by (auto simp: wf_member_def)
  have "from_be (put_u32 (word_of_nat (length (m_blob m)))) = length (m_blob m)"
    using len by (simp add: unat_of_nat)
  then show ?case
    using wf IH by (simp add: encode_member_def [of m] ensure_def Let_def)
qed

fun server_tag :: "server_frame \<Rightarrow> byte" where
  "server_tag (Snapshot _ _ _) = SNAPSHOT"
| "server_tag (Joined _ _) = JOINED"
| "server_tag (Left _ _) = LEFT"
| "server_tag (Presence _ _ _) = PRESENCE"
| "server_tag (Deliver _ _) = DELIVER"
| "server_tag (Error _ _) = ERROR"

fun server_body :: "server_frame \<Rightarrow> bytes" where
  "server_body (Snapshot t has_more ms) =
     topic_bytes t @ [if has_more then SNAPSHOT_MORE else 0] @ put_u16 (word_of_nat (length ms))
       @ concat (map encode_member ms)"
| "server_body (Joined t i) = topic_bytes t @ id_bytes i"
| "server_body (Left t i) = topic_bytes t @ id_bytes i"
| "server_body (Presence t i blob) = topic_bytes t @ id_bytes i @ blob"
| "server_body (Deliver t payload) = topic_bytes t @ payload"
| "server_body (Error t reason) = topic_bytes (case t of None \<Rightarrow> ZERO | Some t' \<Rightarrow> t') @ reason"

lemma server_body_length:
  assumes "wf_server_frame vk f"
  shows "1 + length (server_body f) \<le> MAX_FRAME_LEN"
proof (cases f)
  case (Snapshot t has_more ms)
  with assms have "\<forall>m \<in> set ms. wf_member vk m" by simp
  from length_encode_members [OF this] assms Snapshot show ?thesis
    by (simp add: wf_topic_def SNAPSHOT_HEAD_LEN_def)
next
  case (Error t reason)
  with assms show ?thesis
    by (cases t) (auto simp: wf_topic_def ZERO_def)
qed (use assms in \<open>auto simp: wf_topic_def wf_id_def MAX_FRAME_LEN_value\<close>)

lemma server_encode_frame:
  assumes "wf_server_frame vk f"
  shows "server_encode f = frame_header (server_tag f) (length (server_body f)) @ server_body f"
proof (cases f)
  case (Snapshot t has_more ms)
  with assms have "\<forall>m \<in> set ms. wf_member vk m" by simp
  from length_encode_members [OF this] assms Snapshot show ?thesis
    by (simp add: encode_snapshot_chunk_def encode_header wf_topic_def SNAPSHOT_HEAD_LEN_def
        entries_len_def)
next
  case (Error t reason)
  with assms show ?thesis
    by (cases t) (auto simp: encode_header wf_topic_def ZERO_def)
qed (use assms in \<open>auto simp: encode_header wf_topic_def wf_id_def\<close>)

lemma server_decode_body:
  assumes "wf_server_frame vk f"
  shows "server_decode vk (server_tag f) (server_body f) = Inr f"
proof (cases f)
  case (Snapshot t has_more ms)
  with assms have ms: "\<forall>m \<in> set ms. wf_member vk m" and n: "length ms < 65536"
    and t: "wf_topic t" by auto
  have "from_be (put_u16 (word_of_nat (length ms))) = length ms"
    using n by (simp add: unat_of_nat)
  moreover have "take_members vk (length ms) (concat (map encode_member ms)) = Inr (ms, [])"
    using take_members_encode [OF ms, of "[]"] by simp
  ultimately show ?thesis
    using t Snapshot by (simp add: server_decode_def ensure_def Let_def SNAPSHOT_MORE_def)
next
  case (Error t reason)
  with assms show ?thesis
    by (cases t) (auto simp: server_decode_def from_utf8_lossy_valid is_zero_iff)
qed (use assms in \<open>auto simp: server_decode_def ensure_def\<close>)

section \<open>Properties\<close>

text \<open>A lane stream's first byte names its lane: the byte written for a lane reads back as
  that lane and is its stream prefix, every other byte names none, and control outranks
  interactive outranks bulk.\<close>

theorem lane_byte_roundtrip:
  "lane_from_byte (lane_byte l) = Some l \<and> lane_prefix l = [lane_byte l]
    \<and> (lane_from_byte b = None \<longleftrightarrow> b \<notin> lane_byte ` set lane_ALL)
    \<and> lane_ALL ! lane_index l = l
    \<and> (l < l' \<longleftrightarrow> lane_priority l' < lane_priority l)"
proof (intro conjI)
  show "lane_from_byte b = None \<longleftrightarrow> b \<notin> lane_byte ` set lane_ALL"
    by (auto simp: lane_from_byte_def lane_ALL_def)
  show "lane_ALL ! lane_index l = l"
    by (cases l) (simp_all add: lane_ALL_def)
  show "l < l' \<longleftrightarrow> lane_priority l' < lane_priority l"
    by (cases l; cases l') (simp_all add: less_lane_def)
qed (simp_all add: lane_prefix_byte)

text \<open>Printing a topic and parsing it back gives the topic.\<close>

theorem topic_hex_roundtrip:
  assumes "wf_topic t"
  shows "topic_from_hex (topic_to_string t) = HexOk t"
  using assms
  by (cases t) (simp add: topic_from_hex_def topic_to_string_def length_hex hex_pairs_hex wf_topic_def)

theorem topic_hex_roundtrip_witness:
  "topic_from_hex (topic_to_string (Topic (replicate 32 0xAB))) = HexOk (Topic (replicate 32 0xAB))"
  by (rule topic_hex_roundtrip) (simp add: wf_topic_def)

text \<open>\<open>Topic::from_hex\<close> is not total on strings: on a 64-byte string with a two-byte
  character across one of its slices it panics instead of returning an error. And it accepts
  strings that are not 64 hex digits: a sign in front of a single digit passes for a byte.\<close>

theorem topic_from_hex_panics:
  "(\<exists>s. length s = 64 \<and> valid_utf8 s \<and> topic_from_hex s = HexPanic)
    \<and> (\<exists>s t. 0x2B \<in> set s \<and> topic_from_hex s = HexOk t)"
proof
  let ?s = "0x61 # 0xC3 # 0xA9 # replicate 61 0x61 :: bytes"
  have "valid_utf8 (replicate 61 0x61)" by (rule ascii_valid) simp
  then have "valid_utf8 ?s"
    by (simp add: utf8_head.simps(2) utf8_char_width_def is_cont_def byte_at_def)
  moreover have "topic_from_hex ?s = HexPanic"
    by (simp add: topic_from_hex_def char_boundary_def is_cont_def)
  ultimately show "\<exists>s. length s = 64 \<and> valid_utf8 s \<and> topic_from_hex s = HexPanic"
    by (intro exI [of _ ?s]) simp
  let ?p = "0x2B # 0x66 # hex (replicate 31 0) :: bytes"
  have "hex_pairs ?p = HexOk (15 # replicate 31 0)"
    using char_boundary_hex [of "replicate 31 0"]
    by (simp add: hex_pairs_hex from_str_radix_16_def from_hex_digit_def char_boundary_def is_cont_def)
  then have "topic_from_hex ?p = HexOk (Topic (15 # replicate 31 0))"
    by (simp add: topic_from_hex_def length_hex)
  then show "\<exists>s t. 0x2B \<in> set s \<and> topic_from_hex s = HexOk t"
    by (intro exI [of _ ?p]) auto
qed

text \<open>C38: what the client decoder accepts is canonical: the frame is well formed and its
  encoding is the header for the received tag and length followed by the received body. So no two
  different wire frames decode to the same client frame, and the decoder loses nothing.\<close>

theorem client_decode_canonical:
  assumes "client_decode vk tag body = Inr f" and "1 + length body \<le> MAX_FRAME_LEN"
  shows "wf_client_frame vk f \<and> client_encode f = frame_header tag (length body) @ body"
  using client_decode_sound [OF assms(1)] client_decode_wf [OF assms]
    client_encode_frame [of vk f] by simp

theorem client_decode_canonical_witness:
  "client_decode (\<lambda>_. True) PUBLISH_TO (replicate 64 7 @ [1, 2])
      = Inr (PublishTo (Topic (replicate 32 7)) (EndpointId (replicate 32 7)) [1, 2])
    \<and> client_encode (PublishTo (Topic (replicate 32 7)) (EndpointId (replicate 32 7)) [1, 2])
      = frame_header PUBLISH_TO 66 @ replicate 64 7 @ [1, 2]"
proof -
  have dec: "client_decode (\<lambda>_. True) PUBLISH_TO (replicate 64 7 @ [1, 2])
      = Inr (PublishTo (Topic (replicate 32 7)) (EndpointId (replicate 32 7)) [1, 2])"
    by (simp add: client_decode_def take_topic_def take_id_def drop_replicate take_replicate)
  from client_decode_canonical [OF dec] show ?thesis
    using dec by (simp add: MAX_FRAME_LEN_value)
qed

text \<open>C39: every frame the client decoder refuses has a named reason, and the refusals are
  exactly the documented ones: a tag that is not a client frame, a truncated topic or recipient, a
  recipient that is not a key, or bytes after a SUBSCRIBE or UNSUBSCRIBE topic.\<close>

theorem client_decode_refusals:
  "client_decode vk tag body = Inl e \<longleftrightarrow>
     (tag \<notin> {SUBSCRIBE, UNSUBSCRIBE, ANNOUNCE, PUBLISH, PUBLISH_TO} \<and> e = UnknownClientFrame tag)
   \<or> (tag \<in> {SUBSCRIBE, UNSUBSCRIBE, ANNOUNCE, PUBLISH, PUBLISH_TO} \<and> length body < 32
        \<and> e = TruncatedTopic)
   \<or> (tag \<in> {SUBSCRIBE, UNSUBSCRIBE} \<and> 32 < length body \<and> e = TrailingClient tag)
   \<or> (tag = PUBLISH_TO \<and> 32 \<le> length body \<and> length body < 64 \<and> e = TruncatedId)
   \<or> (tag = PUBLISH_TO \<and> 64 \<le> length body \<and> \<not> vk (take 32 (drop 32 body)) \<and> e = InvalidId)"
  by (auto simp: client_decode_def take_topic_def take_id_def and_then_eq_Inl split: if_splits)

text \<open>A datagram splits into the topic and payload it was built from, and anything of 32
  bytes or more splits into parts that build it again.\<close>

theorem datagram_roundtrip:
  assumes "wf_topic t"
  shows "split_datagram (datagram t payload) = Some (t, payload)
    \<and> (split_datagram dg = Some (t', rest) \<longleftrightarrow> wf_topic t' \<and> dg = datagram t' rest)
    \<and> (split_datagram dg = None \<longleftrightarrow> length dg < 32)"
proof -
  have "split_datagram dg = Some (t', rest) \<longleftrightarrow> take_topic dg = Inr (t', rest)"
    by (auto simp: split_datagram_def split: sum.splits)
  moreover have "split_datagram dg = None \<longleftrightarrow> length dg < 32"
    by (auto simp: split_datagram_def take_topic_def)
  ultimately show ?thesis
    using assms by (simp add: split_datagram_def datagram_def take_topic_Inr)
qed

theorem datagram_roundtrip_witness:
  "split_datagram (datagram (Topic (replicate 32 9)) [1, 2, 3]) = Some (Topic (replicate 32 9), [1, 2, 3])"
  using datagram_roundtrip [of "Topic (replicate 32 9)" "[1, 2, 3]"] by (simp add: wf_topic_def)

end
