(* ===== verification/Framing.thy ===== *)
theory Framing
  imports Wire "HOL-Library.Sublist"
begin

text \<open>
  Reading frames off a stream: \<open>read_frame\<close>, \<open>read_lane_byte\<close> and \<open>write_frame\<close> of
  \<open>src/src/proto.rs\<close>, and the \<open>while let Some(..) = read_frame(..)\<close> loop that every reader
  of the server and the client runs.

  A stream is what an \<open>AsyncRead\<close> still has to deliver: the segments in which the bytes
  arrive, then an end of file or an I/O error. One \<open>read\<close> returns at most one segment.
  The locale \<open>frame_codec\<close> states what a frame encoder and decoder promise a reader;
  its lemmas lift that to streams, whatever the segmentation.
\<close>

section \<open>Streams\<close>

datatype io_end = Eof | IoFailure

record reader =
  segs :: "bytes list"
  tail :: io_end

definition stream_bytes :: "reader \<Rightarrow> bytes" where
  "stream_bytes r = concat (segs r)"

fun read_segs :: "nat \<Rightarrow> bytes list \<Rightarrow> bytes \<times> bytes list" where
  "read_segs n [] = ([], [])"
| "read_segs n ([] # ss) = read_segs n ss"
| "read_segs n (s # ss) = (take n s, drop n s # ss)"

text \<open>\<open>read\<close> with room for \<open>n\<close> bytes: \<open>None\<close> an I/O error, \<open>Some []\<close> the end of the stream.\<close>

definition read_some :: "nat \<Rightarrow> reader \<Rightarrow> bytes option \<times> reader" where
  "read_some n r =
     (let (got, ss) = read_segs n (segs r)
      in (if got = [] \<and> tail r = IoFailure then None else Some got, r\<lparr>segs := ss\<rparr>))"

datatype exact_error = UnexpectedEof | ExactIo

text \<open>\<open>AsyncReadExt::read_exact\<close>.\<close>

lemma read_segs_concat: "read_segs n ss = (got, ss') \<Longrightarrow> concat ss = got @ concat ss'"
  by (induction n ss rule: read_segs.induct) auto

lemma read_segs_empty: "0 < n \<Longrightarrow> read_segs n ss = (got, ss') \<Longrightarrow> got = [] \<longleftrightarrow> concat ss = []"
  by (induction n ss rule: read_segs.induct) auto

lemma read_segs_length: "read_segs n ss = (got, ss') \<Longrightarrow> length got \<le> n"
  by (induction n ss rule: read_segs.induct) auto

function read_exact :: "nat \<Rightarrow> bytes \<Rightarrow> reader \<Rightarrow> (exact_error + bytes) \<times> reader" where
  "read_exact n buf r =
     (if length buf < n then
        (case read_some (n - length buf) r of
           (None, r') \<Rightarrow> (Inl ExactIo, r')
         | (Some got, r') \<Rightarrow>
             if got = [] then (Inl UnexpectedEof, r') else read_exact n (buf @ got) r')
      else (Inr buf, r))"
  by pat_completeness auto
termination
  by (relation "measure (\<lambda>(n, buf, r). n - length buf)") (auto simp: neq_Nil_conv)

section \<open>Reading a frame\<close>

definition READ_STEP :: usize where
  "READ_STEP = 64 * 1024"

text \<open>\<open>Vec<u8>\<close> with its capacity.\<close>

record vec =
  vec_data :: bytes
  vec_cap :: usize

definition vec_with_capacity :: "usize \<Rightarrow> vec" where
  "vec_with_capacity n = \<lparr>vec_data = [], vec_cap = n\<rparr>"

definition vec_reserve_exact :: "usize \<Rightarrow> vec \<Rightarrow> vec" where
  "vec_reserve_exact additional v =
     (if vec_cap v - length (vec_data v) \<ge> additional then v
      else v\<lparr>vec_cap := length (vec_data v) + additional\<rparr>)"

datatype read_error = FrameLengthError usize | ReadIo | BodyIo | TruncatedFrame

text \<open>Double the buffer (never past \<open>len\<close>) each time it fills.\<close>

definition grow :: "usize \<Rightarrow> vec \<Rightarrow> vec" where
  "grow len v =
     (if length (vec_data v) = vec_cap v then
        (let target = min (max (vec_cap v * 2) READ_STEP) len
         in vec_reserve_exact (target - length (vec_data v)) v)
      else v)"

lemma vec_data_grow [simp]: "vec_data (grow len v) = vec_data v"
  by (simp add: grow_def vec_reserve_exact_def Let_def)

function read_body :: "usize \<Rightarrow> vec \<Rightarrow> reader \<Rightarrow> read_error option \<times> vec \<times> reader" where
  "read_body len buf r =
     (if length (vec_data buf) < len then
        (let buf = grow len buf;
             room = min (len - length (vec_data buf)) (vec_cap buf - length (vec_data buf))
         in case read_some room r of
              (None, r') \<Rightarrow> (Some BodyIo, buf, r')
            | (Some got, r') \<Rightarrow>
                if got = [] then (Some TruncatedFrame, buf, r')
                else read_body len (buf\<lparr>vec_data := vec_data buf @ got\<rparr>) r')
      else (None, buf, r))"
  by pat_completeness auto
termination
  by (relation "measure (\<lambda>(len, buf, r). len - length (vec_data buf))") (auto simp: neq_Nil_conv)

declare read_exact.simps [simp del] read_body.simps [simp del]

definition read_frame :: "reader \<Rightarrow> (read_error + (byte \<times> bytes) option) \<times> reader" where
  "read_frame r =
     (case read_exact 4 [] r of
        (Inl UnexpectedEof, r) \<Rightarrow> (Inr None, r)
      | (Inl ExactIo, r) \<Rightarrow> (Inl ReadIo, r)
      | (Inr len_buf, r) \<Rightarrow>
          let len = from_be len_buf in
          if \<not> (1 \<le> len \<and> len \<le> MAX_FRAME_LEN) then (Inl (FrameLengthError len), r)
          else (case read_body len (vec_with_capacity (min len READ_STEP)) r of
                  (Some e, _, r) \<Rightarrow> (Inl e, r)
                | (None, buf, r) \<Rightarrow> (Inr (Some (hd (vec_data buf), tl (vec_data buf))), r)))"

definition read_lane_byte :: "reader \<Rightarrow> (read_error + byte option) \<times> reader" where
  "read_lane_byte r =
     (case read_exact 1 [] r of
        (Inr buf, r) \<Rightarrow> (Inr (Some (hd buf)), r)
      | (Inl UnexpectedEof, r) \<Rightarrow> (Inr None, r)
      | (Inl ExactIo, r) \<Rightarrow> (Inl ReadIo, r))"

section \<open>What a read does to the bytes\<close>

lemma read_some_Some:
  assumes "read_some n r = (Some got, r')"
  shows "stream_bytes r = got @ stream_bytes r'" "tail r' = tail r" "length got \<le> n"
    and "0 < n \<Longrightarrow> got = [] \<longleftrightarrow> stream_bytes r = []"
    and "got = [] \<Longrightarrow> tail r = Eof"
  using assms
  by (auto simp: read_some_def stream_bytes_def split: prod.splits if_splits
      dest: read_segs_concat read_segs_empty read_segs_length intro: io_end.exhaust)

lemma read_some_None:
  assumes "read_some n r = (None, r')" and "0 < n"
  shows "stream_bytes r = []" "stream_bytes r' = []" "tail r = IoFailure" "tail r' = tail r"
  using assms read_segs_concat [of n "segs r"]
  by (auto simp: read_some_def stream_bytes_def split: prod.splits if_splits dest: read_segs_empty)

text \<open>\<open>read_exact\<close> looks at the bytes only, not at how they arrive.\<close>

lemma read_exact_Inr:
  "length buf \<le> n \<Longrightarrow> n - length buf \<le> length (stream_bytes r) \<Longrightarrow>
     \<exists>r'. read_exact n buf r = (Inr (buf @ take (n - length buf) (stream_bytes r)), r')
        \<and> stream_bytes r' = drop (n - length buf) (stream_bytes r) \<and> tail r' = tail r"
proof (induction n buf r rule: read_exact.induct)
  case (1 n buf r)
  show ?case
  proof (cases "length buf < n")
    case False
    with "1.prems" show ?thesis by (simp add: read_exact.simps [of n buf r])
  next
    case True
    with "1.prems" have ne: "stream_bytes r \<noteq> []" by auto
    obtain got r' where rd: "read_some (n - length buf) r = (Some got, r')"
      using ne True read_some_None(1) [of "n - length buf" r]
      by (cases "read_some (n - length buf) r"; cases "fst (read_some (n - length buf) r)") auto
    note got = read_some_Some [OF rd]
    have "got \<noteq> []" using got(4) True ne by simp
    moreover have "length (buf @ got) \<le> n" using got(3) True by simp
    moreover have "n - length (buf @ got) \<le> length (stream_bytes r')"
      using got(1) "1.prems"(2) by simp
    ultimately obtain r'' where
      "read_exact n (buf @ got) r' =
         (Inr ((buf @ got) @ take (n - length (buf @ got)) (stream_bytes r')), r'')"
      "stream_bytes r'' = drop (n - length (buf @ got)) (stream_bytes r')" "tail r'' = tail r'"
      using "1.IH" [OF True rd [symmetric] refl] by blast
    with True rd \<open>got \<noteq> []\<close> got(1-3) show ?thesis
      by (simp add: read_exact.simps [of n buf r])
  qed
qed

lemma read_exact_Inl:
  "length buf < n \<Longrightarrow> length (stream_bytes r) < n - length buf \<Longrightarrow>
     \<exists>r'. read_exact n buf r = (Inl (if tail r = Eof then UnexpectedEof else ExactIo), r')"
proof (induction n buf r rule: read_exact.induct)
  case (1 n buf r)
  show ?case
  proof (cases "read_some (n - length buf) r")
    case (Pair res r')
    show ?thesis
    proof (cases res)
      case None
      with Pair "1.prems" read_some_None(3) [of "n - length buf" r r'] show ?thesis
        by (simp add: read_exact.simps [of n buf r])
    next
      case (Some got)
      note got = read_some_Some [OF Pair [unfolded Some]]
      show ?thesis
      proof (cases "got = []")
        case True
        with Pair Some "1.prems" got(5) show ?thesis
          by (simp add: read_exact.simps [of n buf r])
      next
        case False
        have "length (buf @ got) < n" "length (stream_bytes r') < n - length (buf @ got)"
          using "1.prems" got(1) by auto
        with "1.IH" [OF "1.prems"(1) Pair [unfolded Some, symmetric] refl False] got(2)
        show ?thesis
          using Pair Some False "1.prems"(1) by (simp add: read_exact.simps [of n buf r])
      qed
    qed
  qed
qed

section \<open>Filling the frame buffer\<close>

text \<open>The buffer's invariant: never above the declared length, and above \<open>READ_STEP\<close> only
  when at least half of it has arrived.\<close>

definition vec_ok :: "usize \<Rightarrow> vec \<Rightarrow> bool" where
  "vec_ok len v \<longleftrightarrow>
     length (vec_data v) \<le> vec_cap v \<and> vec_cap v \<le> len \<and> 0 < vec_cap v
     \<and> vec_cap v \<le> max READ_STEP (2 * length (vec_data v))"

lemma grow_ok:
  assumes "vec_ok len v" and "length (vec_data v) < len"
  shows "vec_ok len (grow len v)" and "length (vec_data v) < vec_cap (grow len v)"
  using assms by (auto simp: vec_ok_def grow_def vec_reserve_exact_def Let_def READ_STEP_def)

lemma vec_ok_extend:
  "vec_ok len v \<Longrightarrow> length got \<le> vec_cap v - length (vec_data v) \<Longrightarrow>
     vec_ok len (v\<lparr>vec_data := vec_data v @ got\<rparr>)"
  by (auto simp: vec_ok_def)

lemma read_body_fills:
  assumes "vec_ok len buf" and "read_body len buf r = (e, v, r')"
  shows "vec_ok len v \<and> tail r' = tail r
    \<and> (\<exists>got. vec_data v = vec_data buf @ got \<and> stream_bytes r = got @ stream_bytes r')
    \<and> e = (if len \<le> length (vec_data buf) + length (stream_bytes r) then None
           else if tail r = Eof then Some TruncatedFrame else Some BodyIo)
    \<and> (e = None \<longrightarrow> length (vec_data v) = len)"
  using assms
proof (induction len buf r arbitrary: e v r' rule: read_body.induct)
  case (1 len buf r)
  show ?case
  proof (cases "length (vec_data buf) < len")
    case False
    with "1.prems" show ?thesis
      by (auto simp: read_body.simps [of len buf r] vec_ok_def)
  next
    case True
    let ?buf = "grow len buf"
    let ?room = "min (len - length (vec_data ?buf)) (vec_cap ?buf - length (vec_data ?buf))"
    note ok = grow_ok [OF "1.prems"(1) True]
    have room: "0 < ?room" using True ok(2) by simp
    obtain res r1 where rd: "read_some ?room r = (res, r1)" by fastforce
    show ?thesis
    proof (cases res)
      case None
      with rd room True "1.prems"(2) ok show ?thesis
        using read_some_None [OF rd [unfolded None] room]
        by (auto simp: read_body.simps [of len buf r] Let_def)
    next
      case (Some got)
      note got = read_some_Some [OF rd [unfolded Some]]
      show ?thesis
      proof (cases "got = []")
        case empty: True
        with rd Some True "1.prems"(2) ok got room show ?thesis
          by (auto simp: read_body.simps [of len buf r] Let_def)
      next
        case False
        let ?buf' = "?buf\<lparr>vec_data := vec_data ?buf @ got\<rparr>"
        have ok': "vec_ok len ?buf'" using vec_ok_extend [OF ok(1)] got(3) by simp
        have rec: "read_body len ?buf' r1 = (e, v, r')"
          using "1.prems"(2) True rd Some False by (simp add: read_body.simps [of len buf r] Let_def)
        from "1.IH" [OF True refl refl rd [unfolded Some, symmetric] refl False ok' rec] got(1,2)
        show ?thesis by auto
      qed
    qed
  qed
qed

lemma vec_ok_initial: "1 \<le> len \<Longrightarrow> vec_ok len (vec_with_capacity (min len READ_STEP))"
  by (auto simp: vec_ok_def vec_with_capacity_def READ_STEP_def)

section \<open>Reading a frame, as a function of the bytes\<close>

text \<open>The specification: what the next bytes of the stream say, with no segments and no
  buffer growth.\<close>

definition next_frame :: "bytes \<Rightarrow> io_end \<Rightarrow> read_error + (byte \<times> bytes) option" where
  "next_frame bs t =
     (if length bs < 4 then (if t = Eof then Inr None else Inl ReadIo)
      else let len = from_be (take 4 bs) in
        if len = 0 \<or> MAX_FRAME_LEN < len then Inl (FrameLengthError len)
        else if length bs < 4 + len then Inl (if t = Eof then TruncatedFrame else BodyIo)
        else Inr (Some (bs ! 4, take (len - 1) (drop 5 bs))))"

lemma read_body_complete:
  assumes len: "1 \<le> len" and rb: "read_body len (vec_with_capacity (min len READ_STEP)) r = (None, v, r')"
  shows "vec_data v = take len (stream_bytes r)" "stream_bytes r' = drop len (stream_bytes r)"
    "tail r' = tail r" "len \<le> length (stream_bytes r)"
  using read_body_fills [OF vec_ok_initial [OF len] rb] len
  by (auto simp: vec_with_capacity_def split: if_splits)

lemma read_frame_next: "fst (read_frame r) = next_frame (stream_bytes r) (tail r)"
proof (cases "length (stream_bytes r) < 4")
  case True
  then obtain r' where "read_exact 4 [] r = (Inl (if tail r = Eof then UnexpectedEof else ExactIo), r')"
    using read_exact_Inl [of "[]" 4 r] by auto
  with True show ?thesis
    by (cases "tail r") (auto simp: read_frame_def next_frame_def)
next
  case False
  then obtain r1 where ex: "read_exact 4 [] r = (Inr (take 4 (stream_bytes r)), r1)"
    and r1: "stream_bytes r1 = drop 4 (stream_bytes r)" "tail r1 = tail r"
    using read_exact_Inr [of "[]" 4 r] by auto
  let ?len = "from_be (take 4 (stream_bytes r))"
  show ?thesis
  proof (cases "1 \<le> ?len \<and> ?len \<le> MAX_FRAME_LEN")
    case out: False
    with False ex show ?thesis by (auto simp: read_frame_def next_frame_def Let_def)
  next
    case inn: True
    then have len: "1 \<le> ?len" by simp
    obtain e v r' where rb: "read_body ?len (vec_with_capacity (min ?len READ_STEP)) r1 = (e, v, r')"
      by (metis prod_cases3)
    note fills = read_body_fills [OF vec_ok_initial [OF len] rb]
    show ?thesis
    proof (cases e)
      case (Some err)
      with False ex inn rb fills r1 show ?thesis
        by (auto simp: read_frame_def next_frame_def Let_def vec_with_capacity_def split: if_splits)
    next
      case None
      note full = read_body_complete [OF len rb [unfolded None]]
      obtain n where n: "?len = Suc n" using len by (cases ?len) auto
      have "length (drop 4 (stream_bytes r)) \<noteq> 0" using full(4) len r1(1) by simp
      then obtain b rest where rest: "drop 4 (stream_bytes r) = b # rest"
        by (cases "drop 4 (stream_bytes r)") auto
      have "stream_bytes r ! 4 = b" "drop 5 (stream_bytes r) = rest"
        using drop_Cons_nth [OF rest] by simp_all
      with False ex inn rb None full r1 rest n show ?thesis
        by (auto simp: read_frame_def next_frame_def Let_def)
    qed
  qed
qed

lemma read_frame_rest:
  assumes "read_frame r = (Inr (Some (tag, body)), r')"
  shows "stream_bytes r' = drop (5 + length body) (stream_bytes r)" "tail r' = tail r"
    "5 + length body \<le> length (stream_bytes r)"
proof -
  have nf: "next_frame (stream_bytes r) (tail r) = Inr (Some (tag, body))"
    using read_frame_next [of r] assms by simp
  let ?len = "from_be (take 4 (stream_bytes r))"
  from nf have ge: "4 \<le> length (stream_bytes r)" and len: "1 \<le> ?len"
    and tot: "4 + ?len \<le> length (stream_bytes r)" and body: "length body = ?len - 1"
    by (auto simp: next_frame_def Let_def split: if_splits)
  obtain r1 where ex: "read_exact 4 [] r = (Inr (take 4 (stream_bytes r)), r1)"
    and r1: "stream_bytes r1 = drop 4 (stream_bytes r)" "tail r1 = tail r"
    using ge read_exact_Inr [of "[]" 4 r] by auto
  obtain e v r2 where rb: "read_body ?len (vec_with_capacity (min ?len READ_STEP)) r1 = (e, v, r2)"
    by (metis prod_cases3)
  have e: "e = None" and "r2 = r'"
    using assms ex rb by (auto simp: read_frame_def Let_def split: if_splits option.splits)
  note full = read_body_complete [OF len rb [unfolded e]]
  show "stream_bytes r' = drop (5 + length body) (stream_bytes r)" "tail r' = tail r"
    using full r1 \<open>r2 = r'\<close> body len by (simp_all add: add.commute)
  show "5 + length body \<le> length (stream_bytes r)" using tot body len by simp
qed

lemma read_frame_body_bound:
  assumes "read_frame r = (Inr (Some (tag, body)), r')"
  shows "1 + length body \<le> MAX_FRAME_LEN"
proof -
  have "next_frame (stream_bytes r) (tail r) = Inr (Some (tag, body))"
    using read_frame_next [of r] assms by simp
  then show ?thesis by (auto simp: next_frame_def Let_def split: if_splits)
qed

lemma next_frame_encoded:
  assumes "1 + length body \<le> MAX_FRAME_LEN"
  shows "next_frame (frame_header tag (length body) @ body @ rest) t = Inr (Some (tag, body))"
proof -
  have "length body < 2 ^ 32 - 1" using assms by (simp add: MAX_FRAME_LEN_value)
  then have "from_be (put_u32 (1 + word_of_nat (length body))) = 1 + length body"
    by (simp add: declared_len)
  then show ?thesis
    using assms by (simp add: next_frame_def frame_header_def nth_append Let_def)
qed

section \<open>The read loop\<close>

text \<open>\<open>while let Some((tag, body)) = read_frame(recv).await? { .. }\<close>: the handler gets each raw
  frame and says whether to go on. The result is the error that ended the loop (\<open>None\<close>: the
  stream ended, or the handler broke out), the state and the rest of the stream.\<close>

function read_loop ::
  "(byte \<Rightarrow> bytes \<Rightarrow> 's \<Rightarrow> bool \<times> 's) \<Rightarrow> reader \<Rightarrow> 's \<Rightarrow> read_error option \<times> 's \<times> reader" where
  "read_loop handle r s =
     (case read_frame r of
        (Inl e, r') \<Rightarrow> (Some e, s, r')
      | (Inr None, r') \<Rightarrow> (None, s, r')
      | (Inr (Some (tag, body)), r') \<Rightarrow>
          (case handle tag body s of
             (True, s') \<Rightarrow> read_loop handle r' s'
           | (False, s') \<Rightarrow> (None, s', r')))"
  by pat_completeness auto
termination
proof (relation "measure (\<lambda>(h, r, s). length (stream_bytes r))", goal_cases)
  case 1
  show ?case by simp
next
  case (2 handle r s x r' x2 o1 tag body y1 s')
  then have "read_frame r = (Inr (Some (tag, body)), r')" by simp
  from read_frame_rest [OF this] show ?case by simp
qed

declare read_loop.simps [simp del]

text \<open>What every turn of the loop keeps, the loop keeps; a turn sees only bodies within the limit.\<close>

lemma read_loop_invariant:
  assumes "I s"
    and "\<And>tag body s. I s \<Longrightarrow> 1 + length body \<le> MAX_FRAME_LEN \<Longrightarrow> I (snd (handle tag body s))"
  shows "I (fst (snd (read_loop handle r s)))"
  using assms(1)
proof (induction "length (stream_bytes r)" arbitrary: r s rule: less_induct)
  case less
  consider (stop) e r' where "read_frame r = (Inl e, r')" | (ended) r' where "read_frame r = (Inr None, r')"
    | (frame) tag body r' where "read_frame r = (Inr (Some (tag, body)), r')"
    by (metis old.sum.exhaust option.exhaust prod.collapse)
  then show ?case
  proof cases
    case (frame tag body r')
    obtain go s' where h: "handle tag body s = (go, s')" by fastforce
    have "I s'" using assms(2) [OF less.prems read_frame_body_bound [OF frame], of tag] h by simp
    moreover have "length (stream_bytes r') < length (stream_bytes r)"
      using read_frame_rest [OF frame] by simp
    ultimately show ?thesis
      using less.hyps frame h by (cases go) (simp_all add: read_loop.simps [of handle r])
  qed (use less.prems in \<open>simp_all add: read_loop.simps [of handle r]\<close>)
qed

text \<open>A frame that is there stays there when more bytes follow.\<close>

lemma next_frame_more:
  "next_frame bs t = Inr (Some (tag, body)) \<Longrightarrow> next_frame (bs @ rest) t' = Inr (Some (tag, body))"
  by (auto simp: next_frame_def Let_def nth_append split: if_splits)

lemma read_lane_byte_Cons:
  assumes "stream_bytes r = b # bs"
  obtains r' where "read_lane_byte r = (Inr (Some b), r')" "stream_bytes r' = bs" "tail r' = tail r"
  using read_exact_Inr [of "[]" 1 r] assms by (auto simp: read_lane_byte_def)

lemma read_lane_byte_Nil: "stream_bytes r = [] \<Longrightarrow> fst (read_lane_byte r) \<noteq> Inr (Some b)"
  using read_exact_Inl [of "[]" 1 r] by (cases "tail r") (auto simp: read_lane_byte_def)

lemma read_loop_stop:
  assumes "\<And>x. fst (read_frame r) \<noteq> Inr (Some x)"
  shows "\<exists>e r'. read_loop handle r s = (e, s, r')"
proof (cases "read_frame r")
  case (Pair e r')
  then show ?thesis
    using assms by (auto simp: read_loop.simps [of handle r] split: sum.splits option.splits)
qed

section \<open>Codecs\<close>

text \<open>What a frame encoder and its decoder promise: a well-formed frame is a header and a
  body within the length limit, and the decoder maps that tag and body back to it. Everything a
  reader needs follows, for any segmentation of the stream.\<close>

locale frame_codec =
  fixes enc :: "'f \<Rightarrow> bytes"
    and dec :: "byte \<Rightarrow> bytes \<Rightarrow> proto_error + 'f"
    and wf :: "'f \<Rightarrow> bool"
    and tag_of :: "'f \<Rightarrow> byte"
    and body_of :: "'f \<Rightarrow> bytes"
  assumes enc_frame: "wf f \<Longrightarrow> enc f = frame_header (tag_of f) (length (body_of f)) @ body_of f"
    and body_len: "wf f \<Longrightarrow> 1 + length (body_of f) \<le> MAX_FRAME_LEN"
    and dec_body: "wf f \<Longrightarrow> dec (tag_of f) (body_of f) = Inr f"
begin

lemma length_enc: "wf f \<Longrightarrow> length (enc f) = 5 + length (body_of f)"
  by (simp add: enc_frame)

lemma read_frame_enc:
  assumes "wf f" and "stream_bytes r = enc f @ rest"
  shows "\<exists>r'. read_frame r = (Inr (Some (tag_of f, body_of f)), r')
    \<and> stream_bytes r' = rest \<and> tail r' = tail r"
proof -
  have "fst (read_frame r) = Inr (Some (tag_of f, body_of f))"
    using read_frame_next [of r] next_frame_encoded [OF body_len [OF assms(1)], of "tag_of f" rest]
    by (simp add: assms(2) enc_frame [OF assms(1)])
  then obtain r' where rf: "read_frame r = (Inr (Some (tag_of f, body_of f)), r')"
    by (metis prod.collapse)
  from read_frame_rest [OF rf] show ?thesis
    using rf assms(2) length_enc [OF assms(1)] by simp
qed

text \<open>Encodings are prefix-free, so a stream of frames has one reading.\<close>

lemma enc_prefix_free:
  assumes "wf f" and "wf g" and "enc f @ xs = enc g @ ys"
  shows "f = g \<and> xs = ys"
proof -
  let ?r = "\<lparr>segs = [enc f @ xs], tail = Eof\<rparr>"
  obtain r1 where 1: "read_frame ?r = (Inr (Some (tag_of f, body_of f)), r1)" "stream_bytes r1 = xs"
    using read_frame_enc [OF assms(1), of ?r xs] by (auto simp: stream_bytes_def)
  obtain r2 where 2: "read_frame ?r = (Inr (Some (tag_of g, body_of g)), r2)" "stream_bytes r2 = ys"
    using read_frame_enc [OF assms(2), of ?r ys]
    by (auto simp only: stream_bytes_def reader.simps concat.simps append_Nil2 assms(3))
  have same: "tag_of f = tag_of g" "body_of f = body_of g" "r1 = r2"
    using 1(1) 2(1) by simp_all
  have "Inr f = (Inr g :: proto_error + 'f)"
    using dec_body [OF assms(1)] dec_body [OF assms(2)] unfolding same by simp
  moreover have "xs = ys" using 1(2) 2(2) unfolding same by simp
  ultimately show ?thesis by simp
qed

lemma read_frame_cut:
  assumes "wf f" "strict_prefix (stream_bytes r) (enc f)"
  shows "fst (read_frame r) \<noteq> Inr (Some x)"
proof
  assume "fst (read_frame r) = Inr (Some x)"
  then obtain tag body r' where rf: "read_frame r = (Inr (Some (tag, body)), r')"
    by (cases "read_frame r"; cases x) auto
  obtain xs where xs: "enc f = stream_bytes r @ xs" "xs \<noteq> []"
    using assms(2) by (auto elim!: strict_prefixE')
  have "next_frame (stream_bytes r) (tail r) = Inr (Some (tag, body))" using read_frame_next [of r] rf by simp
  then have "next_frame (enc f) Eof = Inr (Some (tag, body))" unfolding xs(1) by (rule next_frame_more)
  then have "body = body_of f"
    using next_frame_encoded [OF body_len [OF assms(1)], of _ "[]"] enc_frame [OF assms(1)] by simp
  then show False using read_frame_rest(3) [OF rf] length_enc [OF assms(1)] xs by (cases xs) auto
qed

text \<open>A read loop over whole frames handles all of them, as long as its state stays good.\<close>

lemma read_loop_whole:
  assumes "\<forall>f \<in> set fs. wf f"
    and "\<And>f s. f \<in> set fs \<Longrightarrow> I s \<Longrightarrow> handle (tag_of f) (body_of f) s = (True, step f s) \<and> I (step f s)"
    and "stream_bytes r = concat (map enc fs)" "tail r = Eof" "I s"
  shows "\<exists>r'. read_loop handle r s = (None, fold step fs s, r')"
  using assms
proof (induction fs arbitrary: r s)
  case Nil
  then have "fst (read_frame r) = Inr None" by (simp add: read_frame_next next_frame_def)
  then show ?case by (cases "read_frame r") (simp add: read_loop.simps [of handle r])
next
  case (Cons f fs)
  obtain r1 where rf: "read_frame r = (Inr (Some (tag_of f, body_of f)), r1)"
    and r1: "stream_bytes r1 = concat (map enc fs)" "tail r1 = tail r"
    using read_frame_enc [of f r "concat (map enc fs)"] Cons.prems(1,3) by auto
  have "read_loop handle r s = read_loop handle r1 (step f s)"
    using rf Cons.prems(2) [of f s] Cons.prems(5) by (simp add: read_loop.simps [of handle r s])
  moreover have "\<exists>r'. read_loop handle r1 (step f s) = (None, fold step fs (step f s), r')"
    using Cons.prems r1 by (intro Cons.IH) auto
  ultimately show ?case by simp
qed

text \<open>A read loop over a stream cut anywhere handles the frames that are there in full.\<close>

lemma read_loop_cut:
  assumes "\<forall>f \<in> set fs. wf f"
    and "\<And>f s. f \<in> set fs \<Longrightarrow> I s \<Longrightarrow> handle (tag_of f) (body_of f) s = (True, step f s) \<and> I (step f s)"
    and "prefix (stream_bytes r) (concat (map enc fs))" and "I s"
  shows "\<exists>m e r'. read_loop handle r s = (e, fold step (take m fs) s, r')
    \<and> prefix (concat (map enc (take m fs))) (stream_bytes r)
    \<and> (\<forall>k. prefix (concat (map enc (take k fs))) (stream_bytes r) \<longrightarrow> k \<le> m \<or> length fs \<le> m)"
  using assms
proof (induction fs arbitrary: r s)
  case Nil
  then have "next_frame (stream_bytes r) (tail r) = (if tail r = Eof then Inr None else Inl ReadIo)"
    by (simp add: next_frame_def)
  then have "fst (read_frame r) \<noteq> Inr (Some x)" for x by (simp add: read_frame_next)
  from read_loop_stop [OF this] show ?case by simp
next
  case (Cons f fs)
  have wf: "wf f" using Cons.prems(1) by simp
  show ?case
  proof (cases "prefix (enc f) (stream_bytes r)")
    case True
    then obtain bs where bs: "stream_bytes r = enc f @ bs" by (auto simp: prefix_def)
    then obtain r1 where rf: "read_frame r = (Inr (Some (tag_of f, body_of f)), r1)"
      and r1: "stream_bytes r1 = bs" "tail r1 = tail r"
      using read_frame_enc [OF wf] by blast
    have one: "read_loop handle r s = read_loop handle r1 (step f s)"
      using rf Cons.prems(2) [of f s] Cons.prems(4) by (simp add: read_loop.simps [of handle r s])
    have "prefix (stream_bytes r1) (concat (map enc fs))" using Cons.prems(3) bs r1(1) by simp
    from Cons.IH [OF _ _ this, of "step f s"] Cons.prems(1,2,4)
    obtain m e r' where m: "read_loop handle r1 (step f s) = (e, fold step (take m fs) (step f s), r')"
        "prefix (concat (map enc (take m fs))) bs"
        "\<forall>k. prefix (concat (map enc (take k fs))) bs \<longrightarrow> k \<le> m \<or> length fs \<le> m"
      using r1(1) by auto
    show ?thesis
    proof (intro exI conjI allI impI)
      show "read_loop handle r s = (e, fold step (take (Suc m) (f # fs)) s, r')" using one m(1) by simp
      show "prefix (concat (map enc (take (Suc m) (f # fs)))) (stream_bytes r)" using m(2) bs by simp
      show "k \<le> Suc m \<or> length (f # fs) \<le> Suc m" if "prefix (concat (map enc (take k (f # fs)))) (stream_bytes r)" for k
        using that m(3) bs by (cases k) auto
    qed
  next
    case False
    then have "strict_prefix (stream_bytes r) (enc f)"
      using Cons.prems(3) prefix_same_cases [of "stream_bytes r" "enc f @ concat (map enc fs)" "enc f"]
      by (auto simp: strict_prefix_def)
    from read_loop_stop [of r handle s, OF read_frame_cut [OF wf this]]
    obtain e r' where "read_loop handle r s = (e, s, r')" by blast
    moreover have "k = 0" if "prefix (concat (map enc (take k (f # fs)))) (stream_bytes r)" for k
      using that False by (cases k) (auto dest: append_prefixD)
    ultimately show ?thesis by (intro exI [of _ 0]) auto
  qed
qed

end

text \<open>Both directions of the protocol are codecs, for every set of valid keys.\<close>

interpretation client: frame_codec client_encode "client_decode vk" "wf_client_frame vk"
  client_tag client_body
  for vk
  by unfold_locales
    (fact client_encode_frame client_body_len client_decode_body)+

interpretation server: frame_codec server_encode "server_decode vk" "wf_server_frame vk"
  server_tag server_body
  for vk
  by unfold_locales
    (fact server_encode_frame server_body_length server_decode_body)+

section \<open>Properties\<close>

text \<open>C34: \<open>read_frame\<close> is a function of the bytes alone. However the stream is cut into
  segments, and however the buffer grew, the result is the one \<open>next_frame\<close> computes from the
  remaining bytes and how they end; and a frame read consumes exactly its own bytes.\<close>

theorem read_frame_segmentation:
  "fst (read_frame r) = next_frame (stream_bytes r) (tail r)
    \<and> (\<forall>tag body r'. read_frame r = (Inr (Some (tag, body)), r') \<longrightarrow>
         stream_bytes r = put_u32 (word_of_nat (1 + length body)) @ [tag] @ body @ stream_bytes r')"
proof (intro conjI allI impI)
  show "fst (read_frame r) = next_frame (stream_bytes r) (tail r)" by (rule read_frame_next)
  fix tag body r'
  assume rf: "read_frame r = (Inr (Some (tag, body)), r')"
  let ?bs = "stream_bytes r"
  have nf: "next_frame ?bs (tail r) = Inr (Some (tag, body))"
    using read_frame_next [of r] rf by simp
  note rest = read_frame_rest [OF rf]
  have len: "from_be (take 4 ?bs) = 1 + length body" and tag: "?bs ! 4 = tag"
    and body: "body = take (length body) (drop 5 ?bs)"
    using nf rest(3) by (auto simp: next_frame_def Let_def split: if_splits)
  have "put_u32 (word_of_nat (1 + length body)) = take 4 ?bs"
    using put_u32_from_be [of "take 4 ?bs"] rest(3) by (simp add: len)
  moreover have "drop 4 ?bs = tag # drop 5 ?bs"
    using rest(3) tag Cons_nth_drop_Suc [of 4 ?bs] by simp
  moreover have "drop 5 ?bs = body @ stream_bytes r'"
    using body rest(1) by (metis add.commute append_take_drop_id drop_drop)
  ultimately show "?bs = put_u32 (word_of_nat (1 + length body)) @ [tag] @ body @ stream_bytes r'"
    by (metis append_Cons append_Nil append_take_drop_id)
qed

theorem read_frame_segmentation_witness:
  "read_frame \<lparr>segs = [[0, 0], [0], [3, 0x21, 5], [6, 7]], tail = Eof\<rparr>
      = (Inr (Some (0x21, [5, 6])), \<lparr>segs = [[7]], tail = Eof\<rparr>)
    \<and> stream_bytes \<lparr>segs = [[0, 0], [0], [3, 0x21, 5], [6, 7]], tail = Eof\<rparr>
      = put_u32 (word_of_nat (1 + length [5, 6 :: byte])) @ [0x21] @ [5, 6]
          @ stream_bytes \<lparr>segs = [[7]], tail = Eof\<rparr>"
proof
  let ?r = "\<lparr>segs = [[0, 0], [0], [3, 0x21, 5], [6, 7]], tail = Eof\<rparr>"
  show rf: "read_frame ?r = (Inr (Some (0x21, [5, 6])), \<lparr>segs = [[7]], tail = Eof\<rparr>)"
    by (simp add: read_frame_def read_exact.simps read_body.simps read_some_def from_be_def Let_def
        grow_def vec_with_capacity_def vec_reserve_exact_def READ_STEP_def MAX_FRAME_LEN_value)
  show "stream_bytes ?r = put_u32 (word_of_nat (1 + length [5, 6 :: byte])) @ [0x21] @ [5, 6]
          @ stream_bytes \<lparr>segs = [[7]], tail = Eof\<rparr>"
    using read_frame_segmentation [of ?r] rf by blast
qed

text \<open>C35: a peer has to send bytes before they are allocated. Whatever length a frame
  declares and however the read ends, the buffer's capacity never exceeds the declared length, and
  beyond \<open>READ_STEP\<close> never twice what has arrived; a completed buffer is exactly the frame.\<close>

theorem read_body_allocation:
  assumes "1 \<le> len"
    and "read_body len (vec_with_capacity (min len READ_STEP)) r = (e, v, r')"
  shows "vec_cap v \<le> len \<and> vec_cap v \<le> max READ_STEP (2 * length (vec_data v))
    \<and> (e = None \<longleftrightarrow> len \<le> length (stream_bytes r))
    \<and> (e = None \<longrightarrow> vec_data v = take len (stream_bytes r) \<and> vec_cap v = len)"
proof -
  note fills = read_body_fills [OF vec_ok_initial [OF assms(1)] assms(2)]
  have cap: "vec_cap v \<le> len" "vec_cap v \<le> max READ_STEP (2 * length (vec_data v))"
    "length (vec_data v) \<le> vec_cap v"
    using conjunct1 [OF fills] by (simp_all add: vec_ok_def)
  have full: "e = None \<longrightarrow> length (vec_data v) = len" using fills by blast
  have "e = (if len \<le> length (stream_bytes r) then None
       else if tail r = Eof then Some TruncatedFrame else Some BodyIo)"
    using fills unfolding vec_with_capacity_def vec.simps list.size(3) add_0 by blast
  then have e: "e = None \<longleftrightarrow> len \<le> length (stream_bytes r)" by simp
  have "vec_data v = take len (stream_bytes r) \<and> vec_cap v = len" if "e = None"
  proof
    show "vec_data v = take len (stream_bytes r)"
      using read_body_complete(1) [OF assms(1), of r v r'] assms(2) that by simp
    show "vec_cap v = len" using full that cap(1,3) by simp
  qed
  with cap e show ?thesis by blast
qed

theorem read_body_allocation_witness:
  "read_body 1000000 (vec_with_capacity (min 1000000 READ_STEP)) \<lparr>segs = [[1, 2]], tail = Eof\<rparr>
      = (Some TruncatedFrame, \<lparr>vec_data = [1, 2], vec_cap = READ_STEP\<rparr>, \<lparr>segs = [], tail = Eof\<rparr>)
    \<and> READ_STEP \<le> max READ_STEP (2 * length [1 :: byte, 2])"
proof
  have h: "1 \<le> (1000000 :: nat)" by simp
  show rb: "read_body 1000000 (vec_with_capacity (min 1000000 READ_STEP)) \<lparr>segs = [[1, 2]], tail = Eof\<rparr>
      = (Some TruncatedFrame, \<lparr>vec_data = [1, 2], vec_cap = READ_STEP\<rparr>, \<lparr>segs = [], tail = Eof\<rparr>)"
    by (subst read_body.simps, simp add: read_some_def Let_def grow_def vec_with_capacity_def READ_STEP_def,
        subst read_body.simps, simp add: read_some_def Let_def grow_def)
  show "READ_STEP \<le> max READ_STEP (2 * length [1 :: byte, 2])"
    using read_body_allocation [OF h rb] by simp
qed

text \<open>Framing errors. \<open>read_frame\<close> reports a bad length exactly when a whole prefix arrived
  and it is zero or above \<open>MAX_FRAME_LEN\<close>, and then carries that length; an incomplete body is a
  truncation, never a length error.\<close>

theorem read_frame_length_error:
  "fst (read_frame r) = Inl (FrameLengthError n) \<longleftrightarrow>
     4 \<le> length (stream_bytes r) \<and> n = from_be (take 4 (stream_bytes r))
       \<and> (n = 0 \<or> MAX_FRAME_LEN < n)"
  by (auto simp: read_frame_next next_frame_def Let_def split: if_splits)

text \<open>\<open>read_frame\<close> cannot tell a clean end of stream from one inside a length prefix: with
  one, two or three bytes left it also returns \<open>Ok(None)\<close>, although its documentation says that
  result means the stream ended on a frame boundary.\<close>

theorem read_frame_partial_prefix:
  assumes "tail r = Eof" and "0 < length (stream_bytes r)" and "length (stream_bytes r) < 4"
  shows "fst (read_frame r) = Inr None"
  using assms by (simp add: read_frame_next next_frame_def)

theorem read_frame_partial_prefix_witness:
  "fst (read_frame \<lparr>segs = [[0, 0, 1]], tail = Eof\<rparr>) = Inr None"
  by (rule read_frame_partial_prefix) (simp_all add: stream_bytes_def)

text \<open>C32: every well-formed client frame survives the wire: written to a stream in any
  segmentation, with anything behind it, it is read and decoded back to itself and nothing else is
  consumed.\<close>

theorem client_frame_roundtrip:
  assumes "wf_client_frame vk f" and "stream_bytes r = client_encode f @ rest"
  shows "\<exists>tag body r'. read_frame r = (Inr (Some (tag, body)), r') \<and> client_decode vk tag body = Inr f
    \<and> stream_bytes r' = rest \<and> tail r' = tail r"
  using client.read_frame_enc [OF assms] client.dec_body [OF assms(1)] by blast

theorem client_frame_roundtrip_witness:
  "\<exists>tag body r'. read_frame \<lparr>segs = [client_encode (Announce (Topic (replicate 32 7)) [1]), [9]], tail = Eof\<rparr>
        = (Inr (Some (tag, body)), r')
    \<and> client_decode (\<lambda>_. True) tag body = Inr (Announce (Topic (replicate 32 7)) [1])
    \<and> stream_bytes r' = [9] \<and> tail r' = Eof"
  using client_frame_roundtrip [of "\<lambda>_. True" "Announce (Topic (replicate 32 7)) [1]"
      "\<lparr>segs = [client_encode (Announce (Topic (replicate 32 7)) [1]), [9]], tail = Eof\<rparr>" "[9]"]
  by (simp add: wf_topic_def MAX_FRAME_LEN_value stream_bytes_def)

text \<open>C33: the same for every well-formed server frame, snapshots with their members
  included.\<close>

theorem server_frame_roundtrip:
  assumes "wf_server_frame vk f" and "stream_bytes r = server_encode f @ rest"
  shows "\<exists>tag body r'. read_frame r = (Inr (Some (tag, body)), r') \<and> server_decode vk tag body = Inr f
    \<and> stream_bytes r' = rest \<and> tail r' = tail r"
  using server.read_frame_enc [OF assms] server.dec_body [OF assms(1)] by blast

theorem server_frame_roundtrip_witness:
  "\<exists>tag body r'. read_frame \<lparr>segs = [server_encode (Snapshot (Topic (replicate 32 7)) True
          [\<lparr>m_id = EndpointId (replicate 32 3), m_blob = [1, 2]\<rparr>])], tail = Eof\<rparr>
        = (Inr (Some (tag, body)), r')
    \<and> server_decode (\<lambda>_. True) tag body = Inr (Snapshot (Topic (replicate 32 7)) True
          [\<lparr>m_id = EndpointId (replicate 32 3), m_blob = [1, 2]\<rparr>])
    \<and> stream_bytes r' = [] \<and> tail r' = Eof"
  using server_frame_roundtrip [of "\<lambda>_. True" "Snapshot (Topic (replicate 32 7)) True
          [\<lparr>m_id = EndpointId (replicate 32 3), m_blob = [1, 2]\<rparr>]"
      "\<lparr>segs = [server_encode (Snapshot (Topic (replicate 32 7)) True
          [\<lparr>m_id = EndpointId (replicate 32 3), m_blob = [1, 2]\<rparr>])], tail = Eof\<rparr>" "[]"]
  by (simp add: wf_topic_def wf_id_def wf_member_def MAX_FRAME_LEN_value stream_bytes_def
      SNAPSHOT_HEAD_LEN_def entries_len_def snapshot_entry_len_def)

end
