(* ===== verification/Snapshots.thy ===== *)
theory Snapshots
  imports Framing
begin

text \<open>
  Snapshot chunking of \<open>src/src/proto.rs\<close>: \<open>encode_snapshot\<close> cuts a room's members into
  SNAPSHOT frames and \<open>snapshot_wire_len\<close> estimates their size for the queue accounting.
  The reference definition is \<open>snapshot_plan\<close>, the list of (MORE, members) chunks; the
  lemmas say what the cuts guarantee and that the encoder emits exactly the plan.
\<close>

section \<open>Definitions\<close>

definition clamp_entries :: "usize \<Rightarrow> usize" where
  "clamp_entries max_entries = min (max max_entries 1) 65535"

text \<open>The inner loop: the end of the chunk that begins at \<open>start\<close>, from the position \<open>stop\<close>
  with \<open>body\<close> bytes so far.\<close>

function snapshot_cut :: "member list \<Rightarrow> usize \<Rightarrow> usize \<Rightarrow> nat \<Rightarrow> nat \<Rightarrow> usize \<Rightarrow> nat" where
  "snapshot_cut members max_entries max_body start stop body =
     (if stop < length members \<and> stop - start < max_entries then
        (let entry = snapshot_entry_len (members ! stop) in
         if stop > start \<and> body + entry > max_body then stop
         else snapshot_cut members max_entries max_body start (stop + 1) (body + entry))
      else stop)"
  by pat_completeness auto
termination
  by (relation "measure (\<lambda>(members, me, mb, start, stop, body). length members - stop)") auto

declare snapshot_cut.simps [simp del]

definition slice_of :: "'a list \<Rightarrow> nat \<Rightarrow> nat \<Rightarrow> 'a list" where
  "slice_of xs a b = take (b - a) (drop a xs)"

lemma snapshot_cut_ge: "stop \<le> snapshot_cut members me mb start stop body"
proof (induction members me mb start stop body rule: snapshot_cut.induct)
  case (1 members me mb start stop body)
  show ?case
  proof (cases "stop < length members \<and> stop - start < me
      \<and> \<not> (stop > start \<and> body + snapshot_entry_len (members ! stop) > mb)")
    case True
    with "1.IH" show ?thesis
      by (auto simp: snapshot_cut.simps [of members me mb start stop body] Let_def)
  next
    case False
    then show ?thesis
      by (auto simp: snapshot_cut.simps [of members me mb start stop body] Let_def)
  qed
qed

lemma snapshot_cut_progress:
  "start < length members \<Longrightarrow> 0 < me \<Longrightarrow> start < snapshot_cut members me mb start start body"
  using snapshot_cut_ge [of "start + 1" members me mb start "body + snapshot_entry_len (members ! start)"]
  by (simp add: snapshot_cut.simps [of members me mb start start body] Let_def)

text \<open>The outer loop, from \<open>start\<close> on.\<close>

function encode_snapshot_from :: "topic \<Rightarrow> member list \<Rightarrow> usize \<Rightarrow> usize \<Rightarrow> nat \<Rightarrow> bytes list" where
  "encode_snapshot_from topic members max_entries max_body start =
     (let stop = snapshot_cut members (clamp_entries max_entries) max_body start start SNAPSHOT_HEAD_LEN;
          has_more = stop < length members;
          chunk = encode_snapshot_chunk topic has_more (slice_of members start stop)
      in if \<not> has_more then [chunk]
         else chunk # encode_snapshot_from topic members max_entries max_body stop)"
  by pat_completeness auto
termination
proof (relation "measure (\<lambda>(topic, members, me, mb, start). length members - start)", goal_cases)
  case 1
  show ?case by simp
next
  case (2 topic members me mb start stop has_more chunk)
  have "0 < clamp_entries me" by (simp add: clamp_entries_def)
  with 2 have "start < stop"
    using snapshot_cut_progress [of start members "clamp_entries me" mb SNAPSHOT_HEAD_LEN]
      snapshot_cut_ge [of start members "clamp_entries me" mb start SNAPSHOT_HEAD_LEN]
    by auto
  with 2 show ?case by auto
qed

declare encode_snapshot_from.simps [simp del]

definition encode_snapshot :: "topic \<Rightarrow> member list \<Rightarrow> usize \<Rightarrow> usize \<Rightarrow> bytes list" where
  "encode_snapshot topic members max_entries max_body =
     encode_snapshot_from topic members max_entries max_body 0"

definition snapshot_wire_len :: "member list \<Rightarrow> usize \<Rightarrow> usize" where
  "snapshot_wire_len members max_entries =
     (let entries = sum_list (map snapshot_entry_len members);
          chunks = max (length members div max max_entries 1) (entries div SNAPSHOT_CHUNK_BYTES) + 1
      in entries + chunks * (5 + SNAPSHOT_HEAD_LEN))"

text \<open>The reference: the chunks as data.\<close>

function snapshot_plan :: "member list \<Rightarrow> usize \<Rightarrow> usize \<Rightarrow> nat \<Rightarrow> (bool \<times> member list) list" where
  "snapshot_plan members me mb start =
     (let stop = snapshot_cut members (clamp_entries me) mb start start SNAPSHOT_HEAD_LEN
      in if stop < length members
         then (True, slice_of members start stop) # snapshot_plan members me mb stop
         else [(False, slice_of members start stop)])"
  by pat_completeness auto
termination
proof (relation "measure (\<lambda>(members, me, mb, start). length members - start)", goal_cases)
  case 1
  show ?case by simp
next
  case (2 members me mb start stop)
  have "0 < clamp_entries me" by (simp add: clamp_entries_def)
  with 2 have "start < stop"
    using snapshot_cut_progress [of start members "clamp_entries me" mb SNAPSHOT_HEAD_LEN]
      snapshot_cut_ge [of start members "clamp_entries me" mb start SNAPSHOT_HEAD_LEN]
    by auto
  with 2 show ?case by auto
qed

declare snapshot_plan.simps [simp del]

section \<open>One cut\<close>

lemma slice_Suc:
  "a \<le> b \<Longrightarrow> b < length xs \<Longrightarrow> slice_of xs a (Suc b) = slice_of xs a b @ [xs ! b]"
  by (simp add: slice_of_def Suc_diff_le take_Suc_conv_app_nth)

lemma slice_self [simp]: "slice_of xs a a = []"
  by (simp add: slice_of_def)

lemma length_slice: "b \<le> length xs \<Longrightarrow> length (slice_of xs a b) = b - a"
  by (auto simp: slice_of_def)

lemma slice_append_drop: "a \<le> b \<Longrightarrow> slice_of xs a b @ drop b xs = drop a xs"
  by (metis add.commute append_take_drop_id drop_drop le_add_diff_inverse slice_of_def)

lemma entries_len_snoc: "entries_len (ms @ [m]) = entries_len ms + snapshot_entry_len m"
  by (simp add: entries_len_def)

lemma entries_len_append: "entries_len (ms @ ns) = entries_len ms + entries_len ns"
  by (simp add: entries_len_def)

text \<open>What the inner loop guarantees of the chunk \<open>slice_of ms start e'\<close>: within the entry limit;
  within the byte limit unless it is a single entry; and, if members remain, full: the entry
  limit is reached or the next entry would not fit.\<close>

definition cut_ok :: "member list \<Rightarrow> usize \<Rightarrow> usize \<Rightarrow> nat \<Rightarrow> nat \<Rightarrow> bool" where
  "cut_ok ms me mb start e \<longleftrightarrow> start \<le> e \<and> e \<le> length ms \<and> e - start \<le> me
     \<and> (e - start \<le> 1 \<or> SNAPSHOT_HEAD_LEN + entries_len (slice_of ms start e) \<le> mb)"

definition cut_full :: "member list \<Rightarrow> usize \<Rightarrow> usize \<Rightarrow> nat \<Rightarrow> nat \<Rightarrow> bool" where
  "cut_full ms me mb start e \<longleftrightarrow> e - start = me
     \<or> start < e \<and> mb < SNAPSHOT_HEAD_LEN + entries_len (slice_of ms start e) + snapshot_entry_len (ms ! e)"

lemma snapshot_cut_spec:
  assumes "cut_ok ms me mb start e" and "body = SNAPSHOT_HEAD_LEN + entries_len (slice_of ms start e)"
  shows "cut_ok ms me mb start (snapshot_cut ms me mb start e body)
    \<and> (snapshot_cut ms me mb start e body < length ms
        \<longrightarrow> cut_full ms me mb start (snapshot_cut ms me mb start e body))"
  using assms
proof (induction ms me mb start e body rule: snapshot_cut.induct)
  case (1 ms me mb start e body)
  let ?stop = "e > start \<and> body + snapshot_entry_len (ms ! e) > mb"
  show ?case
  proof (cases "e < length ms \<and> e - start < me")
    case False
    then have "snapshot_cut ms me mb start e body = e"
      by (auto simp: snapshot_cut.simps [of ms me mb start e body])
    then show ?thesis
      using "1.prems"(1) False by (auto simp: cut_ok_def cut_full_def)
  next
    case True
    then have step: "slice_of ms start (e + 1) = slice_of ms start e @ [ms ! e]"
      using slice_Suc [of start e ms] "1.prems"(1) by (simp add: cut_ok_def)
    show ?thesis
    proof (cases ?stop)
      case stop: True
      with True have "snapshot_cut ms me mb start e body = e"
        by (auto simp: snapshot_cut.simps [of ms me mb start e body])
      then show ?thesis
        using "1.prems" stop by (auto simp: cut_full_def)
    next
      case False
      have ok: "cut_ok ms me mb start (e + 1)"
        using False True "1.prems" step by (auto simp: cut_ok_def entries_len_snoc)
      have body: "body + snapshot_entry_len (ms ! e)
          = SNAPSHOT_HEAD_LEN + entries_len (slice_of ms start (e + 1))"
        using "1.prems"(2) by (simp only: step entries_len_snoc)
      have rec: "snapshot_cut ms me mb start e body
          = snapshot_cut ms me mb start (e + 1) (body + snapshot_entry_len (ms ! e))"
        using True False by (auto simp: snapshot_cut.simps [of ms me mb start e body] Let_def)
      show ?thesis
        unfolding rec by (rule "1.IH" [OF True refl False ok body])
    qed
  qed
qed

lemma snapshot_cut_start:
  fixes me mb
  assumes "start \<le> length ms"
  defines "e \<equiv> snapshot_cut ms me mb start start SNAPSHOT_HEAD_LEN"
  shows "cut_ok ms me mb start e" and "e < length ms \<Longrightarrow> cut_full ms me mb start e"
  using snapshot_cut_spec [of ms me mb start start SNAPSHOT_HEAD_LEN] assms
  by (auto simp: cut_ok_def entries_len_def)

section \<open>The whole plan\<close>

lemma encode_snapshot_plan:
  "encode_snapshot_from topic ms me mb start =
     map (\<lambda>(has_more, chunk). encode_snapshot_chunk topic has_more chunk) (snapshot_plan ms me mb start)"
proof (induction ms me mb start rule: snapshot_plan.induct)
  case (1 ms me mb start)
  then show ?case
    by (simp add: encode_snapshot_from.simps [of topic ms me mb start]
        snapshot_plan.simps [of ms me mb start] Let_def)
qed

lemma snapshot_plan_nonempty: "snapshot_plan ms me mb start \<noteq> []"
  by (subst snapshot_plan.simps) (simp add: Let_def)

lemma snapshot_plan_union:
  "start \<le> length ms \<Longrightarrow> concat (map snd (snapshot_plan ms me mb start)) = drop start ms"
proof (induction ms me mb start rule: snapshot_plan.induct)
  case (1 ms me mb start)
  let ?e = "snapshot_cut ms (clamp_entries me) mb start start SNAPSHOT_HEAD_LEN"
  have ok: "start \<le> ?e" "?e \<le> length ms"
    using snapshot_cut_start(1) [OF "1.prems"] by (auto simp: cut_ok_def)
  show ?case
  proof (cases "?e < length ms")
    case True
    with "1.IH" [OF refl True] slice_append_drop [OF ok(1)] show ?thesis
      by (simp add: snapshot_plan.simps [of ms me mb start] Let_def)
  next
    case False
    with ok slice_append_drop [OF ok(1), of ms] show ?thesis
      by (simp add: snapshot_plan.simps [of ms me mb start] Let_def)
  qed
qed

lemma snapshot_plan_more: "map fst (snapshot_plan ms me mb start) =
    replicate (length (snapshot_plan ms me mb start) - 1) True @ [False]"
proof (induction ms me mb start rule: snapshot_plan.induct)
  case (1 ms me mb start)
  let ?e = "snapshot_cut ms (clamp_entries me) mb start start SNAPSHOT_HEAD_LEN"
  show ?case
  proof (cases "?e < length ms")
    case True
    obtain n where n: "length (snapshot_plan ms me mb ?e) = Suc n"
      using snapshot_plan_nonempty by (cases "length (snapshot_plan ms me mb ?e)") auto
    with "1.IH" [OF refl True] True show ?thesis
      by (simp add: snapshot_plan.simps [of ms me mb start] Let_def)
  next
    case False
    then show ?thesis by (simp add: snapshot_plan.simps [of ms me mb start] Let_def)
  qed
qed

text \<open>Every chunk of a plan is a cut.\<close>

lemma snapshot_plan_cuts:
  assumes "start \<le> length ms" and "(has_more, chunk) \<in> set (snapshot_plan ms me mb start)"
  shows "\<exists>a e. chunk = slice_of ms a e \<and> cut_ok ms (clamp_entries me) mb a e
    \<and> (has_more \<longleftrightarrow> e < length ms) \<and> (has_more \<longrightarrow> cut_full ms (clamp_entries me) mb a e)"
  using assms
proof (induction ms me mb start rule: snapshot_plan.induct)
  case (1 ms me mb start)
  let ?e = "snapshot_cut ms (clamp_entries me) mb start start SNAPSHOT_HEAD_LEN"
  note cut = snapshot_cut_start [OF "1.prems"(1), of "clamp_entries me" mb]
  have le: "?e \<le> length ms" using cut(1) by (auto simp: cut_ok_def)
  show ?case
  proof (cases "?e < length ms")
    case True
    with "1.prems"(2) have "(has_more, chunk) = (True, slice_of ms start ?e)
        \<or> (has_more, chunk) \<in> set (snapshot_plan ms me mb ?e)"
      by (simp add: snapshot_plan.simps [of ms me mb start] Let_def)
    with "1.IH" [OF refl True le] cut True show ?thesis by blast
  next
    case False
    with "1.prems"(2) cut(1) show ?thesis
      by (auto simp: snapshot_plan.simps [of ms me mb start] Let_def)
  qed
qed

section \<open>Sizes\<close>

lemma length_encode_snapshot_chunk:
  assumes "wf_topic t" and "\<forall>m \<in> set ms. wf_member vk m"
  shows "length (encode_snapshot_chunk t has_more ms) = 5 + SNAPSHOT_HEAD_LEN + entries_len ms"
  using length_encode_members [OF assms(2)] assms(1)
  by (simp add: encode_snapshot_chunk_def encode_header wf_topic_def SNAPSHOT_HEAD_LEN_def)

lemma entries_len_concat: "entries_len (concat mss) = sum_list (map entries_len mss)"
  by (induction mss) (simp_all add: entries_len_def)

text \<open>The bytes a snapshot takes on the wire: its entries and one header per chunk.\<close>

lemma encode_snapshot_size:
  assumes "wf_topic t" and "\<forall>m \<in> set ms. wf_member vk m"
  shows "sum_list (map length (encode_snapshot t ms me mb))
    = entries_len ms + length (encode_snapshot t ms me mb) * (5 + SNAPSHOT_HEAD_LEN)"
proof -
  let ?plan = "snapshot_plan ms me mb 0"
  have union: "concat (map snd ?plan) = ms"
    using snapshot_plan_union [of 0 ms me mb] by simp
  have wf: "\<forall>c \<in> set ?plan. \<forall>m \<in> set (snd c). wf_member vk m"
  proof (intro ballI)
    fix c m
    assume "c \<in> set ?plan" and "m \<in> set (snd c)"
    then have "m \<in> set (concat (map snd ?plan))" by auto
    then show "wf_member vk m" using assms(2) unfolding union by blast
  qed
  have "sum_list (map (length \<circ> (\<lambda>(h, c). encode_snapshot_chunk t h c)) plan)
      = entries_len (concat (map snd plan)) + length plan * (5 + SNAPSHOT_HEAD_LEN)"
    if "\<forall>c \<in> set plan. \<forall>m \<in> set (snd c). wf_member vk m" for plan
    using that
    by (induction plan)
      (auto simp: entries_len_append length_encode_snapshot_chunk [OF assms(1)] entries_len_def)
  from this [OF wf] show ?thesis
    by (simp add: encode_snapshot_def encode_snapshot_plan union)
qed

lemma entries_len_le:
  "\<forall>m \<in> set ms. length (m_blob m) \<le> B \<Longrightarrow> entries_len ms \<le> length ms * (36 + B)"
  by (induction ms) (auto simp: entries_len_def snapshot_entry_len_def)

text \<open>With the production limits and blobs within \<open>MAX_ANNOUNCE_LEN\<close>, every chunk but the last
  has at least 247 entries and every chunk obeys both limits.\<close>

lemma default_cut:
  assumes "\<forall>m \<in> set ms. length (m_blob m) \<le> MAX_ANNOUNCE_LEN"
    and ok: "cut_ok ms 256 (256 * 1024) a e"
  shows "SNAPSHOT_HEAD_LEN + entries_len (slice_of ms a e) \<le> 256 * 1024"
    and "e < length ms \<Longrightarrow> cut_full ms 256 (256 * 1024) a e \<Longrightarrow> 247 \<le> e - a"
proof -
  have le: "e \<le> length ms" using ok by (simp add: cut_ok_def)
  have "\<forall>m \<in> set (slice_of ms a e). length (m_blob m) \<le> MAX_ANNOUNCE_LEN"
    using assms(1) by (auto simp: slice_of_def dest: in_set_takeD in_set_dropD)
  from entries_len_le [OF this] have size: "entries_len (slice_of ms a e) \<le> (e - a) * 1060"
    by (simp add: length_slice [OF le] MAX_ANNOUNCE_LEN_def)
  show "SNAPSHOT_HEAD_LEN + entries_len (slice_of ms a e) \<le> 256 * 1024"
    using ok size by (auto simp: cut_ok_def SNAPSHOT_HEAD_LEN_def)
  assume "e < length ms" and full: "cut_full ms 256 (256 * 1024) a e"
  then have "snapshot_entry_len (ms ! e) \<le> 1060"
    using assms(1) by (simp add: snapshot_entry_len_def MAX_ANNOUNCE_LEN_def)
  then show "247 \<le> e - a"
    using full size by (auto simp: cut_full_def SNAPSHOT_HEAD_LEN_def)
qed

lemma default_plan_length:
  assumes "\<forall>m \<in> set ms. length (m_blob m) \<le> MAX_ANNOUNCE_LEN" and "start \<le> length ms"
  defines "n \<equiv> length (snapshot_plan ms 256 (256 * 1024) start)"
  shows "length ms - start \<le> n * 256 \<and> entries_len (drop start ms) \<le> n * (256 * 1024)
    \<and> (n - 1) * 247 \<le> length ms - start \<and> 1 \<le> n"
  using assms(2) unfolding n_def
proof (induction "length ms - start" arbitrary: start rule: less_induct)
  case less
  let ?mb = "256 * 1024 :: nat"
  have clamp: "clamp_entries 256 = 256" by (simp add: clamp_entries_def)
  let ?e = "snapshot_cut ms 256 ?mb start start SNAPSHOT_HEAD_LEN"
  note cut = snapshot_cut_start [OF less.prems, of 256 ?mb]
  note ok = cut(1) [unfolded cut_ok_def]
  note sizes = default_cut [OF assms(1) cut(1)]
  have drop: "entries_len (drop start ms) = entries_len (slice_of ms start ?e) + entries_len (drop ?e ms)"
    using slice_append_drop [of start ?e ms] ok by (metis entries_len_append)
  show ?case
  proof (cases "?e < length ms")
    case False
    have n: "length (snapshot_plan ms 256 ?mb start) = 1"
      using False by (subst snapshot_plan.simps) (simp add: Let_def clamp)
    have "?e = length ms" and "entries_len (drop ?e ms) = 0"
      using False ok by (simp_all add: entries_len_def)
    then have "length ms - start \<le> 256" and "entries_len (drop start ms) \<le> ?mb"
      using ok sizes(1) drop by simp_all
    then show ?thesis unfolding n by simp
  next
    case True
    have gap: "247 \<le> ?e - start" using sizes(2) [OF True cut(2) [OF True]] .
    let ?n = "length (snapshot_plan ms 256 ?mb ?e)"
    have IH: "length ms - ?e \<le> ?n * 256 \<and> entries_len (drop ?e ms) \<le> ?n * ?mb
        \<and> (?n - 1) * 247 \<le> length ms - ?e \<and> 1 \<le> ?n"
      using less.hyps [of ?e] True gap ok by simp
    have n: "length (snapshot_plan ms 256 ?mb start) = Suc ?n"
      using True by (subst snapshot_plan.simps) (simp add: Let_def clamp)
    show ?thesis
      unfolding n using IH gap ok drop sizes(1) True by auto
  qed
qed

section \<open>Properties\<close>

lemma chunk_wf:
  assumes "wf_topic t" and "\<forall>m \<in> set ms. wf_member vk m \<and> length (m_blob m) \<le> MAX_ANNOUNCE_LEN"
    and "mb < MAX_FRAME_LEN" and "(h, c) \<in> set (snapshot_plan ms me mb 0)"
  shows "wf_server_frame vk (Snapshot t h c) \<and> length c \<le> clamp_entries me
    \<and> (length c \<le> 1 \<or> SNAPSHOT_HEAD_LEN + entries_len c \<le> mb)"
proof -
  obtain a e where c: "c = slice_of ms a e" and ok: "cut_ok ms (clamp_entries me) mb a e"
    using snapshot_plan_cuts [OF _ assms(4)] by auto
  have len: "length c = e - a" using ok by (simp add: c cut_ok_def length_slice)
  have sub: "set c \<subseteq> set ms"
    by (auto simp: c slice_of_def dest: in_set_takeD in_set_dropD)
  have "length c \<le> 1 \<Longrightarrow> entries_len c \<le> 1060"
    using entries_len_le [of c MAX_ANNOUNCE_LEN] assms(2) sub
    by (cases c) (auto simp: MAX_ANNOUNCE_LEN_def)
  moreover have "length c \<le> 65535" using ok len by (simp add: cut_ok_def clamp_entries_def)
  ultimately show ?thesis
    using ok len sub assms(1-3) by (auto simp: c cut_ok_def SNAPSHOT_HEAD_LEN_def MAX_FRAME_LEN_value)
qed

text \<open>C36: a snapshot is chunked as documented. The chunks are well-formed SNAPSHOT frames for
  the topic, at most the entry limit each and within the byte limit unless a single entry is larger;
  MORE is set on all of them but the last; an empty room is one empty chunk; and the union of the
  chunks, in order, is the room's members.\<close>

theorem encode_snapshot_chunks:
  assumes "wf_topic t" and "\<forall>m \<in> set ms. wf_member vk m \<and> length (m_blob m) \<le> MAX_ANNOUNCE_LEN"
    and "mb < MAX_FRAME_LEN"
  shows "\<exists>plan. encode_snapshot t ms me mb = map (\<lambda>(h, c). server_encode (Snapshot t h c)) plan
    \<and> (\<forall>(h, c) \<in> set plan. wf_server_frame vk (Snapshot t h c) \<and> length c \<le> clamp_entries me
         \<and> (length c \<le> 1 \<or> SNAPSHOT_HEAD_LEN + entries_len c \<le> mb))
    \<and> map fst plan = replicate (length plan - 1) True @ [False]
    \<and> concat (map snd plan) = ms"
proof (intro exI conjI)
  let ?plan = "snapshot_plan ms me mb 0"
  show wf: "\<forall>(h, c) \<in> set ?plan. wf_server_frame vk (Snapshot t h c) \<and> length c \<le> clamp_entries me
         \<and> (length c \<le> 1 \<or> SNAPSHOT_HEAD_LEN + entries_len c \<le> mb)"
    using chunk_wf [OF assms] by blast
  have "encode_snapshot t ms me mb = map (\<lambda>(h, c). encode_snapshot_chunk t h c) ?plan"
    by (simp add: encode_snapshot_def encode_snapshot_plan)
  also have "\<dots> = map (\<lambda>(h, c). server_encode (Snapshot t h c)) ?plan"
    using wf by (intro map_cong) auto
  finally show "encode_snapshot t ms me mb = map (\<lambda>(h, c). server_encode (Snapshot t h c)) ?plan" .
  show "map fst ?plan = replicate (length ?plan - 1) True @ [False]" by (rule snapshot_plan_more)
  show "concat (map snd ?plan) = ms" using snapshot_plan_union [of 0 ms me mb] by simp
qed

theorem encode_snapshot_chunks_witness:
  "\<exists>plan. encode_snapshot (Topic (replicate 32 7))
          [\<lparr>m_id = EndpointId (replicate 32 3), m_blob = [1, 2]\<rparr>,
           \<lparr>m_id = EndpointId (replicate 32 4), m_blob = []\<rparr>] 1 1000
        = map (\<lambda>(h, c). server_encode (Snapshot (Topic (replicate 32 7)) h c)) plan
    \<and> concat (map snd plan) = [\<lparr>m_id = EndpointId (replicate 32 3), m_blob = [1, 2]\<rparr>,
           \<lparr>m_id = EndpointId (replicate 32 4), m_blob = []\<rparr>]"
  using encode_snapshot_chunks [of "Topic (replicate 32 7)"
      "[\<lparr>m_id = EndpointId (replicate 32 3), m_blob = [1, 2]\<rparr>,
        \<lparr>m_id = EndpointId (replicate 32 4), m_blob = []\<rparr>]" "\<lambda>_. True" 1000 1]
  by (auto simp: wf_topic_def wf_member_def wf_id_def MAX_ANNOUNCE_LEN_def MAX_FRAME_LEN_value)

text \<open>C37: \<open>snapshot_wire_len\<close>, which the queue accounting charges for a snapshot before it is
  encoded, is off by at most one chunk header (40 bytes) from what the writer then sends, for the
  production chunk limits and a room of at most 1024 members with blobs within the announce
  limit.\<close>

theorem snapshot_wire_len_accurate:
  assumes "wf_topic t" and "\<forall>m \<in> set ms. wf_member vk m \<and> length (m_blob m) \<le> MAX_ANNOUNCE_LEN"
    and "length ms \<le> MAX_MEMBERS_PER_TOPIC"
  shows "let actual = sum_list (map length (encode_snapshot t ms SNAPSHOT_CHUNK_ENTRIES SNAPSHOT_CHUNK_BYTES));
             estimate = snapshot_wire_len ms SNAPSHOT_CHUNK_ENTRIES
         in actual \<le> estimate + (5 + SNAPSHOT_HEAD_LEN) \<and> estimate \<le> actual + (5 + SNAPSHOT_HEAD_LEN)"
proof -
  let ?n = "length (snapshot_plan ms 256 (256 * 1024) 0)"
  let ?c = "max (length ms div 256) (entries_len ms div (256 * 1024)) + 1"
  have blobs: "\<forall>m \<in> set ms. length (m_blob m) \<le> MAX_ANNOUNCE_LEN" and wf: "\<forall>m \<in> set ms. wf_member vk m"
    using assms(2) by auto
  have n: "length ms \<le> ?n * 256" "entries_len ms \<le> ?n * (256 * 1024)" "(?n - 1) * 247 \<le> length ms" "1 \<le> ?n"
    using default_plan_length [OF blobs, of 0] by simp_all
  have "length ms div 256 \<le> ?n" and "entries_len ms div (256 * 1024) \<le> ?n"
    using n(1,2) by (metis div_le_mono div_mult_self_is_m zero_less_numeral,
        metis div_le_mono div_mult_self_is_m mult_pos_pos zero_less_numeral)
  then have upper: "?c \<le> ?n + 1" by simp
  have "?n \<le> length ms div 256 + 2"
    using n(3,4) assms(3) by (simp add: MAX_MEMBERS_PER_TOPIC_def)
  then have lower: "?n \<le> ?c + 1" by simp
  have "sum_list (map length (encode_snapshot t ms 256 (256 * 1024))) = entries_len ms + ?n * 40"
    using encode_snapshot_size [OF assms(1) wf, of 256 "256 * 1024"]
    by (simp add: encode_snapshot_def encode_snapshot_plan SNAPSHOT_HEAD_LEN_def)
  moreover have "snapshot_wire_len ms 256 = entries_len ms + ?c * 40"
    by (simp add: snapshot_wire_len_def entries_len_def SNAPSHOT_CHUNK_BYTES_def
        SNAPSHOT_HEAD_LEN_def Let_def)
  ultimately show ?thesis
    using upper lower
    by (simp add: SNAPSHOT_CHUNK_ENTRIES_def SNAPSHOT_CHUNK_BYTES_def SNAPSHOT_HEAD_LEN_def Let_def)
qed

theorem snapshot_wire_len_accurate_witness:
  "sum_list (map length (encode_snapshot (Topic (replicate 32 7))
       [\<lparr>m_id = EndpointId (replicate 32 3), m_blob = [1, 2]\<rparr>] SNAPSHOT_CHUNK_ENTRIES SNAPSHOT_CHUNK_BYTES))
     \<le> snapshot_wire_len [\<lparr>m_id = EndpointId (replicate 32 3), m_blob = [1, 2]\<rparr>] SNAPSHOT_CHUNK_ENTRIES
       + (5 + SNAPSHOT_HEAD_LEN)"
  using snapshot_wire_len_accurate [of "Topic (replicate 32 7)"
      "[\<lparr>m_id = EndpointId (replicate 32 3), m_blob = [1, 2]\<rparr>]" "\<lambda>_. True"]
  by (simp add: wf_topic_def wf_member_def wf_id_def MAX_ANNOUNCE_LEN_def MAX_MEMBERS_PER_TOPIC_def Let_def)

section \<open>Termination\<close>

lemma encode_snapshot_from_length:
  "0 < length (encode_snapshot_from t ms me mb start)
   \<and> length (encode_snapshot_from t ms me mb start) \<le> max 1 (length ms - start)"
proof (induction t ms me mb start rule: encode_snapshot_from.induct)
  case (1 t ms me mb start)
  let ?stop = "snapshot_cut ms (clamp_entries me) mb start start SNAPSHOT_HEAD_LEN"
  show ?case
  proof (cases "?stop < length ms")
    case True
    have "start < ?stop"
      using snapshot_cut_progress [of start ms "clamp_entries me" mb SNAPSHOT_HEAD_LEN] True
        snapshot_cut_ge [of start ms "clamp_entries me" mb start SNAPSHOT_HEAD_LEN]
      by (simp add: clamp_entries_def)
    moreover have "length (encode_snapshot_from t ms me mb ?stop) \<le> length ms - ?stop"
      using "1.IH" [OF refl refl refl] True by (auto simp: max_def split: if_splits)
    ultimately show ?thesis using True by (simp add: encode_snapshot_from.simps [of t ms me mb start] Let_def)
  next
    case False
    then show ?thesis by (simp add: encode_snapshot_from.simps [of t ms me mb start] Let_def)
  qed
qed

text \<open>C40: the chunking loop ends, whatever the limits: even with room for no entry and no byte every chunk but
  a lone empty one takes at least one member, so there are never more chunks than members (and never
  none).\<close>

theorem encode_snapshot_terminates:
  "encode_snapshot t ms max_entries max_body \<noteq> [] \<and> length (encode_snapshot t ms max_entries max_body) \<le> max 1 (length ms)"
  using encode_snapshot_from_length [of t ms max_entries max_body 0] by (auto simp: encode_snapshot_def)

end
