(* ===== verification/F64.thy ===== *)
theory F64
  imports Complex_Main "HOL-Library.Log_Nat"
begin

text \<open>
  Rust's \<open>f64\<close>, as far as the token buckets use it: IEEE 754 binary64 values and operations
  with the exact result rounded to nearest, ties to even. A value is a rational number, an
  infinity or NaN (the sign of zero plays no role in these operations).

  What the buckets rely on is the locale \<open>rounding\<close>: rounding is monotone and changes no
  integer up to \<open>2 ^ 53\<close>. It is interpreted on \<open>round64\<close>, the rounding defined here.
\<close>

section \<open>Rounding to 53 bits\<close>

text \<open>The exponent of a positive rational: \<open>2 powi ilog2 x \<le> x < 2 powi (ilog2 x + 1)\<close>.\<close>

definition ilog2 :: "rat \<Rightarrow> int" where
  "ilog2 x =
     (let (p, q) = quotient_of x; k = bitlen p - bitlen q
      in if 2 powi k \<le> x then k else k - 1)"

definition round_half_even :: "rat \<Rightarrow> int" where
  "round_half_even y =
     (let f = \<lfloor>y\<rfloor>; d = y - of_int f
      in if d < 1 / 2 then f else if d > 1 / 2 then f + 1 else if even f then f else f + 1)"

text \<open>The exponent of the unit in the last place; \<open>-1074\<close> is the smallest one.\<close>

definition ulp_exp :: "rat \<Rightarrow> int" where
  "ulp_exp x = max (ilog2 x - 52) (-1074)"

definition round_pos :: "rat \<Rightarrow> rat" where
  "round_pos x = of_int (round_half_even (x / 2 powi ulp_exp x)) * 2 powi ulp_exp x"

definition round64 :: "rat \<Rightarrow> rat" where
  "round64 x = (if x = 0 then 0 else if x > 0 then round_pos x else - round_pos (- x))"

section \<open>Values and operations\<close>

datatype f64 = NaN | PInf | NInf | Fin rat

definition f64_round :: "rat \<Rightarrow> f64" where
  "f64_round x =
     (let r = round64 x
      in if r \<ge> 2 ^ 1024 then PInf else if r \<le> - (2 ^ 1024) then NInf else Fin r)"

fun f64_neg :: "f64 \<Rightarrow> f64" where
  "f64_neg NaN = NaN"
| "f64_neg PInf = NInf"
| "f64_neg NInf = PInf"
| "f64_neg (Fin a) = Fin (- a)"

fun f64_add :: "f64 \<Rightarrow> f64 \<Rightarrow> f64" where
  "f64_add (Fin a) (Fin b) = f64_round (a + b)"
| "f64_add NaN b = NaN"
| "f64_add a NaN = NaN"
| "f64_add PInf NInf = NaN"
| "f64_add NInf PInf = NaN"
| "f64_add PInf b = PInf"
| "f64_add a PInf = PInf"
| "f64_add NInf b = NInf"
| "f64_add a NInf = NInf"

definition f64_sub :: "f64 \<Rightarrow> f64 \<Rightarrow> f64" where
  "f64_sub a b = f64_add a (f64_neg b)"

text \<open>An infinity times a finite value: NaN at zero, else an infinity of the product's sign.\<close>

definition inf_times :: "bool \<Rightarrow> rat \<Rightarrow> f64" where
  "inf_times pos a = (if a = 0 then NaN else if (a > 0) = pos then PInf else NInf)"

fun f64_mul :: "f64 \<Rightarrow> f64 \<Rightarrow> f64" where
  "f64_mul (Fin a) (Fin b) = f64_round (a * b)"
| "f64_mul NaN b = NaN"
| "f64_mul a NaN = NaN"
| "f64_mul PInf (Fin b) = inf_times True b"
| "f64_mul NInf (Fin b) = inf_times False b"
| "f64_mul (Fin a) PInf = inf_times True a"
| "f64_mul (Fin a) NInf = inf_times False a"
| "f64_mul PInf PInf = PInf"
| "f64_mul PInf NInf = NInf"
| "f64_mul NInf PInf = NInf"
| "f64_mul NInf NInf = PInf"

fun f64_less :: "f64 \<Rightarrow> f64 \<Rightarrow> bool" where
  "f64_less (Fin a) (Fin b) = (a < b)"
| "f64_less NaN b = False"
| "f64_less a NaN = False"
| "f64_less a NInf = False"
| "f64_less NInf b = True"
| "f64_less PInf b = False"
| "f64_less a PInf = True"

text \<open>\<open>f64::min\<close>: a NaN gives way to the other operand.\<close>

definition f64_min :: "f64 \<Rightarrow> f64 \<Rightarrow> f64" where
  "f64_min a b = (if a = NaN then b else if b = NaN then a else if f64_less b a then b else a)"

definition f64_is_infinite :: "f64 \<Rightarrow> bool" where
  "f64_is_infinite a \<longleftrightarrow> a = PInf \<or> a = NInf"

text \<open>\<open>n as f64\<close>.\<close>

definition f64_of_nat :: "nat \<Rightarrow> f64" where
  "f64_of_nat n = f64_round (of_nat n)"

text \<open>\<open>Duration::as_secs_f64\<close> of a number of nanoseconds.\<close>

definition as_secs_f64 :: "nat \<Rightarrow> f64" where
  "as_secs_f64 ns =
     f64_add (f64_of_nat (ns div 10 ^ 9)) (f64_round (round64 (of_nat (ns mod 10 ^ 9)) / 10 ^ 9))"

section \<open>The exponent\<close>

lemma two_powi_pos [simp]: "0 < (2 :: rat) powi k"
  by (simp add: zero_less_power_int)

lemma two_powi_add: "(2 :: rat) powi (m + n) = 2 powi m * 2 powi n"
  by (simp add: power_int_add)

lemma ilog2_bounds:
  assumes "0 < x"
  shows "2 powi ilog2 x \<le> x \<and> x < 2 powi (ilog2 x + 1)"
proof -
  obtain p q where pq: "quotient_of x = (p, q)" by fastforce
  have q: "0 < q" using quotient_of_denom_pos [OF pq] .
  have x: "x = of_int p / of_int q" using quotient_of_div [OF pq] .
  have p: "0 < p" using assms q by (simp add: x zero_less_divide_iff)
  obtain a b where len: "bitlen p = int a + 1" "bitlen q = int b + 1"
    using p q bitlen_eq_zero_iff [of p] bitlen_eq_zero_iff [of q] bitlen_nonneg [of p]
      bitlen_nonneg [of q] by (metis add.commute add_0 int_one_le_iff_zero_less le_less not_less
        zle_iff_zadd)
  have pb: "2 ^ a \<le> p" "p < 2 ^ (a + 1)" and qb: "2 ^ b \<le> q" "q < 2 ^ (b + 1)"
    using bitlen_bounds [OF p] bitlen_bounds [OF q] by (simp_all add: len nat_add_distrib)
  have pr: "(2 :: rat) ^ a \<le> of_int p" "of_int p < (2 :: rat) ^ (a + 1)"
    and qr: "(2 :: rat) ^ b \<le> of_int q" "of_int q < (2 :: rat) ^ (b + 1)"
    using pb qb by (metis of_int_le_iff of_int_less_iff of_int_power of_int_numeral)+
  let ?k = "bitlen p - bitlen q"
  have k: "(2 :: rat) powi (int m - int n) = 2 ^ m / 2 ^ n" for m n
    by (simp add: power_int_diff)
  have "x < 2 ^ (a + 1) / 2 ^ b"
    unfolding x using pr qr by (intro frac_less) (auto intro: less_imp_le order_trans [of _ "2 ^ a"])
  moreover have "?k + 1 = int (a + 1) - int b" by (simp add: len)
  ultimately have up: "x < 2 powi (?k + 1)" by (simp only: k)
  have "2 ^ a / 2 ^ (b + 1) \<le> x"
    unfolding x using pr qr p q by (intro frac_le) (simp_all add: less_imp_le)
  moreover have "?k - 1 = int a - int (b + 1)" by (simp add: len)
  ultimately have lo: "2 powi (?k - 1) \<le> x" by (simp only: k)
  show ?thesis
    using up lo by (auto simp: ilog2_def pq Let_def)
qed

lemma ilog2_mono:
  assumes "0 < x" and "x \<le> y"
  shows "ilog2 x \<le> ilog2 y"
proof -
  have "0 < y" using assms by simp
  have "(2 :: rat) powi ilog2 x < 2 powi (ilog2 y + 1)"
    using ilog2_bounds [OF assms(1)] ilog2_bounds [OF \<open>0 < y\<close>] assms(2) by linarith
  then have "ilog2 x < ilog2 y + 1"
    by (metis not_less power_int_increasing one_le_numeral)
  then show ?thesis by simp
qed

lemma ilog2_eqI:
  assumes "2 powi k \<le> x" and "x < 2 powi (k + 1)"
  shows "ilog2 x = k"
proof -
  have x: "0 < x" using two_powi_pos [of k] assms(1) by linarith
  have "(2 :: rat) powi ilog2 x < 2 powi (k + 1)" "(2 :: rat) powi k < 2 powi (ilog2 x + 1)"
    using ilog2_bounds [OF x] assms by linarith+
  then have "ilog2 x < k + 1" "k < ilog2 x + 1"
    by (metis not_less power_int_increasing one_le_numeral)+
  then show ?thesis by simp
qed

section \<open>Rounding is monotone and exact where it can be\<close>

lemma round_half_even_int [simp]: "round_half_even (of_int n) = n"
  by (simp add: round_half_even_def)

lemma round_half_even_cases: "round_half_even y = \<lfloor>y\<rfloor> \<or> round_half_even y = \<lfloor>y\<rfloor> + 1"
  by (simp add: round_half_even_def Let_def)

lemma round_half_even_mono: "x \<le> y \<Longrightarrow> round_half_even x \<le> round_half_even y"
proof -
  assume le: "x \<le> y"
  then have fl: "\<lfloor>x\<rfloor> \<le> \<lfloor>y\<rfloor>" by (rule floor_mono)
  show ?thesis
  proof (cases "\<lfloor>x\<rfloor> = \<lfloor>y\<rfloor>")
    case True
    with le show ?thesis by (auto simp: round_half_even_def Let_def)
  next
    case False
    with fl round_half_even_cases [of x] round_half_even_cases [of y] show ?thesis by auto
  qed
qed

lemma round_half_even_le_int: "y \<le> of_int n \<Longrightarrow> round_half_even y \<le> n"
  using round_half_even_mono [of y "of_int n"] by simp

lemma round_half_even_ge_int: "of_int n \<le> y \<Longrightarrow> n \<le> round_half_even y"
  using round_half_even_mono [of "of_int n" y] by simp

text \<open>A multiple of the unit in the last place is its own rounding.\<close>

lemma round_pos_exact: "x = of_int n * 2 powi ulp_exp x \<Longrightarrow> round_pos x = x"
proof -
  assume x: "x = of_int n * 2 powi ulp_exp x"
  then have "x / 2 powi ulp_exp x = of_int n"
    by (simp add: divide_eq_eq less_imp_neq [OF two_powi_pos, THEN not_sym])
  then show ?thesis using x by (simp add: round_pos_def)
qed

lemma round_pos_upper:
  assumes "x \<le> of_int n * 2 powi ulp_exp x"
  shows "round_pos x \<le> of_int n * 2 powi ulp_exp x"
proof -
  have "round_half_even (x / 2 powi ulp_exp x) \<le> n"
    using assms by (intro round_half_even_le_int) (simp add: divide_le_eq)
  then show ?thesis
    by (simp add: round_pos_def mult_right_mono less_imp_le)
qed

lemma round_pos_lower:
  assumes "of_int n * 2 powi ulp_exp x \<le> x"
  shows "of_int n * 2 powi ulp_exp x \<le> round_pos x"
proof -
  have "n \<le> round_half_even (x / 2 powi ulp_exp x)"
    using assms by (intro round_half_even_ge_int) (simp add: le_divide_eq)
  then show ?thesis
    by (simp add: round_pos_def mult_right_mono less_imp_le)
qed

lemma round_pos_nonneg: "0 \<le> x \<Longrightarrow> 0 \<le> round_pos x"
  using round_pos_lower [of 0 x] by simp

text \<open>A power of two at least one unit is a multiple of the unit.\<close>

lemma powi_as_multiple: "u \<le> k \<Longrightarrow> (2 :: rat) powi k = of_int (2 ^ nat (k - u)) * 2 powi u"
proof -
  assume "u \<le> k"
  then have "(2 :: rat) powi k = 2 powi (int (nat (k - u)) + u)" by simp
  then show ?thesis by (simp only: two_powi_add power_int_of_nat of_int_power of_int_numeral)
qed

lemma round_pos_mono:
  assumes "0 < x" and "x \<le> y"
  shows "round_pos x \<le> round_pos y"
proof (cases "ulp_exp x = ulp_exp y")
  case True
  have "round_half_even (x / 2 powi ulp_exp y) \<le> round_half_even (y / 2 powi ulp_exp y)"
    using assms(2) by (intro round_half_even_mono) (simp add: divide_right_mono less_imp_le)
  then show ?thesis
    using True by (simp add: round_pos_def mult_right_mono less_imp_le)
next
  case False
  have y: "0 < y" using assms by simp
  have "ilog2 x \<le> ilog2 y" using assms by (rule ilog2_mono)
  with False have lt: "ilog2 x < ilog2 y" and uy: "ulp_exp y = ilog2 y - 52"
    and ux: "ulp_exp x \<le> ilog2 y"
    by (auto simp: ulp_exp_def max_def split: if_splits)
  have "x \<le> 2 powi ilog2 y"
  proof -
    have "(2 :: rat) powi (ilog2 x + 1) \<le> 2 powi ilog2 y"
      using lt by (intro power_int_increasing) simp_all
    with ilog2_bounds [OF assms(1)] show ?thesis by linarith
  qed
  then have "round_pos x \<le> 2 powi ilog2 y"
    using round_pos_upper powi_as_multiple [OF ux] by metis
  also have "2 powi ilog2 y \<le> round_pos y"
  proof -
    have "ulp_exp y \<le> ilog2 y" by (simp add: uy)
    from powi_as_multiple [OF this] show ?thesis
      using round_pos_lower [of "2 ^ nat (ilog2 y - ulp_exp y)" y] ilog2_bounds [OF y] by simp
  qed
  finally show ?thesis .
qed

lemma round64_mono: "x \<le> y \<Longrightarrow> round64 x \<le> round64 y"
proof -
  assume le: "x \<le> y"
  consider "0 < x" | "x \<le> 0" "0 \<le> y" | "y < 0" by linarith
  then show ?thesis
  proof cases
    case 1
    with le round_pos_mono [of x y] show ?thesis by (simp add: round64_def)
  next
    case 2
    have "round64 x \<le> 0" using 2 round_pos_nonneg [of "- x"] by (simp add: round64_def)
    moreover have "0 \<le> round64 y" using 2 round_pos_nonneg [of y] by (simp add: round64_def)
    ultimately show ?thesis by simp
  next
    case 3
    with le round_pos_mono [of "- y" "- x"] show ?thesis by (simp add: round64_def)
  qed
qed

lemma round64_nat:
  assumes "n \<le> 2 ^ 53"
  shows "round64 (of_nat n) = of_nat n"
proof (cases "n = 0")
  case False
  let ?x = "of_nat n :: rat"
  have pos: "0 < ?x" using False by simp
  have "?x \<le> 2 ^ 53" using assms by (metis of_nat_le_iff of_nat_numeral of_nat_power)
  then have le: "ilog2 ?x \<le> 53"
    using ilog2_mono [OF pos, of "2 ^ 53"] ilog2_eqI [of 53 "2 ^ 53"] by simp
  have ge: "0 \<le> ilog2 ?x"
  proof -
    have "(1 :: rat) \<le> ?x" using False by simp
    then show ?thesis using ilog2_mono [of 1 ?x] ilog2_eqI [of 0 1] by simp
  qed
  have "\<exists>m. ?x = of_int m * 2 powi ulp_exp ?x"
  proof (cases "ulp_exp ?x \<le> 0")
    case True
    have "1 = of_int (2 ^ nat (- ulp_exp ?x)) * (2 :: rat) powi ulp_exp ?x"
      using powi_as_multiple [OF True] by simp
    then have "?x = of_int (int n * 2 ^ nat (- ulp_exp ?x)) * 2 powi ulp_exp ?x"
      by (metis mult.assoc mult.right_neutral of_int_mult of_int_of_nat_eq)
    then show ?thesis by blast
  next
    case False
    then have e: "ilog2 ?x = 53" using le by (auto simp: ulp_exp_def)
    have "(2 :: rat) ^ 53 \<le> ?x" using ilog2_bounds [OF pos] e by simp
    then have "2 ^ 53 \<le> n" by (metis of_nat_le_iff of_nat_numeral of_nat_power)
    with assms have "n = 2 ^ 53" by simp
    moreover have "ulp_exp ?x = 1" using e by (simp add: ulp_exp_def)
    ultimately have "?x = of_int (2 ^ 52) * 2 powi ulp_exp ?x" by simp
    then show ?thesis by blast
  qed
  then show ?thesis
    using round_pos_exact pos by (auto simp: round64_def)
qed (simp add: round64_def)

section \<open>The interface\<close>

text \<open>What clients of the arithmetic rely on.\<close>

locale rounding =
  fixes rnd :: "rat \<Rightarrow> rat"
  assumes rnd_mono: "x \<le> y \<Longrightarrow> rnd x \<le> rnd y"
    and rnd_nat: "n \<le> 2 ^ 53 \<Longrightarrow> rnd (of_nat n) = of_nat n"
    and rnd_neg: "rnd (- x) = - rnd x"
begin

lemma rnd_zero [simp]: "rnd 0 = 0"
  using rnd_nat [of 0] by simp

lemma rnd_le_nat: "x \<le> of_nat n \<Longrightarrow> n \<le> 2 ^ 53 \<Longrightarrow> rnd x \<le> of_nat n"
  using rnd_mono [of x "of_nat n"] rnd_nat [of n] by simp

lemma rnd_nonneg: "0 \<le> x \<Longrightarrow> 0 \<le> rnd x"
  using rnd_mono [of 0 x] by simp

lemma rnd_ge_neg_nat: "- of_nat n \<le> x \<Longrightarrow> n \<le> 2 ^ 53 \<Longrightarrow> - of_nat n \<le> rnd x"
  using rnd_mono [of "- of_nat n" x] rnd_nat [of n] rnd_neg [of "of_nat n"] by simp

lemma rnd_int: "\<bar>i\<bar> \<le> 2 ^ 53 \<Longrightarrow> rnd (of_int i) = of_int i"
proof (cases "0 \<le> i")
  case True
  assume "\<bar>i\<bar> \<le> 2 ^ 53"
  with True have "nat i \<le> 2 ^ 53" by (simp add: nat_le_iff)
  from rnd_nat [OF this] True show ?thesis by simp
next
  case False
  assume "\<bar>i\<bar> \<le> 2 ^ 53"
  with False have "nat (- i) \<le> 2 ^ 53" by (simp add: nat_le_iff)
  from rnd_nat [OF this] rnd_neg [of "of_int (- i)"] False show ?thesis by simp
qed

end

lemma round64_neg: "round64 (- x) = - round64 x"
  by (auto simp: round64_def)

interpretation ieee: rounding round64
  by unfold_locales (simp_all add: round64_mono round64_nat round64_neg)

end
