(* ===== verification/Bucket.thy ===== *)
theory Bucket
  imports SFU_Prelude F64
begin

text \<open>
  The token buckets of \<open>src/src/server.rs\<close>: \<open>Rate\<close>, \<open>Bucket\<close> and \<open>refill\<close>, over the binary64
  arithmetic of F64. \<open>Instant::now()\<close> is an argument (nanoseconds); \<open>Instant::duration_since\<close>
  saturates at zero, which is subtraction on the natural numbers.

  The lemmas keep the levels within the bursts through rounding, infinite rates and \<open>0 * inf\<close>;
  the properties bound what a bucket lets through at one instant, say that an oversized frame
  needs a full bucket and puts it in debt, and that an idle bucket becomes full again.
\<close>

section \<open>Rates and buckets\<close>

record rate =
  bytes_per_second :: f64
  burst_bytes :: f64
  frames_per_second :: f64
  burst_frames :: f64

definition rate_frames :: "f64 \<Rightarrow> f64 \<Rightarrow> rate" where
  "rate_frames per_second burst =
     \<lparr>bytes_per_second = PInf, burst_bytes = PInf,
      frames_per_second = per_second, burst_frames = burst\<rparr>"

record bucket =
  bk_rate :: rate
  bk_bytes :: f64
  bk_frames :: f64
  bk_last :: nat

definition bucket_new :: "rate \<Rightarrow> nat \<Rightarrow> bucket" where
  "bucket_new r now =
     \<lparr>bk_rate = r, bk_bytes = burst_bytes r, bk_frames = burst_frames r, bk_last = now\<rparr>"

definition refill :: "f64 \<Rightarrow> f64 \<Rightarrow> f64 \<Rightarrow> f64 \<Rightarrow> f64" where
  "refill level per_second burst elapsed =
     (if f64_is_infinite burst then PInf
      else f64_min (f64_add level (f64_mul elapsed per_second)) burst)"

text \<open>The first half of \<open>try_take\<close>, up to the comparison.\<close>

definition refilled :: "nat \<Rightarrow> bucket \<Rightarrow> bucket" where
  "refilled now b =
     (let elapsed = as_secs_f64 (now - bk_last b); r = bk_rate b
      in b\<lparr>bk_last := now,
           bk_bytes := refill (bk_bytes b) (bytes_per_second r) (burst_bytes r) elapsed,
           bk_frames := refill (bk_frames b) (frames_per_second r) (burst_frames r) elapsed\<rparr>)"

definition try_take :: "nat \<Rightarrow> nat \<Rightarrow> bucket \<Rightarrow> bool \<times> bucket" where
  "try_take now n b0 =
     (let b = refilled now b0; len = f64_of_nat n
      in if f64_less (bk_frames b) (Fin 1)
            \<or> f64_less (bk_bytes b) (f64_min len (burst_bytes (bk_rate b)))
         then (False, b)
         else (True, b\<lparr>bk_frames := f64_sub (bk_frames b) (Fin 1),
                       bk_bytes := f64_sub (bk_bytes b) len\<rparr>))"

text \<open>A sequence of calls \<open>(now, len)\<close>; the answers in order and the bucket after them.\<close>

fun try_takes :: "(nat \<times> nat) list \<Rightarrow> bucket \<Rightarrow> bool list \<times> bucket" where
  "try_takes [] b = ([], b)"
| "try_takes ((now, n) # cs) b =
     (let (ok, b1) = try_take now n b; (oks, b2) = try_takes cs b1 in (ok # oks, b2))"

section \<open>Well-formed rates and levels\<close>

fun burst_ok :: "f64 \<Rightarrow> bool" where
  "burst_ok PInf = True"
| "burst_ok (Fin x) \<longleftrightarrow> 0 \<le> x \<and> x \<le> 2 ^ 53 \<and> of_int \<lfloor>x\<rfloor> = x"
| "burst_ok _ = False"

fun nonneg :: "f64 \<Rightarrow> bool" where
  "nonneg PInf = True"
| "nonneg (Fin x) \<longleftrightarrow> 0 \<le> x"
| "nonneg _ = False"

definition wf_rate :: "rate \<Rightarrow> bool" where
  "wf_rate r \<longleftrightarrow> burst_ok (burst_bytes r) \<and> burst_ok (burst_frames r)
     \<and> nonneg (bytes_per_second r) \<and> nonneg (frames_per_second r)"

text \<open>A level within its burst and not below \<open>-lo\<close>; an infinite burst keeps an infinite level.\<close>

fun level_ok :: "nat \<Rightarrow> f64 \<Rightarrow> f64 \<Rightarrow> bool" where
  "level_ok lo PInf l \<longleftrightarrow> l = PInf"
| "level_ok lo (Fin b) (Fin x) \<longleftrightarrow> - of_nat lo \<le> x \<and> x \<le> b"
| "level_ok lo _ _ = False"

definition bucket_ok :: "bucket \<Rightarrow> bool" where
  "bucket_ok b \<longleftrightarrow> level_ok (2 ^ 53) (burst_bytes (bk_rate b)) (bk_bytes b)
     \<and> level_ok 0 (burst_frames (bk_rate b)) (bk_frames b)"

lemma burst_okE:
  assumes "burst_ok f"
  obtains "f = PInf" | n where "f = Fin (of_nat n)" "n \<le> 2 ^ 53"
proof (cases f)
  case (Fin x)
  with assms have x: "0 \<le> x" "x \<le> 2 ^ 53" "of_int \<lfloor>x\<rfloor> = x" by auto
  then have "rat_of_nat (nat \<lfloor>x\<rfloor>) = of_int \<lfloor>x\<rfloor>" by (intro of_nat_nat) simp
  with x(3) have "x = of_nat (nat \<lfloor>x\<rfloor>)" by metis
  moreover have "nat \<lfloor>x\<rfloor> \<le> 2 ^ 53" using x(2) by (simp add: floor_le_iff nat_le_iff le_floor_iff)
  ultimately show thesis using that(2) Fin by metis
qed (use assms that(1) in auto)

section \<open>Rounding facts\<close>

lemma f64_round_between:
  assumes "- of_nat m \<le> x" "x \<le> of_nat n" "m \<le> 2 ^ 53" "n \<le> 2 ^ 53"
  shows "f64_round x = Fin (round64 x) \<and> - of_nat m \<le> round64 x \<and> round64 x \<le> of_nat n"
proof -
  have b: "- of_nat m \<le> round64 x" "round64 x \<le> of_nat n"
    using assms ieee.rnd_ge_neg_nat ieee.rnd_le_nat by blast+
  have "(of_nat m :: rat) \<le> of_nat (2 ^ 53)" "(of_nat n :: rat) \<le> of_nat (2 ^ 53)"
    using assms(3,4) of_nat_le_iff by blast+
  then have "\<bar>round64 x\<bar> \<le> 2 ^ 53" using b by simp
  moreover have "(2 :: rat) ^ 53 < 2 ^ 1024" by (rule power_strict_increasing) simp_all
  ultimately have "round64 x < 2 ^ 1024" "- (2 ^ 1024) < round64 x" by linarith+
  with b show ?thesis by (simp add: f64_round_def Let_def)
qed

lemma f64_of_nat_exact: "n \<le> 2 ^ 53 \<Longrightarrow> f64_of_nat n = Fin (of_nat n)"
  using f64_round_between [of 0 "of_nat n" n] ieee.rnd_nat [of n] by (simp add: f64_of_nat_def)

lemma f64_round_nonneg: "0 \<le> x \<Longrightarrow> nonneg (f64_round x)"
proof -
  assume "0 \<le> x"
  then have "0 \<le> round64 x" by (rule ieee.rnd_nonneg)
  moreover have "- (2 ^ 1024 :: rat) < 0" by (metis neg_less_0_iff_less zero_less_numeral zero_less_power)
  ultimately have "\<not> round64 x \<le> - (2 ^ 1024)" by linarith
  with \<open>0 \<le> round64 x\<close> show ?thesis by (simp add: f64_round_def Let_def)
qed

lemma nonneg_add: "nonneg a \<Longrightarrow> nonneg b \<Longrightarrow> nonneg (f64_add a b)"
  by (cases a; cases b) (simp_all add: f64_round_nonneg)

lemma nonneg_mul: "nonneg a \<Longrightarrow> nonneg b \<Longrightarrow> nonneg (f64_mul a b) \<or> f64_mul a b = NaN"
  by (cases a; cases b) (auto simp: f64_round_nonneg inf_times_def)

lemma nonneg_as_secs: "nonneg (as_secs_f64 ns)"
proof -
  have "0 \<le> round64 (of_nat (ns mod 10 ^ 9)) / 10 ^ 9"
    using ieee.rnd_nonneg [of "of_nat (ns mod 10 ^ 9)"] by simp
  then show ?thesis
    by (simp add: as_secs_f64_def f64_of_nat_def nonneg_add f64_round_nonneg)
qed

lemma as_secs_zero [simp]: "as_secs_f64 0 = Fin 0"
  using f64_round_between [of 0 0 0]
  by (simp add: as_secs_f64_def f64_of_nat_def)

section \<open>Levels stay within their bursts\<close>

lemma level_ok_full: "burst_ok f \<Longrightarrow> level_ok lo f f"
  by (cases f) (auto intro: order_trans [of _ 0])

lemma refill_level_ok:
  assumes "level_ok lo burst l" "burst_ok burst" "nonneg per" "nonneg el" "lo \<le> 2 ^ 53"
  shows "level_ok lo burst (refill l per burst el)"
  using assms(2)
proof (cases rule: burst_okE)
  case 1
  then show ?thesis by (simp add: refill_def f64_is_infinite_def)
next
  case (2 n)
  with assms(1) obtain x where x: "l = Fin x" "- of_nat lo \<le> x" "x \<le> of_nat n"
    by (cases l) auto
  have lo: "- of_nat lo \<le> rat_of_nat n"
    by (rule order_trans [of _ 0]) simp_all
  consider "f64_mul el per = NaN" | "f64_mul el per = PInf" |
    d where "f64_mul el per = Fin d" "0 \<le> d"
    using nonneg_mul [OF assms(4,3)] by (cases "f64_mul el per") auto
  then show ?thesis
  proof cases
    case (3 d)
    then have "- of_nat lo \<le> round64 (x + d)"
      using x(2) assms(5) by (intro ieee.rnd_ge_neg_nat) simp_all
    moreover have "(of_nat lo :: rat) \<le> 2 ^ 53"
      using assms(5) by (metis of_nat_le_iff of_nat_numeral of_nat_power)
    moreover have "(2 :: rat) ^ 53 < 2 ^ 1024" by (rule power_strict_increasing) simp_all
    ultimately have "\<not> round64 (x + d) \<le> - (2 ^ 1024)" "- of_nat lo \<le> round64 (x + d)"
      by linarith+
    then show ?thesis using 2 3 x lo
      by (simp add: refill_def f64_is_infinite_def f64_round_def Let_def f64_min_def)
  qed (use 2 x lo in \<open>simp_all add: refill_def f64_is_infinite_def f64_min_def\<close>)
qed

lemma refilled_rate [simp]: "bk_rate (refilled now b) = bk_rate b"
  and refilled_last [simp]: "bk_last (refilled now b) = now"
  by (simp_all add: refilled_def Let_def)

lemma refilled_ok: "wf_rate (bk_rate b) \<Longrightarrow> bucket_ok b \<Longrightarrow> bucket_ok (refilled now b)"
  by (simp add: bucket_ok_def refilled_def Let_def wf_rate_def refill_level_ok nonneg_as_secs)

lemma try_take_rate: "bk_rate (snd (try_take now n b)) = bk_rate b"
  by (simp add: try_take_def Let_def)

lemma try_takes_rate: "bk_rate (snd (try_takes cs b)) = bk_rate b"
  by (induction cs arbitrary: b) (auto simp: split_beta try_take_rate)

text \<open>Spending what the guard has allowed: one frame, and \<open>n\<close> bytes.\<close>

lemma spend_level:
  assumes "level_ok lo burst l" "burst_ok burst" "n \<le> 2 ^ 53" "lo' \<le> 2 ^ 53"
    and "\<not> f64_less l (f64_min (Fin (of_nat n)) burst)"
    and "\<And>b. burst = Fin b \<Longrightarrow> of_nat n \<le> b + of_nat lo' \<or> lo' = 2 ^ 53"
  shows "level_ok lo' burst (f64_sub l (Fin (of_nat n)))"
  using assms(2)
proof (cases rule: burst_okE)
  case 1
  then show ?thesis using assms(1) by (cases l) (simp_all add: f64_sub_def)
next
  case (2 k)
  with assms(1) obtain x where x: "l = Fin x" "x \<le> of_nat k"
    by (cases l) auto
  have low: "min (of_nat n) (of_nat k) \<le> x"
    using assms(5) 2 x by (auto simp: f64_min_def split: if_splits)
  have n: "(of_nat n :: rat) \<le> 2 ^ 53"
    using assms(3) by (metis of_nat_le_iff of_nat_numeral of_nat_power)
  have "- of_nat lo' \<le> x - of_nat n"
  proof (cases "n \<le> k")
    case True
    then have "of_nat n \<le> x" using low by simp
    then show ?thesis by (simp add: order_trans [of _ 0])
  next
    case False
    then have "of_nat k \<le> x" using low by simp
    moreover have "of_nat n \<le> rat_of_nat k + of_nat lo'"
      using assms(6) [OF 2(1)] n by (auto intro: order_trans)
    ultimately show ?thesis by linarith
  qed
  moreover have "x - of_nat n \<le> of_nat k" using x(2) by (simp add: order_trans)
  ultimately have "- of_nat lo' \<le> round64 (x - of_nat n)" "round64 (x - of_nat n) \<le> of_nat k"
    "f64_round (x - of_nat n) = Fin (round64 (x - of_nat n))"
    using f64_round_between [of lo' "x - of_nat n" k] assms(4) 2(2) by simp_all
  then show ?thesis using 2 x by (simp add: f64_sub_def)
qed

lemma spend_frame:
  assumes "level_ok 0 burst l" "burst_ok burst" "\<not> f64_less l (Fin 1)"
  shows "level_ok 0 burst (f64_sub l (Fin 1))"
  using assms(2)
proof (cases rule: burst_okE)
  case (2 k)
  with assms(1,3) obtain x where "l = Fin x" "1 \<le> x" "x \<le> of_nat k"
    by (cases l) auto
  with 2 show ?thesis
    using spend_level [of 0 burst l 1 0] assms by (auto simp: f64_min_def)
qed (use assms in \<open>cases l; simp add: f64_sub_def\<close>)

lemma try_take_ok:
  assumes "wf_rate (bk_rate b)" "bucket_ok b" "n \<le> 2 ^ 53"
  shows "bucket_ok (snd (try_take now n b))"
proof -
  have ok: "bucket_ok (refilled now b)" using refilled_ok assms by simp
  show ?thesis
    using ok assms(1,3) spend_frame [of "burst_frames (bk_rate b)" "bk_frames (refilled now b)"]
      spend_level [of "2 ^ 53" "burst_bytes (bk_rate b)" "bk_bytes (refilled now b)" n "2 ^ 53"]
    by (simp add: try_take_def Let_def bucket_ok_def wf_rate_def f64_of_nat_exact)
qed

lemma try_takes_ok:
  "wf_rate (bk_rate b) \<Longrightarrow> bucket_ok b \<Longrightarrow> \<forall>c \<in> set cs. snd c \<le> 2 ^ 53
     \<Longrightarrow> bucket_ok (snd (try_takes cs b))"
  by (induction cs arbitrary: b) (auto simp: split_beta try_take_ok try_take_rate)

section \<open>What passes at one instant\<close>





text \<open>The lengths a sequence of calls let through.\<close>

definition accepted :: "nat \<Rightarrow> nat list \<Rightarrow> bucket \<Rightarrow> nat list" where
  "accepted t ns b = map snd (filter fst (zip (fst (try_takes (map (Pair t) ns) b)) ns))"

lemma accepted_simps:
  "accepted t [] b = []"
  "accepted t (n # ns) b =
     (if fst (try_take t n b) then [n] else []) @ accepted t ns (snd (try_take t n b))"
  by (simp_all add: accepted_def split_beta)

lemma try_take_last [simp]: "bk_last (snd (try_take t n b)) = t"
  by (simp add: try_take_def Let_def)


definition finite_rate :: "nat \<Rightarrow> nat \<Rightarrow> rate \<Rightarrow> bool" where
  "finite_rate k m r \<longleftrightarrow> wf_rate r \<and> burst_frames r = Fin (of_nat k) \<and> burst_bytes r = Fin (of_nat m)
     \<and> frames_per_second r \<noteq> PInf \<and> bytes_per_second r \<noteq> PInf"

lemma finite_rate_bounds:
  assumes "finite_rate k m r"
  shows "k \<le> 2 ^ 53" "m \<le> 2 ^ 53" "\<exists>p. frames_per_second r = Fin p" "\<exists>q. bytes_per_second r = Fin q"
proof -
  have "(of_nat k :: rat) \<le> of_nat (2 ^ 53)" "(of_nat m :: rat) \<le> of_nat (2 ^ 53)"
    using assms by (auto simp: finite_rate_def wf_rate_def)
  then show "k \<le> 2 ^ 53" "m \<le> 2 ^ 53" using of_nat_le_iff by blast+
  show "\<exists>p. frames_per_second r = Fin p"
    using assms by (cases "frames_per_second r") (auto simp: finite_rate_def wf_rate_def)
  show "\<exists>q. bytes_per_second r = Fin q"
    using assms by (cases "bytes_per_second r") (auto simp: finite_rate_def wf_rate_def)
qed




text \<open>A bucket in debt by a whole number of bytes stays so at that instant, and refuses everything.\<close>

lemma debt_refuses:
  assumes r: "finite_rate k m (bk_rate b)" and b: "bk_last b = t" "bk_bytes b = Fin (of_int z)" "- (2 ^ 53) \<le> z" "z < 0"
  shows "try_take t n b = (False, refilled t b) \<and> bk_bytes (refilled t b) = Fin (of_int z)"
proof -
  obtain q where q: "bytes_per_second (bk_rate b) = Fin q" using finite_rate_bounds(4) [OF r] by blast
  have "round64 (rat_of_int z) = of_int z" using b(3,4) by (intro ieee.rnd_int) simp
  moreover have "f64_round (rat_of_int z) = Fin (round64 (of_int z))"
    using f64_round_between [of "nat (- z)" "of_int z" 0] b(3,4) by simp
  moreover have "f64_mul (Fin 0) (Fin q) = Fin 0" using f64_round_between [of 0 0 0] by simp
  moreover have "rat_of_int z < of_nat m" using b(4) by (simp add: less_le_trans [of _ 0])
  ultimately have z: "bk_bytes (refilled t b) = Fin (of_int z)"
    using b q r by (simp add: refilled_def Let_def finite_rate_def refill_def f64_is_infinite_def f64_min_def)
  moreover have "0 \<le> round64 (of_nat n)" by (simp add: ieee.rnd_nonneg)
  ultimately have "f64_less (bk_bytes (refilled t b)) (f64_min (f64_of_nat n) (burst_bytes (bk_rate b)))"
    using r b(4) f64_round_nonneg [of "of_nat n"]
    by (cases "f64_round (rat_of_nat n)")
      (auto simp: f64_of_nat_def finite_rate_def f64_min_def less_le_trans [of _ 0])
  then show ?thesis using z by (simp add: try_take_def Let_def refilled_def)
qed

lemma debt_accepts_none:
  "finite_rate k m (bk_rate b) \<Longrightarrow> bk_last b = t \<Longrightarrow> bk_bytes b = Fin (of_int z) \<Longrightarrow> - (2 ^ 53) \<le> z \<Longrightarrow> z < 0
     \<Longrightarrow> accepted t ns b = []"
proof (induction ns arbitrary: b)
  case (Cons n ns)
  note d = debt_refuses [OF Cons.prems, of n]
  have "finite_rate k m (bk_rate (refilled t b))" "bk_last (refilled t b) = t"
    using Cons.prems(1) by (simp_all add: refilled_def Let_def)
  then show ?case using Cons.IH Cons.prems(4,5) d by (simp add: accepted_simps)
qed (simp add: accepted_simps)

text \<open>A frame above the byte burst passes only from a full byte bucket, and leaves it in debt by the excess.\<close>

lemma oversized_take:
  assumes r: "finite_rate k m (bk_rate b)" and ok: "bucket_ok b" and n: "m < n" "n \<le> 2 ^ 53"
  shows "fst (try_take t n b) \<longleftrightarrow> \<not> f64_less (bk_frames (refilled t b)) (Fin 1) \<and> bk_bytes (refilled t b) = Fin (of_nat m)"
    and "fst (try_take t n b) \<Longrightarrow> bk_bytes (snd (try_take t n b)) = Fin (of_int (int m - int n))"
proof -
  let ?b = "refilled t b" and ?b1 = "snd (try_take t n b)"
  have "bucket_ok ?b" using r ok refilled_ok by (simp add: finite_rate_def)
  then obtain y where y: "bk_bytes ?b = Fin y" "y \<le> of_nat m"
    using r by (cases "bk_bytes ?b") (auto simp: bucket_ok_def finite_rate_def)
  have len: "f64_min (f64_of_nat n) (burst_bytes (bk_rate b)) = Fin (of_nat m)"
    using r n by (simp add: finite_rate_def f64_of_nat_exact f64_min_def)
  show pass: "fst (try_take t n b) \<longleftrightarrow> \<not> f64_less (bk_frames ?b) (Fin 1) \<and> bk_bytes ?b = Fin (of_nat m)"
    using y len by (auto simp: try_take_def Let_def)
  assume p: "fst (try_take t n b)"
  have e: "rat_of_nat m - of_nat n = of_int (int m - int n)" by simp
  have "round64 (of_int (int m - int n)) = of_int (int m - int n)" using n by (intro ieee.rnd_int) simp
  moreover have "f64_round (of_nat m - of_nat n) = Fin (round64 (of_nat m - of_nat n))"
    using f64_round_between [of n "of_nat m - of_nat n" m] n by simp
  moreover have "bk_bytes ?b1 = f64_sub (bk_bytes ?b) (f64_of_nat n)"
    using p by (simp add: try_take_def Let_def split: if_splits)
  ultimately show "bk_bytes ?b1 = Fin (of_int (int m - int n))"
    using pass p n unfolding e by (simp add: f64_sub_def f64_of_nat_exact)
qed



section \<open>Idle time\<close>

lemma as_secs_whole: "s \<le> 2 ^ 53 \<Longrightarrow> as_secs_f64 (s * 10 ^ 9) = Fin (of_nat s)"
  using f64_round_between [of 0 0 0] f64_round_between [of 0 "of_nat s" s] ieee.rnd_nat [of s]
  by (simp add: as_secs_f64_def f64_of_nat_exact)

text \<open>A product that covers the missing tokens fills the bucket, whatever its rounding.\<close>

lemma refill_full:
  assumes "level_ok d (Fin (of_nat k)) l" "k + d \<le> s * p" "k + d \<le> 2 ^ 53"
  shows "refill l (Fin (of_nat p)) (Fin (of_nat k)) (Fin (of_nat s)) = Fin (of_nat k)"
proof -
  obtain x where x: "l = Fin x" "- of_nat d \<le> x" "x \<le> of_nat k"
    using assms(1) by (cases l) auto
  have "(of_nat (k + d) :: rat) \<le> of_nat s * of_nat p"
    using assms(2) by (metis of_nat_le_iff of_nat_mult)
  then have "round64 (of_nat (k + d)) \<le> round64 (of_nat s * of_nat p)"
    by (rule ieee.rnd_mono)
  then have kd: "of_nat (k + d) \<le> round64 (of_nat s * of_nat p)"
    using ieee.rnd_nat [OF assms(3)] by metis
  have "0 \<le> rat_of_nat s * of_nat p" by simp
  then consider "f64_mul (Fin (of_nat s)) (Fin (of_nat p)) = PInf" |
    "f64_mul (Fin (of_nat s)) (Fin (of_nat p)) = Fin (round64 (of_nat s * of_nat p))"
    using f64_round_nonneg [of "of_nat s * of_nat p"]
    by (auto simp: f64_round_def Let_def split: if_splits)
  then show ?thesis
  proof cases
    case 2
    let ?y = "x + round64 (of_nat s * of_nat p)"
    have "of_nat k \<le> ?y" using kd x(2) by simp
    then have "round64 (of_nat k) \<le> round64 ?y" by (rule ieee.rnd_mono)
    then have y: "of_nat k \<le> round64 ?y" using assms(3) ieee.rnd_nat [of k] by simp
    have "0 \<le> ?y" using \<open>of_nat k \<le> ?y\<close> by (simp add: order_trans [OF of_nat_0_le_iff])
    then have "nonneg (f64_round ?y)" by (rule f64_round_nonneg)
    then have "f64_round ?y = PInf \<or> f64_round ?y = Fin (round64 ?y)"
      by (auto simp: f64_round_def Let_def split: if_splits)
    then show ?thesis using x y 2
      by (auto simp: refill_def f64_is_infinite_def f64_min_def)
  qed (use x in \<open>simp add: refill_def f64_is_infinite_def f64_min_def\<close>)
qed

text \<open>A new bucket lets a frame through at once.\<close>

lemma refill_zero:
  assumes "k \<le> 2 ^ 53"
  shows "refill (Fin (of_nat k)) (Fin p) (Fin (of_nat k)) (Fin 0) = Fin (of_nat k)"
proof -
  have "f64_mul (Fin 0) (Fin p) = Fin 0" using f64_round_between [of 0 0 0] by simp
  moreover have "f64_round (of_nat k) = Fin (of_nat k)"
    using f64_of_nat_exact [OF assms] by (simp add: f64_of_nat_def)
  ultimately show ?thesis by (simp add: refill_def f64_is_infinite_def f64_min_def)
qed

lemma new_bucket_passes:
  assumes "burst_frames r = Fin (of_nat k)" "1 \<le> k" "k \<le> 2 ^ 53" "frames_per_second r = Fin p"
    and "burst_bytes r = PInf \<or> (\<exists>m q. burst_bytes r = Fin (of_nat m) \<and> m \<le> 2 ^ 53 \<and> bytes_per_second r = Fin q)"
  shows "fst (try_take t n (bucket_new r t))"
proof -
  let ?b = "refilled t (bucket_new r t)"
  have f: "bk_frames ?b = Fin (of_nat k)"
    using assms(1,3,4) by (simp add: refilled_def bucket_new_def refill_zero)
  have b: "bk_bytes ?b = burst_bytes r"
    using assms(5)
  proof
    assume "burst_bytes r = PInf"
    then show ?thesis by (simp add: refilled_def bucket_new_def refill_def f64_is_infinite_def)
  qed (auto simp: refilled_def bucket_new_def refill_zero)
  have "\<not> f64_less (burst_bytes r) (f64_min (f64_of_nat n) (burst_bytes r))"
    using assms(5) f64_round_nonneg [of "of_nat n"]
    by (cases "f64_of_nat n") (auto simp: f64_min_def f64_of_nat_def)
  then show ?thesis
    using f b assms(2) by (simp add: try_take_def Let_def bucket_new_def)
qed

section \<open>Properties\<close>

text \<open>Whatever calls a connection makes, at whatever times, the levels of a bucket stay
  within their bursts: the frame level between zero and the burst, the byte level at most the
  burst (an infinite burst keeps an infinite level); neither becomes NaN or overflows.\<close>

theorem bucket_levels:
  assumes "wf_rate r" "\<forall>c \<in> set cs. snd c \<le> 2 ^ 53"
  shows "bucket_ok (snd (try_takes cs (bucket_new r t)))"
  using assms try_takes_ok [of "bucket_new r t" cs]
  by (simp add: bucket_new_def bucket_ok_def wf_rate_def level_ok_full)

theorem bucket_levels_witness:
  "bucket_ok (snd (try_takes [(0, 1000000), (5, 70), (2000000000, 3)]
     (bucket_new (rate_frames (Fin 1) (Fin 3)) 0)))"
  by (rule bucket_levels) (simp_all add: wf_rate_def rate_frames_def)


definition small_rate :: rate where
  "small_rate = \<lparr>bytes_per_second = Fin 1, burst_bytes = Fin 100,
     frames_per_second = Fin 1000, burst_frames = Fin 1000\<rparr>"


text \<open>A frame larger than the byte burst passes only from a full byte bucket (and a frame
  token), and then leaves the bucket in debt by exactly the excess: nothing else passes at
  that instant, not even an empty frame.\<close>

theorem bucket_oversized:
  assumes "finite_rate k m (bk_rate b)" "bucket_ok b" "m < n" "n \<le> 2 ^ 53"
  shows "(fst (try_take t n b) \<longleftrightarrow>
            \<not> f64_less (bk_frames (refilled t b)) (Fin 1) \<and> bk_bytes (refilled t b) = Fin (of_nat m))
    \<and> (fst (try_take t n b) \<longrightarrow>
            bk_bytes (snd (try_take t n b)) = Fin (of_int (int m - int n))
          \<and> accepted t ns (snd (try_take t n b)) = [])"
  using oversized_take [OF assms, of t] debt_accepts_none [of k m "snd (try_take t n b)" t "int m - int n" ns] assms
  by (auto simp: try_take_rate)

theorem bucket_oversized_witness:
  "fst (try_take 0 500 (bucket_new small_rate 0)) \<longleftrightarrow>
     \<not> f64_less (bk_frames (refilled 0 (bucket_new small_rate 0))) (Fin 1)
     \<and> bk_bytes (refilled 0 (bucket_new small_rate 0)) = Fin (of_nat 100)"
  using bucket_oversized [of 1000 100 "bucket_new small_rate 0" 500 0]
  by (simp add: finite_rate_def wf_rate_def bucket_new_def small_rate_def bucket_ok_def)

text \<open>C31: a client that stays idle long enough is served again: after \<open>s\<close> whole seconds in which
  the rates cover both bursts and the byte debt, a frame of any length passes.\<close>

theorem bucket_recovers:
  assumes "burst_frames (bk_rate b) = Fin (of_nat k)" "burst_bytes (bk_rate b) = Fin (of_nat m)"
    and "frames_per_second (bk_rate b) = Fin (of_nat p)" "bytes_per_second (bk_rate b) = Fin (of_nat q)"
    and "level_ok 0 (Fin (of_nat k)) (bk_frames b)" "level_ok d (Fin (of_nat m)) (bk_bytes b)"
    and "1 \<le> k" "k \<le> s * p" "m + d \<le> s * q" "k \<le> 2 ^ 53" "m + d \<le> 2 ^ 53" "s \<le> 2 ^ 53"
  shows "fst (try_take (bk_last b + s * 10 ^ 9) n b)"
proof -
  let ?t = "bk_last b + s * 10 ^ 9"
  have "bk_frames (refilled ?t b) = Fin (of_nat k)" "bk_bytes (refilled ?t b) = Fin (of_nat m)"
    using refill_full [of 0 k "bk_frames b" s p] refill_full [of d m "bk_bytes b" s q] assms
      as_secs_whole [of s] by (simp_all add: refilled_def Let_def)
  moreover have "\<not> f64_less (Fin (of_nat m)) (f64_min (f64_of_nat n) (Fin (of_nat m)))"
    using f64_round_nonneg [of "of_nat n"] by (cases "f64_of_nat n") (auto simp: f64_min_def)
  ultimately show ?thesis using assms(1,2,7) by (simp add: try_take_def Let_def)
qed

definition in_debt :: bucket where
  "in_debt = (bucket_new small_rate 7)\<lparr>bk_bytes := Fin (- 400)\<rparr>"

theorem bucket_recovers_witness: "fst (try_take (7 + 500 * 10 ^ 9) 3 in_debt)"
  using bucket_recovers [of in_debt 1000 100 1000 1 400 500 3]
  by (simp add: in_debt_def bucket_new_def small_rate_def)

end
