(* ===== verification/Config.thy ===== *)
theory Config
  imports Wire Bucket
begin

text \<open>
  \<open>Limits\<close>, \<open>RelayRateLimit\<close>, \<open>Stats\<close> and its snapshot, from \<open>src/src/server.rs\<close>. Durations
  are nanoseconds; the counters are \<open>AtomicU64\<close>, so \<open>fetch_add\<close> and \<open>fetch_sub\<close> wrap at 64 bits.
\<close>

section \<open>Limits\<close>

definition MIB :: usize where "MIB = 1024 * 1024"
definition QUIC_RECEIVE_WINDOW :: nat where "QUIC_RECEIVE_WINDOW = 4 * MIB"
definition QUIC_STREAM_RECEIVE_WINDOW :: nat where "QUIC_STREAM_RECEIVE_WINDOW = 2 * MIB"
definition QUIC_SEND_WINDOW_HEADROOM :: usize where "QUIC_SEND_WINDOW_HEADROOM = 8 * MIB"
definition QUIC_DATAGRAM_RECEIVE_BUFFER :: usize where "QUIC_DATAGRAM_RECEIVE_BUFFER = 512 * 1024"
definition SHARDS :: usize where "SHARDS = 64"

definition from_secs :: "nat \<Rightarrow> nat" where "from_secs s = s * 10 ^ 9"

record limits =
  max_members_per_topic :: usize
  max_topics_per_connection :: usize
  snapshot_chunk_entries :: usize
  snapshot_chunk_bytes :: usize
  max_connections :: usize
  handshake_timeout :: nat
  stream_open_timeout :: nat
  max_lane_streams :: nat
  outbox_bytes :: usize
  bulk_outbox_bytes :: usize
  max_bulk_streams :: usize
  stall_timeout :: nat
  publish_rate :: rate
  join_rate :: rate
  datagram_rate :: rate

definition default_publish_rate :: rate where
  "default_publish_rate =
     \<lparr>bytes_per_second = f64_of_nat (4 * MIB), burst_bytes = f64_of_nat (4 * MIB),
      frames_per_second = Fin 200, burst_frames = Fin 400\<rparr>"

definition default_join_rate :: rate where
  "default_join_rate = rate_frames (Fin 50) (f64_of_nat (MAX_TOPICS_PER_CONNECTION + 88))"

definition default_datagram_rate :: rate where
  "default_datagram_rate =
     \<lparr>bytes_per_second = f64_of_nat MIB, burst_bytes = f64_of_nat (2 * MIB),
      frames_per_second = Fin 1000, burst_frames = Fin 2000\<rparr>"

definition limits_default :: limits where
  "limits_default =
     \<lparr>max_members_per_topic = MAX_MEMBERS_PER_TOPIC,
      max_topics_per_connection = MAX_TOPICS_PER_CONNECTION,
      snapshot_chunk_entries = SNAPSHOT_CHUNK_ENTRIES,
      snapshot_chunk_bytes = SNAPSHOT_CHUNK_BYTES,
      max_connections = 10000,
      handshake_timeout = from_secs 15,
      stream_open_timeout = from_secs 10,
      max_lane_streams = 16,
      outbox_bytes = 8 * MIB,
      bulk_outbox_bytes = 8 * MIB,
      max_bulk_streams = 16,
      stall_timeout = from_secs 20,
      publish_rate = default_publish_rate,
      join_rate = default_join_rate,
      datagram_rate = default_datagram_rate\<rparr>"

record relay_rate_limit =
  rl_bytes_per_second :: "32 word"
  rl_burst_bytes :: "32 word"

definition relay_rate_limit_default :: relay_rate_limit where
  "relay_rate_limit_default =
     \<lparr>rl_bytes_per_second = of_nat (2 * MIB), rl_burst_bytes = of_nat (4 * MIB)\<rparr>"

section \<open>Stats\<close>

type_synonym u64 = "64 word"

text \<open>\<open>[AtomicU64; 3]\<close>, indexed by \<open>Lane::index\<close>.\<close>

type_synonym lane_counters = "u64 list"

record stats =
  st_connections :: u64
  st_connections_refused :: u64
  st_no_stream :: u64
  st_slow_consumers :: u64
  st_stalled :: u64
  st_published :: lane_counters
  st_delivered :: lane_counters
  st_directed :: u64
  st_bulk_dropped :: u64
  st_bulk_stalled :: u64
  st_bad_lanes :: u64
  st_bulk_stopped :: u64
  st_rate_limited :: u64
  st_malformed :: u64
  st_datagrams_in :: u64
  st_datagrams_out :: u64
  st_datagrams_dropped :: u64

definition stats_default :: stats where
  "stats_default =
     \<lparr>st_connections = 0, st_connections_refused = 0, st_no_stream = 0, st_slow_consumers = 0,
      st_stalled = 0, st_published = [0, 0, 0], st_delivered = [0, 0, 0], st_directed = 0,
      st_bulk_dropped = 0, st_bulk_stalled = 0, st_bad_lanes = 0, st_bulk_stopped = 0,
      st_rate_limited = 0, st_malformed = 0, st_datagrams_in = 0, st_datagrams_out = 0,
      st_datagrams_dropped = 0\<rparr>"

text \<open>\<open>Stats::bump\<close>, given the field's update function.\<close>

definition bump :: "((u64 \<Rightarrow> u64) \<Rightarrow> stats \<Rightarrow> stats) \<Rightarrow> stats \<Rightarrow> stats" where
  "bump field s = field (\<lambda>c. c + 1) s"

text \<open>\<open>fetch_add\<close> on one lane's counter.\<close>

definition add_lane :: "lane \<Rightarrow> u64 \<Rightarrow> lane_counters \<Rightarrow> lane_counters" where
  "add_lane lane n cs = cs[lane_index lane := cs ! lane_index lane + n]"

record lane_counts =
  lc_control :: u64
  lc_interactive :: u64
  lc_bulk :: u64

definition lane_counts_total :: "lane_counts \<Rightarrow> u64" where
  "lane_counts_total c = lc_control c + lc_interactive c + lc_bulk c"

fun lane_counts_get :: "lane_counts \<Rightarrow> lane \<Rightarrow> u64" where
  "lane_counts_get c Control = lc_control c"
| "lane_counts_get c Interactive = lc_interactive c"
| "lane_counts_get c Bulk = lc_bulk c"

record stats_values =
  ss_connections :: u64
  ss_connections_refused :: u64
  ss_no_stream :: u64
  ss_slow_consumers :: u64
  ss_stalled :: u64
  ss_published :: lane_counts
  ss_delivered :: lane_counts
  ss_directed :: u64
  ss_bulk_dropped :: u64
  ss_bulk_stalled :: u64
  ss_bad_lanes :: u64
  ss_bulk_stopped :: u64
  ss_rate_limited :: u64
  ss_malformed :: u64
  ss_datagrams_in :: u64
  ss_datagrams_out :: u64
  ss_datagrams_dropped :: u64

definition lanes_snapshot :: "lane_counters \<Rightarrow> lane_counts" where
  "lanes_snapshot cs =
     \<lparr>lc_control = cs ! lane_index Control, lc_interactive = cs ! lane_index Interactive,
      lc_bulk = cs ! lane_index Bulk\<rparr>"

definition stats_snapshot :: "stats \<Rightarrow> stats_values" where
  "stats_snapshot s =
     \<lparr>ss_connections = st_connections s, ss_connections_refused = st_connections_refused s,
      ss_no_stream = st_no_stream s, ss_slow_consumers = st_slow_consumers s,
      ss_stalled = st_stalled s, ss_published = lanes_snapshot (st_published s),
      ss_delivered = lanes_snapshot (st_delivered s), ss_directed = st_directed s,
      ss_bulk_dropped = st_bulk_dropped s, ss_bulk_stalled = st_bulk_stalled s,
      ss_bad_lanes = st_bad_lanes s, ss_bulk_stopped = st_bulk_stopped s,
      ss_rate_limited = st_rate_limited s, ss_malformed = st_malformed s,
      ss_datagrams_in = st_datagrams_in s, ss_datagrams_out = st_datagrams_out s,
      ss_datagrams_dropped = st_datagrams_dropped s\<rparr>"

lemma lane_index_less: "lane_index l < 3"
  by (cases l) simp_all

lemma lanes_snapshot_get: "lane_counts_get (lanes_snapshot cs) l = cs ! lane_index l"
  by (cases l) (simp_all add: lanes_snapshot_def)

lemma lane_index_inj: "lane_index l = lane_index l' \<Longrightarrow> l = l'"
  by (cases l; cases l') simp_all

lemma add_lane_length [simp]: "length (add_lane l n cs) = length cs"
  by (simp add: add_lane_def)

lemma add_lane_nth:
  "length cs = 3 \<Longrightarrow> add_lane l n cs ! lane_index l' = cs ! lane_index l' + (if l' = l then n else 0)"
  using lane_index_less [of l] lane_index_inj [of l l']
  by (auto simp: add_lane_def nth_list_update)

section \<open>Properties\<close>

text \<open>The default rates are well formed, so every connection's buckets start within the
  bucket invariant; the publish and datagram rates are finite, and the publish burst is at most
  half of the outbox budget, as the comment on the default promises.\<close>

theorem default_rates:
  "finite_rate 400 (4 * MIB) (publish_rate limits_default)
   \<and> finite_rate 2000 (2 * MIB) (datagram_rate limits_default)
   \<and> wf_rate (join_rate limits_default)
   \<and> burst_frames (join_rate limits_default) = Fin (of_nat 600)
   \<and> 2 * (4 * MIB) \<le> outbox_bytes limits_default
   \<and> max_topics_per_connection limits_default \<le> 600"
  by (simp add: limits_default_def default_publish_rate_def default_datagram_rate_def
      default_join_rate_def rate_frames_def finite_rate_def wf_rate_def f64_of_nat_exact MIB_def
      MAX_TOPICS_PER_CONNECTION_def)

text \<open>A lane's counter in the snapshot is the one \<open>fetch_add\<close> on that lane moves, and the
  total of the three moves by the same amount (all modulo \<open>2 ^ 64\<close>).\<close>

theorem lane_counters_snapshot:
  assumes "length cs = 3"
  shows "lane_counts_get (lanes_snapshot (add_lane l n cs)) l' =
           lane_counts_get (lanes_snapshot cs) l' + (if l' = l then n else 0)
       \<and> lane_counts_total (lanes_snapshot (add_lane l n cs)) =
           lane_counts_total (lanes_snapshot cs) + n"
proof -
  have total: "lane_counts_total (lanes_snapshot xs) =
      xs ! lane_index Control + xs ! lane_index Interactive + xs ! lane_index Bulk" for xs
    unfolding lane_counts_total_def lanes_snapshot_def lane_counts.select_convs ..
  show ?thesis
    unfolding total lanes_snapshot_get add_lane_nth [OF assms]
    by (cases l) simp_all
qed

theorem lane_counters_snapshot_witness:
  "lane_counts_get (lanes_snapshot (add_lane Bulk 3 [1, 2, 0xFFFFFFFFFFFFFFFF])) Bulk = 2"
  using lane_counters_snapshot [of "[1, 2, 0xFFFFFFFFFFFFFFFF]" Bulk 3 Bulk]
  by (simp add: lanes_snapshot_def)

end
