(* ===== verification/BulkQueue.thy ===== *)
theory BulkQueue
  imports Config "HOL-Library.Sublist"
begin

text \<open>
  \<open>Deliver\<close> and \<open>BulkQueue\<close> of \<open>src/src/server.rs\<close>. The mutex makes every operation atomic, so
  an operation is a function on \<open>BulkState\<close> and the budget. \<open>next\<close> is one pass of its loop: it
  hands out a delivery, says that the queue is closed and empty, or waits for \<open>ready\<close>.

  The runs of a queue are the inductive relation \<open>bulk_reach\<close>: pushes, \<open>next\<close>, \<open>done\<close> and
  \<open>close\<close> in any order, with a record of what was pushed, taken, is on streams and was dropped.
\<close>

section \<open>Deliver\<close>

record deliver =
  d_head :: bytes
  d_topic :: bytes
  d_payload :: bytes

definition deliver_new :: "bytes \<Rightarrow> bytes \<Rightarrow> deliver" where
  "deliver_new topic payload =
     \<lparr>d_head = frame_header DELIVER (length topic + length payload),
      d_topic = topic, d_payload = payload\<rparr>"

definition deliver_len :: "deliver \<Rightarrow> usize" where
  "deliver_len d = length (d_head d) + length (d_topic d) + length (d_payload d)"

definition deliver_chunks :: "deliver \<Rightarrow> bytes list" where
  "deliver_chunks d = [d_head d, d_topic d, d_payload d]"

lemma deliver_len_chunks: "deliver_len d = length (concat (deliver_chunks d))"
  by (simp add: deliver_len_def deliver_chunks_def)

lemma deliver_new_bytes:
  "wf_topic t
     \<Longrightarrow> concat (deliver_chunks (deliver_new (topic_bytes t) p)) = server_encode (Deliver t p)"
  by (simp add: deliver_chunks_def deliver_new_def frame_header_def encode_def wf_topic_def)

section \<open>The queue\<close>

record bulk_queue =
  bq_waiting :: "deliver list"
  bq_waiting_bytes :: usize
  bq_bytes :: usize
  bq_closed :: bool
  bq_budget :: usize

definition bulk_new :: "usize \<Rightarrow> bulk_queue" where
  "bulk_new budget =
     \<lparr>bq_waiting = [], bq_waiting_bytes = 0, bq_bytes = 0, bq_closed = False, bq_budget = budget\<rparr>"

text \<open>The loop of \<open>push\<close> that makes room: how many were dropped, and the state after it.\<close>

fun drop_oldest :: "usize \<Rightarrow> usize \<Rightarrow> deliver list \<Rightarrow> usize \<Rightarrow> usize
    \<Rightarrow> nat \<times> deliver list \<times> usize \<times> usize" where
  "drop_oldest budget sz [] wb b = (0, [], wb, b)"
| "drop_oldest budget sz (oldest # waiting) wb b =
     (if b > 0 \<and> usize_add b sz > budget
      then let (n, r) = drop_oldest budget sz waiting (usize_sub wb (deliver_len oldest))
                          (usize_sub b (deliver_len oldest))
           in (n + 1, r)
      else (0, oldest # waiting, wb, b))"

definition bulk_push :: "deliver \<Rightarrow> bulk_queue \<Rightarrow> nat \<times> bulk_queue" where
  "bulk_push frame q =
     (let sz = deliver_len frame; on_streams = usize_sub (bq_bytes q) (bq_waiting_bytes q)
      in if bq_closed q then (0, q)
         else if on_streams > 0 \<and> usize_add on_streams sz > bq_budget q then (1, q)
         else let (dropped, waiting, wb, b) =
                    drop_oldest (bq_budget q) sz (bq_waiting q) (bq_waiting_bytes q) (bq_bytes q)
              in (dropped, q\<lparr>bq_waiting := waiting @ [frame],
                             bq_waiting_bytes := usize_add wb sz,
                             bq_bytes := usize_add b sz\<rparr>))"

datatype next_result = NextSome deliver | NextNone | NextWait

definition bulk_next :: "bulk_queue \<Rightarrow> next_result \<times> bulk_queue" where
  "bulk_next q =
     (case bq_waiting q of
        frame # waiting \<Rightarrow>
          (NextSome frame, q\<lparr>bq_waiting := waiting,
                             bq_waiting_bytes := usize_sub (bq_waiting_bytes q) (deliver_len frame)\<rparr>)
      | [] \<Rightarrow> (if bq_closed q then NextNone else NextWait, q))"

definition bulk_done :: "usize \<Rightarrow> bulk_queue \<Rightarrow> bulk_queue" where
  "bulk_done sz q = q\<lparr>bq_bytes := usize_sub (bq_bytes q) sz\<rparr>"

definition bulk_close :: "bulk_queue \<Rightarrow> bulk_queue" where
  "bulk_close q = q\<lparr>bq_closed := True\<rparr>"

section \<open>Accounting\<close>

abbreviation total_len :: "deliver list \<Rightarrow> usize" where
  "total_len ds \<equiv> sum_list (map deliver_len ds)"

text \<open>Sizes for which \<open>usize\<close> arithmetic is exact, and the accounting with the sizes \<open>on\<close> of the
  deliveries on streams.\<close>

definition len_ok :: "deliver \<Rightarrow> bool" where
  "len_ok d \<longleftrightarrow> 0 < deliver_len d \<and> deliver_len d < 2 ^ 63"

definition bulk_ok :: "usize list \<Rightarrow> bulk_queue \<Rightarrow> bool" where
  "bulk_ok on q \<longleftrightarrow>
     bq_waiting_bytes q = total_len (bq_waiting q)
     \<and> bq_bytes q = total_len (bq_waiting q) + sum_list on
     \<and> list_all len_ok (bq_waiting q) \<and> list_all (\<lambda>n. 0 < n \<and> n < 2 ^ 63) on
     \<and> bq_budget q < 2 ^ 63
     \<and> (bq_bytes q \<le> bq_budget q \<or> length (bq_waiting q) + length on \<le> 1)"

lemma bulk_ok_bytes: "bulk_ok on q \<Longrightarrow> bq_bytes q < 2 ^ 63"
proof -
  assume ok: "bulk_ok on q"
  consider "bq_bytes q \<le> bq_budget q" | "bq_waiting q = []" "on = []" |
    d where "bq_waiting q = [d]" "on = []" | n where "bq_waiting q = []" "on = [n]"
    using ok by (cases "bq_waiting q"; cases on) (auto simp: bulk_ok_def)
  then show ?thesis using ok by cases (auto simp: bulk_ok_def len_ok_def)
qed

text \<open>What the loop drops: a shortest prefix that makes room.\<close>

lemma drop_oldest_spec:
  assumes "wb = total_len ws" "b = total_len ws + s" "b < 2 ^ 63" "sz < 2 ^ 63"
  shows "\<exists>d \<le> length ws. drop_oldest budget sz ws wb b =
      (d, drop d ws, total_len (drop d ws), total_len (drop d ws) + s)
    \<and> (\<forall>d' < d. total_len (drop d' ws) + s + sz > budget \<and> total_len (drop d' ws) + s > 0)
    \<and> (d = length ws \<or> total_len (drop d ws) + s = 0 \<or> total_len (drop d ws) + s + sz \<le> budget)"
  using assms
proof (induction ws arbitrary: wb b)
  case (Cons w ws)
  have e: "usize_add b sz = b + sz"
    using Cons.prems by (simp add: usize_add_exact)
  have sub: "usize_sub wb (deliver_len w) = total_len ws"
    "usize_sub b (deliver_len w) = total_len ws + s"
    using Cons.prems by (simp_all add: usize_sub_exact)
  show ?case
  proof (cases "b > 0 \<and> b + sz > budget")
    case True
    obtain d where d: "d \<le> length ws"
      "drop_oldest budget sz ws (total_len ws) (total_len ws + s) =
        (d, drop d ws, total_len (drop d ws), total_len (drop d ws) + s)"
      "\<forall>d' < d. total_len (drop d' ws) + s + sz > budget \<and> total_len (drop d' ws) + s > 0"
      "d = length ws \<or> total_len (drop d ws) + s = 0 \<or> total_len (drop d ws) + s + sz \<le> budget"
      using Cons.IH [of "total_len ws" "total_len ws + s"] Cons.prems by auto
    show ?thesis
      using d True e sub Cons.prems(2)
      by (intro exI [of _ "Suc d"]) (auto simp: less_Suc_eq_0_disj)
  next
    case False
    then have "drop_oldest budget sz (w # ws) wb b = (0, w # ws, wb, b)" by (auto simp: e)
    moreover have "total_len (w # ws) + s = 0 \<or> total_len (w # ws) + s + sz \<le> budget"
      using False Cons.prems(2) by linarith
    ultimately show ?thesis using Cons.prems(1,2) by (intro exI [of _ 0]) (simp del: sum_list.Cons list.map)
  qed
qed simp

text \<open>The behaviour of \<open>push\<close> on every branch.\<close>

lemma bulk_push_cases:
  assumes ok: "bulk_ok on q" and f: "len_ok frame"
  obtains (closed) "bq_closed q" "bulk_push frame q = (0, q)"
  | (refused) "\<not> bq_closed q" "0 < sum_list on" "sum_list on + deliver_len frame > bq_budget q"
      "bulk_push frame q = (1, q)"
  | (queued) d where "\<not> bq_closed q" "d \<le> length (bq_waiting q)"
      "bulk_push frame q =
        (d, q\<lparr>bq_waiting := drop d (bq_waiting q) @ [frame],
              bq_waiting_bytes := total_len (drop d (bq_waiting q)) + deliver_len frame,
              bq_bytes := total_len (drop d (bq_waiting q)) + sum_list on + deliver_len frame\<rparr>)"
      "\<forall>d' < d. total_len (drop d' (bq_waiting q)) + sum_list on + deliver_len frame > bq_budget q"
      "drop d (bq_waiting q) = [] \<and> on = []
        \<or> total_len (drop d (bq_waiting q)) + sum_list on + deliver_len frame \<le> bq_budget q"
proof -
  let ?ws = "bq_waiting q" and ?s = "sum_list on" and ?n = "deliver_len frame"
  have b: "bq_bytes q < 2 ^ 63" using bulk_ok_bytes [OF ok] .
  have acc: "bq_waiting_bytes q = total_len ?ws" "bq_bytes q = total_len ?ws + ?s"
    using ok by (simp_all add: bulk_ok_def)
  have n: "?n < 2 ^ 63" using f by (simp add: len_ok_def)
  have on: "usize_sub (bq_bytes q) (bq_waiting_bytes q) = ?s" "usize_add ?s ?n = ?s + ?n"
    using acc b n by (simp_all add: usize_sub_exact usize_add_exact)
  have zero: "on = []" if "?s = 0"
    using that ok by (cases on) (auto simp: bulk_ok_def)
  obtain d where d: "d \<le> length ?ws"
    "drop_oldest (bq_budget q) ?n ?ws (bq_waiting_bytes q) (bq_bytes q) =
      (d, drop d ?ws, total_len (drop d ?ws), total_len (drop d ?ws) + ?s)"
    "\<forall>d' < d. total_len (drop d' ?ws) + ?s + ?n > bq_budget q \<and> total_len (drop d' ?ws) + ?s > 0"
    "d = length ?ws \<or> total_len (drop d ?ws) + ?s = 0 \<or> total_len (drop d ?ws) + ?s + ?n \<le> bq_budget q"
    using drop_oldest_spec [OF acc b n, of "bq_budget q"] by blast
  have le: "total_len (drop d ?ws) \<le> total_len ?ws"
    by (metis append_take_drop_id le_add2 map_append sum_list_append)
  then have exact: "usize_add (total_len (drop d ?ws)) ?n = total_len (drop d ?ws) + ?n"
    "usize_add (total_len (drop d ?ws) + ?s) ?n = total_len (drop d ?ws) + ?s + ?n"
    using b n acc by (simp_all add: usize_add_exact)
  show thesis
  proof (cases "bq_closed q")
    case True
    then show thesis using closed by (simp add: bulk_push_def)
  next
    case op: False
    show thesis
    proof (cases "?s > 0 \<and> ?s + ?n > bq_budget q")
      case True
      then show thesis using refused op on by (simp add: bulk_push_def Let_def)
    next
      case False
      have "drop d ?ws = [] \<and> on = [] \<or> total_len (drop d ?ws) + ?s + ?n \<le> bq_budget q"
      proof (cases "drop d ?ws")
        case Nil
        then show ?thesis using d(4) zero False by auto
      next
        case (Cons w ws)
        moreover have "w \<in> set ?ws" using Cons by (metis in_set_dropD list.set_intros(1))
        ultimately have "0 < total_len (drop d ?ws)"
          using ok by (auto simp: bulk_ok_def list_all_iff len_ok_def)
        moreover have "d \<noteq> length ?ws" using Cons by auto
        ultimately show ?thesis using d(4) by linarith
      qed
      then show thesis
        using queued [of d] op False on d exact by (simp add: bulk_push_def Let_def)
    qed
  qed
qed

section \<open>Runs\<close>

text \<open>A run's state: the queue, the sizes on streams, and the record of what was pushed before
  closing, taken by the dispatcher, and dropped.\<close>

record bulk_run =
  br_queue :: bulk_queue
  br_on :: "usize list"
  br_pushed :: "deliver list"
  br_taken :: "deliver list"
  br_dropped :: nat

definition bulk_run_new :: "usize \<Rightarrow> bulk_run" where
  "bulk_run_new budget =
     \<lparr>br_queue = bulk_new budget, br_on = [], br_pushed = [], br_taken = [], br_dropped = 0\<rparr>"

inductive bulk_reach :: "usize \<Rightarrow> bulk_run \<Rightarrow> bool" for budget where
  start: "bulk_reach budget (bulk_run_new budget)"
| push: "bulk_reach budget s \<Longrightarrow> len_ok f \<Longrightarrow> bulk_push f (br_queue s) = (n, q)
    \<Longrightarrow> bulk_reach budget (s\<lparr>br_queue := q, br_dropped := br_dropped s + n,
          br_pushed := br_pushed s @ (if bq_closed (br_queue s) then [] else [f])\<rparr>)"
| take: "bulk_reach budget s \<Longrightarrow> bulk_next (br_queue s) = (NextSome f, q)
    \<Longrightarrow> bulk_reach budget (s\<lparr>br_queue := q, br_on := br_on s @ [deliver_len f],
          br_taken := br_taken s @ [f]\<rparr>)"
| finish: "bulk_reach budget s \<Longrightarrow> n \<in> set (br_on s)
    \<Longrightarrow> bulk_reach budget (s\<lparr>br_queue := bulk_done n (br_queue s), br_on := remove1 n (br_on s)\<rparr>)"
| close: "bulk_reach budget s
    \<Longrightarrow> bulk_reach budget (s\<lparr>br_queue := bulk_close (br_queue s)\<rparr>)"

lemma bulk_next_some:
  assumes "bulk_ok on q" "bulk_next q = (NextSome f, q')"
  shows "bq_waiting q = f # bq_waiting q' \<and> bulk_ok (on @ [deliver_len f]) q'
    \<and> bq_closed q' = bq_closed q \<and> bq_budget q' = bq_budget q"
proof -
  obtain ws where ws: "bq_waiting q = f # ws"
    and q': "q' = q\<lparr>bq_waiting := ws, bq_waiting_bytes := usize_sub (bq_waiting_bytes q) (deliver_len f)\<rparr>"
    using assms(2) by (auto simp: bulk_next_def split: list.splits if_splits)
  have "total_len (f # ws) < 2 ^ 64"
    using bulk_ok_bytes [OF assms(1)] assms(1) ws by (simp add: bulk_ok_def)
  then have "usize_sub (bq_waiting_bytes q) (deliver_len f) = total_len ws"
    using assms(1) ws by (simp add: bulk_ok_def usize_sub_exact)
  then show ?thesis using assms(1) ws q' by (auto simp: bulk_ok_def len_ok_def)
qed

lemma bulk_done_ok:
  assumes "bulk_ok on q" "n \<in> set on"
  shows "bulk_ok (remove1 n on) (bulk_done n q)"
proof -
  have sum: "sum_list on = n + sum_list (remove1 n on)" using assms(2) by (rule sum_list_map_remove1 [where f = id, simplified])
  have "usize_sub (bq_bytes q) n = bq_bytes q - n"
    using bulk_ok_bytes [OF assms(1)] assms(1) sum
    by (intro usize_sub_exact) (simp_all add: bulk_ok_def)
  moreover have "length (remove1 n on) \<le> length on" by (simp add: length_remove1)
  ultimately show ?thesis
    using assms(1) sum set_remove1_subset [of n on] by (auto simp: bulk_ok_def bulk_done_def list_all_iff)
qed

lemma bulk_push_ok:
  assumes "bulk_ok on q" "len_ok f" "bulk_push f q = (n, q')"
  shows "bulk_ok on q' \<and> bq_closed q' = bq_closed q \<and> bq_budget q' = bq_budget q"
  using assms(1,2)
proof (cases rule: bulk_push_cases)
  case (queued d)
  moreover have "list_all len_ok (drop d (bq_waiting q))"
    using assms(1) by (auto simp: bulk_ok_def list_all_iff dest: in_set_dropD)
  ultimately show ?thesis
    using assms by (auto simp: bulk_ok_def)
qed (use assms in auto)

lemma bulk_reach_ok:
  assumes "bulk_reach budget s" "budget < 2 ^ 63"
  shows "bulk_ok (br_on s) (br_queue s) \<and> bq_budget (br_queue s) = budget"
  using assms
proof (induction rule: bulk_reach.induct)
  case start
  then show ?case by (simp add: bulk_run_new_def bulk_new_def bulk_ok_def)
next
  case (push s f n q)
  then show ?case using bulk_push_ok [of "br_on s" "br_queue s" f n q] by simp
next
  case (take s f q)
  then show ?case using bulk_next_some [of "br_on s" "br_queue s"] by auto
next
  case (finish s n)
  then show ?case using bulk_done_ok [of "br_on s" "br_queue s"] by (simp add: bulk_done_def)
next
  case (close s)
  moreover have "bulk_ok on (bulk_close q) = bulk_ok on q" for on q
    by (simp add: bulk_ok_def bulk_close_def)
  ultimately show ?case by (simp add: bulk_close_def)
qed

lemma subseq_drop_app:
  assumes "subseq (xs @ ys) zs"
  shows "subseq (xs @ drop d ys @ [f]) (zs @ [f])"
proof -
  have "subseq (drop d ys) ys" by (simp add: suffix_drop suffix_imp_subseq)
  then have "subseq (xs @ drop d ys) (xs @ ys)" by (intro list_emb_append_mono) simp_all
  then have "subseq (xs @ drop d ys) zs" using assms by (rule subseq_order.order_trans)
  then have "subseq ((xs @ drop d ys) @ [f]) (zs @ [f])" by (rule list_emb_append_mono) simp
  then show ?thesis by simp
qed

lemma bulk_reach_log:
  assumes "bulk_reach budget s" "budget < 2 ^ 63"
  shows "subseq (br_taken s @ bq_waiting (br_queue s)) (br_pushed s)
    \<and> length (br_pushed s) = length (br_taken s) + length (bq_waiting (br_queue s)) + br_dropped s"
  using assms
proof (induction rule: bulk_reach.induct)
  case start
  then show ?case by (simp add: bulk_run_new_def bulk_new_def)
next
  case (push s f n q)
  have ok: "bulk_ok (br_on s) (br_queue s)" using bulk_reach_ok push by blast
  note IH = push.IH [OF push.prems]
  from ok push.hyps(2) show ?case
  proof (cases rule: bulk_push_cases)
    case (refused)
    then show ?thesis using push.hyps(3) IH by (auto intro: subseq_order.order_trans)
  next
    case (queued d)
    then show ?thesis
      using push.hyps(3) IH subseq_drop_app [of "br_taken s" "bq_waiting (br_queue s)"] by auto
  qed (use push.hyps(3) IH in auto)
next
  case (take s f q)
  have "bulk_ok (br_on s) (br_queue s)" using bulk_reach_ok take by blast
  then have "bq_waiting (br_queue s) = f # bq_waiting q"
    using bulk_next_some take.hyps(2) by blast
  then show ?case using take.IH [OF take.prems] by simp
qed (simp_all add: bulk_done_def bulk_close_def)

section \<open>Properties\<close>

text \<open>C25: what \<open>push\<close> does, on every branch: nothing once closed; the delivery itself is dropped
  when those on streams leave no room; otherwise it is queued last and exactly the shortest
  prefix of the waiting ones that makes room (or all of them) is dropped and counted.\<close>

theorem bulk_push_drops:
  assumes "bulk_ok on q" "len_ok f" "bulk_push f q = (n, q')"
  shows "if bq_closed q then n = 0 \<and> q' = q
    else if 0 < sum_list on \<and> sum_list on + deliver_len f > bq_budget q then n = 1 \<and> q' = q
    else n \<le> length (bq_waiting q) \<and> bq_waiting q' = drop n (bq_waiting q) @ [f]
      \<and> (\<forall>d < n. total_len (drop d (bq_waiting q)) + sum_list on + deliver_len f > bq_budget q)
      \<and> (n = length (bq_waiting q) \<or> bq_bytes q' \<le> bq_budget q)"
  using assms(1,2)
proof (cases rule: bulk_push_cases)
  case (queued d)
  have "\<not> (0 < sum_list on \<and> sum_list on + deliver_len f > bq_budget q)"
    using queued(5) by auto
  then show ?thesis using queued assms(3) by auto
qed (use assms(3) in auto)

definition payload_of :: "nat \<Rightarrow> deliver" where
  "payload_of n = deliver_new (replicate 32 1) (replicate n 0)"

definition three_waiting :: bulk_queue where
  "three_waiting =
     snd (bulk_push (payload_of 3) (snd (bulk_push (payload_of 2)
       (snd (bulk_push (payload_of 1) (bulk_new 120))))))"

lemma payload_of_len: "deliver_len (payload_of n) = 37 + n"
  by (simp add: payload_of_def deliver_len_def deliver_new_def frame_header_def put_u32_def)

lemma three_waiting_simps:
  "three_waiting = \<lparr>bq_waiting = [payload_of 1, payload_of 2, payload_of 3],
     bq_waiting_bytes = 117, bq_bytes = 117, bq_closed = False, bq_budget = 120\<rparr>"
  by (simp add: three_waiting_def bulk_push_def bulk_new_def payload_of_len usize_add_def
      usize_sub_def)

theorem bulk_push_drops_witness:
  "bq_waiting (snd (bulk_push (payload_of 40) three_waiting)) = [payload_of 3, payload_of 40]"
proof -
  have ok: "bulk_ok [] three_waiting" "len_ok (payload_of 40)"
    by (simp_all add: bulk_ok_def len_ok_def three_waiting_simps payload_of_len)
  have "fst (bulk_push (payload_of 40) three_waiting) = 2"
    by (simp add: bulk_push_def three_waiting_simps payload_of_len usize_add_def usize_sub_def)
  then show ?thesis
    using bulk_push_drops [OF ok prod.collapse [symmetric]] by (simp add: three_waiting_simps)
qed

text \<open>A run with one drop and one delivery on a stream.\<close>

definition sample_run :: bulk_run where
  "sample_run =
     \<lparr>br_queue = \<lparr>bq_waiting = [], bq_waiting_bytes = 0, bq_bytes = 39, bq_closed = False,
        bq_budget = 60\<rparr>,
      br_on = [39], br_pushed = [payload_of 1, payload_of 2], br_taken = [payload_of 2],
      br_dropped = 1\<rparr>"

lemma sample_run_reach: "bulk_reach 60 sample_run"
proof -
  note evals = bulk_run_new_def bulk_new_def bulk_push_def bulk_next_def payload_of_len
    usize_add_def usize_sub_def len_ok_def sample_run_def
  have 1: "bulk_reach 60 \<lparr>br_queue = \<lparr>bq_waiting = [payload_of 1], bq_waiting_bytes = 38,
        bq_bytes = 38, bq_closed = False, bq_budget = 60\<rparr>,
      br_on = [], br_pushed = [payload_of 1], br_taken = [], br_dropped = 0\<rparr>"
    using bulk_reach.push [OF bulk_reach.start [of 60], of "payload_of 1"] by (simp add: evals)
  have 2: "bulk_reach 60 \<lparr>br_queue = \<lparr>bq_waiting = [payload_of 2], bq_waiting_bytes = 39,
        bq_bytes = 39, bq_closed = False, bq_budget = 60\<rparr>,
      br_on = [], br_pushed = [payload_of 1, payload_of 2], br_taken = [], br_dropped = 1\<rparr>"
    using bulk_reach.push [OF 1, of "payload_of 2"] by (simp add: evals)
  show ?thesis using bulk_reach.take [OF 2] by (simp add: evals)
qed

text \<open>In every run the byte count is exact, waiting plus on streams, and it stays within the
  bulk budget unless a single delivery is all there is.\<close>

theorem bulk_within_budget:
  assumes "bulk_reach budget s" "budget < 2 ^ 63"
  shows "bq_bytes (br_queue s) = total_len (bq_waiting (br_queue s)) + sum_list (br_on s)
    \<and> (bq_bytes (br_queue s) \<le> budget \<or> length (bq_waiting (br_queue s)) + length (br_on s) \<le> 1)"
  using bulk_reach_ok [OF assms] by (auto simp: bulk_ok_def)

theorem bulk_within_budget_witness:
  "bq_bytes (br_queue sample_run) \<le> 60
   \<or> length (bq_waiting (br_queue sample_run)) + length (br_on sample_run) \<le> 1"
  using bulk_within_budget [OF sample_run_reach] by auto

text \<open>Deliveries leave the queue in the order they were published, none twice, and every
  one pushed before closing was taken, still waits, or was counted as dropped.\<close>

theorem bulk_fifo:
  assumes "bulk_reach budget s" "budget < 2 ^ 63"
  shows "subseq (br_taken s @ bq_waiting (br_queue s)) (br_pushed s)
    \<and> length (br_pushed s) = length (br_taken s) + length (bq_waiting (br_queue s)) + br_dropped s"
  by (rule bulk_reach_log [OF assms])

theorem bulk_fifo_witness: "subseq [payload_of 2] [payload_of 1, payload_of 2]"
  using bulk_fifo [OF sample_run_reach] by (simp add: sample_run_def)

end
