(* ===== verification/Outbound.thy ===== *)
theory Outbound
  imports BulkQueue Snapshots "HOL-Library.Multiset"
begin

text \<open>
  The queues towards one client, from \<open>src/src/server.rs\<close>: \<open>SessionItem\<close>, \<open>Budget\<close>,
  \<open>Outbound\<close> and the methods of \<open>MemberHandle\<close>. A handle holds the connection's id; its
  \<open>Arc<Outbound>\<close> and \<open>Connection\<close> are the entry of that id in the store \<open>n_conns\<close>, so that
  clones of a handle alias. \<open>Connection::close\<close> is recorded as the list of calls made.

  \<open>c_hand\<close> holds the sizes that the writers have received and not yet released, \<open>c_bulk_on\<close>
  those of the bulk deliveries on streams: with them every byte the budgets count has an owner.

  The interface that rooms rely on is the locale \<open>conn_effect\<close>: an operation on one handle is a
  function of that connection alone, so a fan-out touches each member once, whatever the order.
\<close>

section \<open>Queues\<close>

datatype session_item = FrameItem bytes | SnapshotItem topic "member list"

record 'a queued =
  q_item :: 'a
  q_size :: usize

text \<open>An unbounded \<open>mpsc\<close> channel: what is in it, and whether its receiver is alive.\<close>

record 'a chan =
  ch_items :: "'a list"
  ch_rx :: bool

definition chan_new :: "'a chan" where
  "chan_new = \<lparr>ch_items = [], ch_rx = True\<rparr>"

definition chan_send :: "'a \<Rightarrow> 'a chan \<Rightarrow> bool \<times> 'a chan" where
  "chan_send x c = (if ch_rx c then (True, c\<lparr>ch_items := ch_items c @ [x]\<rparr>) else (False, c))"

record budget =
  b_queued :: usize
  b_limit :: usize
  b_overflowed :: bool

definition budget_new :: "usize \<Rightarrow> budget" where
  "budget_new limit = \<lparr>b_queued = 0, b_limit = limit, b_overflowed = False\<rparr>"

definition budget_release :: "usize \<Rightarrow> budget \<Rightarrow> budget" where
  "budget_release n b = b\<lparr>b_queued := usize_sub (b_queued b) n\<rparr>"

record conn =
  c_budget :: budget
  c_session :: "session_item queued chan"
  c_lanes :: "deliver queued chan list"
  c_bulk :: bulk_queue
  c_closes :: "(close_code \<times> bytes) list"
  c_datagrams :: "bytes list"
  c_hand :: "usize list"
  c_bulk_on :: "usize list"

text \<open>The queues as \<open>serve_connection\<close> creates them.\<close>

definition conn_new :: "limits \<Rightarrow> conn" where
  "conn_new limits =
     \<lparr>c_budget = budget_new (outbox_bytes limits), c_session = chan_new,
      c_lanes = [chan_new, chan_new], c_bulk = bulk_new (bulk_outbox_bytes limits),
      c_closes = [], c_datagrams = [], c_hand = [], c_bulk_on = []\<rparr>"

definition conn_close :: "close_code \<Rightarrow> bytes \<Rightarrow> conn \<Rightarrow> conn" where
  "conn_close code msg c = c\<lparr>c_closes := c_closes c @ [(code, msg)]\<rparr>"

definition conn_release :: "usize \<Rightarrow> conn \<Rightarrow> conn" where
  "conn_release n c = c\<lparr>c_budget := budget_release n (c_budget c)\<rparr>"

section \<open>The methods of a handle, on its connection\<close>

text \<open>\<open>reserve\<close>: the load, \<open>fetch_add\<close>, and the \<open>swap\<close> that lets only the first overflow close
  the connection.\<close>

definition reserve :: "usize \<Rightarrow> conn \<Rightarrow> bool \<times> conn" where
  "reserve n c =
     (if b_overflowed (c_budget c) then (False, c)
      else let before = b_queued (c_budget c);
               c1 = c\<lparr>c_budget := (c_budget c)\<lparr>b_queued := usize_add before n\<rparr>\<rparr>
           in if before > 0 \<and> usize_add before n > b_limit (c_budget c)
              then let c2 = conn_release n c1;
                       was = b_overflowed (c_budget c2);
                       c3 = c2\<lparr>c_budget := (c_budget c2)\<lparr>b_overflowed := True\<rparr>\<rparr>
                   in (False, if \<not> was then conn_close CloseSlowConsumer (ascii ''slow consumer'') c3
                              else c3)
              else (True, c1))"

definition push_session :: "session_item \<Rightarrow> usize \<Rightarrow> conn \<Rightarrow> conn" where
  "push_session item n c =
     (let (ok, c1) = reserve n c
      in if ok
         then let (sent, ch) = chan_send \<lparr>q_item = item, q_size = n\<rparr> (c_session c1)
              in if sent then c1\<lparr>c_session := ch\<rparr> else conn_release n c1
         else c1)"

definition push_frame :: "bytes \<Rightarrow> conn \<Rightarrow> conn" where
  "push_frame frame c = push_session (FrameItem frame) (length frame) c"

text \<open>\<open>deliver\<close>: the connection after it, and how many bulk deliveries it dropped.\<close>

definition deliver :: "lane \<Rightarrow> deliver \<Rightarrow> conn \<Rightarrow> nat \<times> conn" where
  "deliver lane frame c =
     (case lane of
        Bulk \<Rightarrow> let (dropped, q) = bulk_push frame (c_bulk c) in (dropped, c\<lparr>c_bulk := q\<rparr>)
      | _ \<Rightarrow>
          let n = deliver_len frame; (ok, c1) = reserve n c
          in if ok
             then let (sent, ch) = chan_send \<lparr>q_item = frame, q_size = n\<rparr> (c_lanes c1 ! lane_index lane)
                  in (0, if sent then c1\<lparr>c_lanes := (c_lanes c1)[lane_index lane := ch]\<rparr>
                         else conn_release n c1)
             else (0, c1))"

definition error_frame :: "topic option \<Rightarrow> bytes \<Rightarrow> bytes" where
  "error_frame topic reason = server_encode (Error topic reason)"

text \<open>Dropping the last handle closes the bulk queue.\<close>

definition outbound_drop :: "conn \<Rightarrow> conn" where
  "outbound_drop c = c\<lparr>c_bulk := bulk_close (c_bulk c)\<rparr>"

section \<open>What the writers do to the queues\<close>

text \<open>\<open>rx.recv()\<close> of the session writer and of a lane writer, \<open>budget.release\<close> after the write,
  the receiver dropped when a writer ends, and the dispatcher's \<open>next\<close> and \<open>done\<close>.\<close>

definition session_recv :: "conn \<Rightarrow> (session_item queued \<times> conn) option" where
  "session_recv c =
     (case ch_items (c_session c) of
        [] \<Rightarrow> None
      | q # qs \<Rightarrow> Some (q, c\<lparr>c_session := (c_session c)\<lparr>ch_items := qs\<rparr>, c_hand := c_hand c @ [q_size q]\<rparr>))"

definition lane_recv :: "lane \<Rightarrow> conn \<Rightarrow> (deliver queued \<times> conn) option" where
  "lane_recv lane c =
     (case ch_items (c_lanes c ! lane_index lane) of
        [] \<Rightarrow> None
      | q # qs \<Rightarrow> Some (q, c\<lparr>c_lanes := (c_lanes c)[lane_index lane :=
                                 (c_lanes c ! lane_index lane)\<lparr>ch_items := qs\<rparr>],
                              c_hand := c_hand c @ [q_size q]\<rparr>))"

definition writer_release :: "usize \<Rightarrow> conn \<Rightarrow> conn" where
  "writer_release n c = (conn_release n c)\<lparr>c_hand := remove1 n (c_hand c)\<rparr>"

definition session_rx_drop :: "conn \<Rightarrow> conn" where
  "session_rx_drop c =
     c\<lparr>c_session := \<lparr>ch_items = [], ch_rx = False\<rparr>,
       c_hand := c_hand c @ map q_size (ch_items (c_session c))\<rparr>"

definition lane_rx_drop :: "lane \<Rightarrow> conn \<Rightarrow> conn" where
  "lane_rx_drop lane c =
     c\<lparr>c_lanes := (c_lanes c)[lane_index lane := \<lparr>ch_items = [], ch_rx = False\<rparr>],
       c_hand := c_hand c @ map q_size (ch_items (c_lanes c ! lane_index lane))\<rparr>"

definition dispatch_next :: "conn \<Rightarrow> (deliver \<times> conn) option" where
  "dispatch_next c =
     (case bulk_next (c_bulk c) of
        (NextSome f, q) \<Rightarrow> Some (f, c\<lparr>c_bulk := q, c_bulk_on := c_bulk_on c @ [deliver_len f]\<rparr>)
      | _ \<Rightarrow> None)"

definition dispatch_done :: "usize \<Rightarrow> conn \<Rightarrow> conn" where
  "dispatch_done n c = c\<lparr>c_bulk := bulk_done n (c_bulk c), c_bulk_on := remove1 n (c_bulk_on c)\<rparr>"

section \<open>Every counted byte has an owner\<close>

definition owned :: "conn \<Rightarrow> usize multiset" where
  "owned c = mset (map q_size (ch_items (c_session c)))
     + mset (concat (map (\<lambda>ch. map q_size (ch_items ch)) (c_lanes c))) + mset (c_hand c)"

definition size_ok :: "usize \<Rightarrow> bool" where
  "size_ok n \<longleftrightarrow> 0 < n \<and> n < 2 ^ 63"

definition slow_close :: "close_code \<times> bytes" where
  "slow_close = (CloseSlowConsumer, ascii ''slow consumer'')"

definition conn_ok :: "conn \<Rightarrow> bool" where
  "conn_ok c \<longleftrightarrow>
     length (c_lanes c) = 2
     \<and> b_queued (c_budget c) = sum_mset (owned c)
     \<and> (\<forall>n \<in># owned c. size_ok n)
     \<and> b_limit (c_budget c) < 2 ^ 63
     \<and> (b_queued (c_budget c) \<le> b_limit (c_budget c) \<or> size (owned c) \<le> 1)
     \<and> filter (\<lambda>x. fst x = CloseSlowConsumer) (c_closes c) =
         (if b_overflowed (c_budget c) then [slow_close] else [])
     \<and> bulk_ok (c_bulk_on c) (c_bulk c)"

lemma conn_ok_lanes: "conn_ok c \<Longrightarrow> \<exists>a b. c_lanes c = [a, b]"
  by (auto simp: conn_ok_def length_Suc_conv numeral_2_eq_2)

lemma conn_ok_queued: "conn_ok c \<Longrightarrow> b_queued (c_budget c) < 2 ^ 63"
proof -
  assume ok: "conn_ok c"
  consider "b_queued (c_budget c) \<le> b_limit (c_budget c)" | "owned c = {#}" | n where "owned c = {#n#}"
    using ok unfolding conn_ok_def
    by (metis le_less less_one size_1_singleton_mset size_eq_0_iff_empty)
  then show ?thesis using ok by cases (auto simp: conn_ok_def size_ok_def)
qed

lemma conn_new_ok:
  "outbox_bytes l < 2 ^ 63 \<Longrightarrow> bulk_outbox_bytes l < 2 ^ 63 \<Longrightarrow> conn_ok (conn_new l)"
  by (simp add: conn_ok_def conn_new_def owned_def budget_new_def chan_new_def bulk_ok_def bulk_new_def)

text \<open>The behaviour of \<open>reserve\<close> on every branch.\<close>

lemma reserve_cases:
  assumes ok: "conn_ok c" and n: "size_ok n"
  obtains (gone) "b_overflowed (c_budget c)" "reserve n c = (False, c)"
  | (over) "\<not> b_overflowed (c_budget c)" "owned c \<noteq> {#}"
      "sum_mset (owned c) + n > b_limit (c_budget c)"
      "reserve n c = (False, c\<lparr>c_budget := (c_budget c)\<lparr>b_overflowed := True\<rparr>,
                               c_closes := c_closes c @ [slow_close]\<rparr>)"
  | (fits) "\<not> b_overflowed (c_budget c)"
      "owned c = {#} \<or> sum_mset (owned c) + n \<le> b_limit (c_budget c)"
      "reserve n c = (True, c\<lparr>c_budget := (c_budget c)\<lparr>b_queued := sum_mset (owned c) + n\<rparr>\<rparr>)"
proof -
  let ?b = "c_budget c"
  have q: "b_queued ?b = sum_mset (owned c)" "b_queued ?b < 2 ^ 63"
    using ok conn_ok_queued by (auto simp: conn_ok_def)
  have pos: "0 < b_queued ?b \<longleftrightarrow> owned c \<noteq> {#}"
    using ok by (cases "owned c") (auto simp: conn_ok_def size_ok_def)
  have add: "usize_add (b_queued ?b) n = b_queued ?b + n"
    using q n by (intro usize_add_exact) (simp add: size_ok_def)
  have sub: "usize_sub (b_queued ?b + n) n = b_queued ?b"
    using q n usize_sub_exact [of n "b_queued ?b + n"] by (simp add: size_ok_def)
  have same: "?b\<lparr>b_queued := b_queued ?b, b_overflowed := True\<rparr> = ?b\<lparr>b_overflowed := True\<rparr>"
    by simp
  consider "b_overflowed ?b" | "\<not> b_overflowed ?b" "0 < b_queued ?b" "b_queued ?b + n > b_limit ?b" |
    "\<not> b_overflowed ?b" "\<not> (0 < b_queued ?b \<and> b_queued ?b + n > b_limit ?b)" by argo
  then show thesis
  proof cases
    case 1
    then show thesis using gone by (simp add: reserve_def)
  next
    case 2
    moreover have "reserve n c = (False, c\<lparr>c_budget := ?b\<lparr>b_overflowed := True\<rparr>,
        c_closes := c_closes c @ [slow_close]\<rparr>)"
      using 2 add sub same
      by (simp add: reserve_def Let_def conn_release_def budget_release_def conn_close_def slow_close_def)
    ultimately show thesis using over pos q by simp
  next
    case 3
    moreover have "owned c = {#} \<or> sum_mset (owned c) + n \<le> b_limit ?b"
      using 3(2) [unfolded pos] unfolding q(1) by (meson not_le)
    moreover have "reserve n c = (True, c\<lparr>c_budget := ?b\<lparr>b_queued := sum_mset (owned c) + n\<rparr>\<rparr>)"
      using 3 add q(1) by (auto simp: reserve_def Let_def)
    ultimately show thesis using fits by simp
  qed
qed

lemma conn_ok_moved:
  assumes "conn_ok c" "owned c' = owned c" "length (c_lanes c') = 2" "c_budget c' = c_budget c"
    and "c_closes c' = c_closes c" "bulk_ok (c_bulk_on c') (c_bulk c')"
  shows "conn_ok c'"
  using assms by (auto simp: conn_ok_def)

text \<open>Adding an item that fits keeps the invariant, wherever it is queued.\<close>

lemma conn_ok_fits:
  assumes "conn_ok c" "size_ok n" "owned c = {#} \<or> sum_mset (owned c) + n \<le> b_limit (c_budget c)"
    and "owned c' = owned c + {#n#}" "length (c_lanes c') = 2"
    and "c_budget c' = (c_budget c)\<lparr>b_queued := sum_mset (owned c) + n\<rparr>"
    and "c_closes c' = c_closes c" "c_bulk_on c' = c_bulk_on c" "c_bulk c' = c_bulk c"
  shows "conn_ok c'"
  using assms by (auto simp: conn_ok_def)

lemma conn_ok_over:
  assumes "conn_ok c" "\<not> b_overflowed (c_budget c)"
  shows "conn_ok (c\<lparr>c_budget := (c_budget c)\<lparr>b_overflowed := True\<rparr>, c_closes := c_closes c @ [slow_close]\<rparr>)"
    (is "conn_ok ?c")
proof -
  have "owned ?c = owned c" by (simp add: owned_def)
  then show ?thesis using assms by (auto simp: conn_ok_def slow_close_def)
qed

lemma release_reserved:
  assumes "conn_ok c" "size_ok n"
  shows "conn_release n (c\<lparr>c_budget := (c_budget c)\<lparr>b_queued := sum_mset (owned c) + n\<rparr>\<rparr>) = c"
proof -
  have "usize_sub (sum_mset (owned c) + n) n = b_queued (c_budget c)"
  proof -
    have "b_queued (c_budget c) = sum_mset (owned c)" using assms(1) by (simp add: conn_ok_def)
    with conn_ok_queued [OF assms(1)] assms(2) show ?thesis
      using usize_sub_exact [of n "sum_mset (owned c) + n"] by (simp add: size_ok_def)
  qed
  then show ?thesis by (simp add: conn_release_def budget_release_def)
qed

text \<open>The two ways into the budgeted queues, on every branch: refused (the connection was or is
  now dropped as slow), no receiver (nothing changes), or queued last.\<close>

lemma push_session_cases:
  assumes ok: "conn_ok c" and n: "size_ok n"
  obtains (gone) "b_overflowed (c_budget c)" "push_session item n c = c"
  | (over) "\<not> b_overflowed (c_budget c)" "owned c \<noteq> {#}"
      "sum_mset (owned c) + n > b_limit (c_budget c)"
      "push_session item n c = c\<lparr>c_budget := (c_budget c)\<lparr>b_overflowed := True\<rparr>,
                                 c_closes := c_closes c @ [slow_close]\<rparr>"
  | (no_rx) "\<not> ch_rx (c_session c)" "push_session item n c = c"
  | (queued) "\<not> b_overflowed (c_budget c)" "ch_rx (c_session c)"
      "owned c = {#} \<or> sum_mset (owned c) + n \<le> b_limit (c_budget c)"
      "push_session item n c = c\<lparr>c_budget := (c_budget c)\<lparr>b_queued := sum_mset (owned c) + n\<rparr>,
         c_session := (c_session c)\<lparr>ch_items := ch_items (c_session c) @ [\<lparr>q_item = item, q_size = n\<rparr>]\<rparr>\<rparr>"
  using ok n
proof (cases rule: reserve_cases)
  case fits
  then show ?thesis
    using no_rx queued release_reserved [OF ok n]
    by (cases "ch_rx (c_session c)") (simp_all add: push_session_def chan_send_def)
qed (use gone over in \<open>simp_all add: push_session_def\<close>)

lemma deliver_cases:
  assumes ok: "conn_ok c" and f: "len_ok f" and lane: "lane \<noteq> Bulk"
  obtains (gone) "b_overflowed (c_budget c)" "deliver lane f c = (0, c)"
  | (over) "\<not> b_overflowed (c_budget c)" "owned c \<noteq> {#}"
      "sum_mset (owned c) + deliver_len f > b_limit (c_budget c)"
      "deliver lane f c = (0, c\<lparr>c_budget := (c_budget c)\<lparr>b_overflowed := True\<rparr>,
                                c_closes := c_closes c @ [slow_close]\<rparr>)"
  | (no_rx) "\<not> ch_rx (c_lanes c ! lane_index lane)" "deliver lane f c = (0, c)"
  | (queued) "\<not> b_overflowed (c_budget c)" "ch_rx (c_lanes c ! lane_index lane)"
      "owned c = {#} \<or> sum_mset (owned c) + deliver_len f \<le> b_limit (c_budget c)"
      "deliver lane f c = (0, c\<lparr>c_budget := (c_budget c)\<lparr>b_queued := sum_mset (owned c) + deliver_len f\<rparr>,
         c_lanes := (c_lanes c)[lane_index lane := (c_lanes c ! lane_index lane)\<lparr>ch_items :=
           ch_items (c_lanes c ! lane_index lane) @ [\<lparr>q_item = f, q_size = deliver_len f\<rparr>]\<rparr>]\<rparr>)"
proof -
  have n: "size_ok (deliver_len f)" using f by (simp add: len_ok_def size_ok_def)
  have d: "deliver lane f c = (let (ok, c1) = reserve (deliver_len f) c
      in if ok then let (sent, ch) = chan_send \<lparr>q_item = f, q_size = deliver_len f\<rparr> (c_lanes c1 ! lane_index lane)
           in (0, if sent then c1\<lparr>c_lanes := (c_lanes c1)[lane_index lane := ch]\<rparr>
                  else conn_release (deliver_len f) c1) else (0, c1))"
    using lane by (cases lane) (simp_all add: deliver_def Let_def split_beta)
  from ok n show thesis
  proof (cases rule: reserve_cases)
    case fits
    then show ?thesis
      using no_rx queued release_reserved [OF ok n]
      by (cases "ch_rx (c_lanes c ! lane_index lane)") (simp_all add: d chan_send_def)
  qed (use gone over in \<open>simp_all add: d\<close>)
qed

lemma push_session_ok:
  assumes "conn_ok c" "size_ok n"
  shows "conn_ok (push_session item n c)"
  using assms
proof (cases rule: push_session_cases [where item = item])
  case queued
  show ?thesis
    using assms queued(3) unfolding queued(4)
    by (rule conn_ok_fits) (use assms(1) in \<open>simp_all add: owned_def conn_ok_def\<close>)
qed (use assms conn_ok_over in auto)

lemma deliver_ok:
  assumes "conn_ok c" "len_ok f"
  shows "conn_ok (snd (deliver lane f c))"
proof (cases "lane = Bulk")
  case True
  obtain n q where "bulk_push f (c_bulk c) = (n, q)" by fastforce
  then show ?thesis
    using True assms bulk_push_ok [of "c_bulk_on c" "c_bulk c" f n q]
    by (intro conn_ok_moved [OF assms(1)]) (auto simp: deliver_def conn_ok_def owned_def)
next
  case False
  have n: "size_ok (deliver_len f)" using assms by (simp add: len_ok_def size_ok_def)
  obtain a b where ab: "c_lanes c = [a, b]" using conn_ok_lanes assms(1) by blast
  from assms(1,2) False show ?thesis
  proof (cases rule: deliver_cases)
    case queued
    show ?thesis
      using assms(1) n queued(3) unfolding queued(4) snd_conv
      by (rule conn_ok_fits) (use False ab in \<open>cases lane; simp add: owned_def\<close>)+
  qed (use assms conn_ok_over in auto)
qed

section \<open>Runs of one connection's queues\<close>

text \<open>The steps of one connection: what handles queue, what its writers and dispatcher take and
  release, receivers ending, other reasons to close it. \<open>s\<close> is the size or length given back.\<close>

inductive conn_step :: "conn \<Rightarrow> conn \<Rightarrow> bool" where
  push_session: "size_ok n \<Longrightarrow> conn_step c (push_session item n c)"
| deliver: "len_ok f \<Longrightarrow> conn_step c (snd (deliver lane f c))"
| session_recv: "session_recv c = Some (q, c') \<Longrightarrow> conn_step c c'"
| lane_recv: "lane \<noteq> Bulk \<Longrightarrow> lane_recv lane c = Some (q', c') \<Longrightarrow> conn_step c c'"
| release: "n \<in> set (c_hand c) \<Longrightarrow> conn_step c (writer_release n c)"
| session_rx_drop: "conn_step c (session_rx_drop c)"
| lane_rx_drop: "lane \<noteq> Bulk \<Longrightarrow> conn_step c (lane_rx_drop lane c)"
| dispatch_next: "dispatch_next c = Some (f, c') \<Longrightarrow> conn_step c c'"
| dispatch_done: "n \<in> set (c_bulk_on c) \<Longrightarrow> conn_step c (dispatch_done n c)"
| outbound_drop: "conn_step c (outbound_drop c)"
| close: "code \<noteq> CloseSlowConsumer \<Longrightarrow> conn_step c (conn_close code msg c)"
| datagram: "conn_step c (c\<lparr>c_datagrams := c_datagrams c @ [d]\<rparr>)"

abbreviation conn_reach :: "limits \<Rightarrow> conn \<Rightarrow> bool" where
  "conn_reach limits c \<equiv> conn_step\<^sup>*\<^sup>* (conn_new limits) c"

lemma writer_release_ok:
  assumes "conn_ok c" "n \<in> set (c_hand c)"
  shows "conn_ok (writer_release n c)"
proof -
  let ?c = "writer_release n c"
  have own: "owned c = add_mset n (owned ?c)"
    using assms(2) by (simp add: owned_def writer_release_def conn_release_def)
  have "usize_sub (b_queued (c_budget c)) n = sum_mset (owned ?c)"
    using conn_ok_queued [OF assms(1)] usize_sub_exact [of n "b_queued (c_budget c)"] assms(1) own
    by (simp add: conn_ok_def)
  then show ?thesis
    using assms(1) own by (auto simp: conn_ok_def writer_release_def conn_release_def budget_release_def)
qed

lemma conn_step_ok:
  assumes "conn_step c c'" "conn_ok c"
  shows "conn_ok c'"
  using assms
proof cases
  case (session_recv q)
  then show ?thesis
    by (intro conn_ok_moved [OF assms(2)])
      (use assms(2) in \<open>auto simp: session_recv_def owned_def conn_ok_def split: list.splits\<close>)
next
  case (lane_recv lane q)
  obtain a b where "c_lanes c = [a, b]" using conn_ok_lanes assms(2) by blast
  with lane_recv show ?thesis
    by (intro conn_ok_moved [OF assms(2)]; cases lane)
      (use assms(2) in \<open>auto simp: lane_recv_def owned_def conn_ok_def split: list.splits\<close>)
next
  case session_rx_drop
  then show ?thesis
    by (intro conn_ok_moved [OF assms(2)])
      (use assms(2) in \<open>auto simp: session_rx_drop_def owned_def conn_ok_def\<close>)
next
  case (lane_rx_drop lane)
  obtain a b where "c_lanes c = [a, b]" using conn_ok_lanes assms(2) by blast
  with lane_rx_drop show ?thesis
    by (intro conn_ok_moved [OF assms(2)]; cases lane)
      (use assms(2) in \<open>auto simp: lane_rx_drop_def owned_def conn_ok_def\<close>)
next
  case (dispatch_next f)
  then obtain q where q: "bulk_next (c_bulk c) = (NextSome f, q)"
    "c' = c\<lparr>c_bulk := q, c_bulk_on := c_bulk_on c @ [deliver_len f]\<rparr>"
    by (auto simp: dispatch_next_def split: prod.splits next_result.splits)
  moreover have "bulk_ok (c_bulk_on c) (c_bulk c)" using assms(2) by (simp add: conn_ok_def)
  ultimately show ?thesis
    using assms(2) bulk_next_some by (intro conn_ok_moved [OF assms(2)]) (auto simp: owned_def conn_ok_def)
next
  case (dispatch_done n)
  then show ?thesis
    using assms(2) bulk_done_ok
    by (intro conn_ok_moved [OF assms(2)]) (auto simp: owned_def conn_ok_def dispatch_done_def)
next
  case outbound_drop
  then show ?thesis
    using assms(2)
    by (intro conn_ok_moved [OF assms(2)])
      (auto simp: owned_def conn_ok_def outbound_drop_def bulk_close_def bulk_ok_def)
next
  case (close code msg)
  have "owned c' = owned c" by (simp add: close owned_def conn_close_def)
  then show ?thesis using assms(2) close by (auto simp: conn_ok_def conn_close_def)
next
  case (datagram d)
  then show ?thesis
    using assms(2) by (intro conn_ok_moved [OF assms(2)]) (auto simp: owned_def conn_ok_def)
qed (use assms(2) push_session_ok deliver_ok writer_release_ok in auto)

lemma conn_reach_ok:
  assumes "conn_reach l c" "outbox_bytes l < 2 ^ 63" "bulk_outbox_bytes l < 2 ^ 63"
  shows "conn_ok c"
  using assms by (induction rule: rtranclp_induct) (auto simp: conn_new_ok conn_step_ok)

lemma push_session_limit [simp]: "b_limit (c_budget (push_session item n c)) = b_limit (c_budget c)"
  and deliver_limit [simp]: "b_limit (c_budget (snd (deliver lane f c))) = b_limit (c_budget c)"
  by (cases lane; auto simp: push_session_def deliver_def reserve_def conn_release_def budget_release_def
      conn_close_def Let_def split: prod.splits)+

lemma conn_step_limit: "conn_step c c' \<Longrightarrow> b_limit (c_budget c') = b_limit (c_budget c)"
  by (induction rule: conn_step.induct)
    (auto simp: session_recv_def lane_recv_def dispatch_next_def writer_release_def conn_release_def
      budget_release_def session_rx_drop_def lane_rx_drop_def dispatch_done_def outbound_drop_def
      conn_close_def split: list.splits prod.splits next_result.splits)

lemma conn_reach_limit: "conn_reach l c \<Longrightarrow> b_limit (c_budget c) = outbox_bytes l"
  by (induction rule: rtranclp_induct) (simp_all add: conn_new_def budget_new_def conn_step_limit)

section \<open>The store of connections and fan-out\<close>

record net =
  n_conns :: "u64 \<Rightarrow> conn"
  n_stats :: stats

record handle =
  h_peer :: endpoint_id
  h_conn :: u64

definition on_conn :: "(conn \<Rightarrow> conn) \<Rightarrow> u64 \<Rightarrow> net \<Rightarrow> net" where
  "on_conn f i n = n\<lparr>n_conns := (n_conns n)(i := f (n_conns n i))\<rparr>"

definition handle_push_session :: "handle \<Rightarrow> session_item \<Rightarrow> usize \<Rightarrow> net \<Rightarrow> net" where
  "handle_push_session h item sz = on_conn (push_session item sz) (h_conn h)"

definition handle_push_frame :: "handle \<Rightarrow> bytes \<Rightarrow> net \<Rightarrow> net" where
  "handle_push_frame h frame = on_conn (push_frame frame) (h_conn h)"

definition handle_error :: "handle \<Rightarrow> topic option \<Rightarrow> bytes \<Rightarrow> net \<Rightarrow> net" where
  "handle_error h topic reason = handle_push_frame h (error_frame topic reason)"

definition handle_deliver :: "handle \<Rightarrow> lane \<Rightarrow> deliver \<Rightarrow> net \<Rightarrow> net" where
  "handle_deliver h lane frame n =
     (let (dropped, c) = deliver lane frame (n_conns n (h_conn h));
          n1 = n\<lparr>n_conns := (n_conns n)(h_conn h := c)\<rparr>
      in if dropped > 0
         then n1\<lparr>n_stats := st_bulk_dropped_update (\<lambda>k. k + of_nat dropped) (n_stats n1)\<rparr>
         else n1)"

text \<open>What a room relies on: an operation on a handle rewrites the handle's connection by a
  function of that connection, and adds what that connection drops to one counter.\<close>

locale conn_effect =
  fixes eff :: "handle \<Rightarrow> net \<Rightarrow> net" and f :: "conn \<Rightarrow> conn" and g :: "conn \<Rightarrow> u64"
  assumes eff_conns: "n_conns (eff h n) = (n_conns n)(h_conn h := f (n_conns n (h_conn h)))"
    and eff_stats: "n_stats (eff h n) = st_bulk_dropped_update (\<lambda>k. k + g (n_conns n (h_conn h))) (n_stats n)"
begin

lemma fan_conns:
  "distinct (map h_conn hs)
     \<Longrightarrow> n_conns (fold eff hs n) =
           (\<lambda>k. if k \<in> h_conn ` set hs then f (n_conns n k) else n_conns n k)"
proof (induction hs arbitrary: n)
  case (Cons h hs)
  then show ?case by (auto simp: eff_conns fun_eq_iff)
qed simp

lemma fan_stats:
  "distinct (map h_conn hs)
     \<Longrightarrow> n_stats (fold eff hs n) =
           st_bulk_dropped_update (\<lambda>k. k + (\<Sum>h\<leftarrow>hs. g (n_conns n (h_conn h)))) (n_stats n)"
proof (induction hs arbitrary: n)
  case (Cons h hs)
  have "(\<Sum>h\<leftarrow>hs. g (n_conns (eff h' n) (h_conn h))) = (\<Sum>h\<leftarrow>hs. g (n_conns n (h_conn h)))"
    if "h_conn h' \<notin> h_conn ` set hs" for h'
    using that by (intro arg_cong [where f = sum_list] map_cong) (auto simp: eff_conns image_iff)
  with Cons show ?case by (simp add: eff_stats add.assoc o_def)
qed simp

text \<open>The order in which a hash map yields the members does not matter.\<close>

lemma fan_perm:
  assumes "distinct (map h_conn hs)" "mset hs = mset hs'"
  shows "fold eff hs n = fold eff hs' n"
proof -
  have d: "distinct (map h_conn hs')" using assms by (metis mset_eq_imp_distinct_iff mset_map)
  have "set hs = set hs'" using assms(2) by (rule mset_eq_setD)
  moreover have "(\<Sum>h\<leftarrow>hs. g (n_conns n (h_conn h))) = (\<Sum>h\<leftarrow>hs'. g (n_conns n (h_conn h)))"
    using assms(2) by (metis mset_map sum_mset_sum_list)
  ultimately have "n_conns (fold eff hs n) = n_conns (fold eff hs' n)"
    "n_stats (fold eff hs n) = n_stats (fold eff hs' n)"
    by (simp_all add: fan_conns [OF assms(1)] fan_conns [OF d] fan_stats [OF assms(1)] fan_stats [OF d])
  then show ?thesis by (simp add: net.equality)
qed

end

lemma on_conn_effect:
  "n_conns (on_conn f i n) = (n_conns n)(i := f (n_conns n i))"
  "n_stats (on_conn f i n) = n_stats n"
  by (simp_all add: on_conn_def)

interpretation frame_fan: conn_effect "\<lambda>h. handle_push_frame h frame" "push_frame frame" "\<lambda>_. 0" for frame
  by unfold_locales (simp_all add: handle_push_frame_def on_conn_effect)

interpretation deliver_fan: conn_effect "\<lambda>h. handle_deliver h lane d" "\<lambda>c. snd (deliver lane d c)"
  "\<lambda>c. of_nat (fst (deliver lane d c))" for lane d
  by unfold_locales (simp_all add: handle_deliver_def Let_def split: prod.splits)

section \<open>Properties\<close>

text \<open>C20: In every run of a connection's queues, with any interleaving of senders and writers,
  the budget counts exactly the bytes queued or in a writer's hand; they stay within
  \<open>outbox_bytes\<close> unless they are one single item. The bulk budget keeps its own count.\<close>

theorem outbox_bounded:
  assumes "conn_reach l c" "outbox_bytes l < 2 ^ 63" "bulk_outbox_bytes l < 2 ^ 63"
  shows "b_queued (c_budget c) = sum_mset (owned c)
    \<and> (sum_mset (owned c) \<le> outbox_bytes l \<or> size (owned c) \<le> 1)
    \<and> bulk_ok (c_bulk_on c) (c_bulk c)"
  using conn_reach_ok [OF assms] conn_reach_limit [OF assms(1)] by (auto simp: conn_ok_def)


text \<open>Queueing a frame for a healthy connection either appends it to the session queue with
  its size, or, if the frame does not fit a budget already in use, closes that connection and
  queues nothing.\<close>

theorem push_frame_behaviour:
  assumes "conn_ok c" "size_ok (length frame)" "\<not> b_overflowed (c_budget c)" "ch_rx (c_session c)"
  shows "if owned c \<noteq> {#} \<and> sum_mset (owned c) + length frame > b_limit (c_budget c)
    then c_session (push_frame frame c) = c_session c
      \<and> c_closes (push_frame frame c) = c_closes c @ [slow_close]
      \<and> b_queued (c_budget (push_frame frame c)) = b_queued (c_budget c)
    else ch_items (c_session (push_frame frame c)) =
        ch_items (c_session c) @ [\<lparr>q_item = FrameItem frame, q_size = length frame\<rparr>]
      \<and> c_closes (push_frame frame c) = c_closes c
      \<and> owned (push_frame frame c) = add_mset (length frame) (owned c)"
  using assms(1,2)
proof (cases rule: push_session_cases [where item = "FrameItem frame"])
  case queued
  then show ?thesis by (auto simp: push_frame_def owned_def)
qed (use assms(3,4) in \<open>auto simp: push_frame_def\<close>)

definition tiny_limits :: limits where
  "tiny_limits = limits_default\<lparr>outbox_bytes := 4, bulk_outbox_bytes := 100\<rparr>"

definition overflowing :: conn where
  "overflowing = push_frame [1, 2] (push_frame [1, 2, 3] (conn_new tiny_limits))"

lemma push_frame_step: "size_ok (length frame) \<Longrightarrow> conn_step c (push_frame frame c)"
  unfolding push_frame_def by (rule conn_step.push_session)

lemma overflowing_reach: "conn_reach tiny_limits overflowing"
proof -
  have "conn_step (conn_new tiny_limits) (push_frame [1, 2, 3] (conn_new tiny_limits))"
    "conn_step (push_frame [1, 2, 3] (conn_new tiny_limits)) overflowing"
    unfolding overflowing_def by (simp_all add: push_frame_step size_ok_def)
  then show ?thesis by simp
qed

theorem outbox_bounded_witness:
  "sum_mset (owned overflowing) \<le> 4 \<or> size (owned overflowing) \<le> 1"
  using outbox_bounded [OF overflowing_reach] by (simp add: tiny_limits_def)


theorem push_frame_behaviour_witness:
  "ch_items (c_session (push_frame [7, 8] (conn_new tiny_limits))) =
     [\<lparr>q_item = FrameItem [7, 8], q_size = 2\<rparr>]"
  using push_frame_behaviour [of "conn_new tiny_limits" "[7, 8]"] conn_new_ok [of tiny_limits]
  by (simp add: tiny_limits_def size_ok_def conn_new_def budget_new_def chan_new_def owned_def)

end
