(* ===== verification/Rooms.thy ===== *)
theory Rooms
  imports Outbound
begin

text \<open>
  \<open>Slot\<close>, \<open>Room\<close>, \<open>Rooms\<close>, \<open>owns_slot\<close> and \<open>broadcast\<close> of \<open>src/src/server.rs\<close>. Each method
  holds one shard lock throughout, so it is a function on the rooms and the connection store.
  A hash map is an association list; its order stands for the iteration order, which Rust leaves
  open: results that depend on it are stated up to order.

  The locale \<open>topic_store\<close> is what the methods rely on of the sharded table: it behaves like one
  map from topics to rooms. It is interpreted on the 64 shards.
\<close>

section \<open>The sharded table\<close>

record slot =
  s_handle :: handle
  s_blob :: bytes

type_synonym room = "(endpoint_id, slot) hash_map"

record rooms =
  r_shards :: "(topic, room) hash_map list"
  r_max_members :: usize
  r_chunk_entries :: usize

definition rooms_new :: "limits \<Rightarrow> rooms" where
  "rooms_new limits =
     \<lparr>r_shards = map (\<lambda>_. []) [0..<SHARDS],
      r_max_members = max (max_members_per_topic limits) 1,
      r_chunk_entries = max (snapshot_chunk_entries limits) 1\<rparr>"

text \<open>\<open>u16::from_le_bytes\<close> of the first two bytes, modulo \<open>SHARDS\<close>.\<close>

definition shard_index :: "topic \<Rightarrow> nat" where
  "shard_index t = (unat (topic_bytes t ! 0) + 256 * unat (topic_bytes t ! 1)) mod SHARDS"

definition shard :: "rooms \<Rightarrow> topic \<Rightarrow> (topic, room) hash_map" where
  "shard rs t = r_shards rs ! shard_index t"

definition set_shard :: "topic \<Rightarrow> (topic, room) hash_map \<Rightarrow> rooms \<Rightarrow> rooms" where
  "set_shard t sh rs = rs\<lparr>r_shards := (r_shards rs)[shard_index t := sh]\<rparr>"

definition room_get :: "rooms \<Rightarrow> topic \<Rightarrow> room option" where
  "room_get rs t = hm_get (shard rs t) t"

definition room_put :: "topic \<Rightarrow> room \<Rightarrow> rooms \<Rightarrow> rooms" where
  "room_put t r rs = set_shard t (hm_insert t r (shard rs t)) rs"

definition room_del :: "topic \<Rightarrow> rooms \<Rightarrow> rooms" where
  "room_del t rs = set_shard t (hm_remove t (shard rs t)) rs"

section \<open>The methods\<close>

definition owns_slot :: "room \<Rightarrow> handle \<Rightarrow> bool" where
  "owns_slot r h =
     (case hm_get r (h_peer h) of None \<Rightarrow> False | Some s \<Rightarrow> h_conn (s_handle s) = h_conn h)"

definition broadcast :: "room \<Rightarrow> endpoint_id \<Rightarrow> bytes \<Rightarrow> net \<Rightarrow> net" where
  "broadcast r except frame n =
     fold (\<lambda>(i, s) n. if i \<noteq> except then handle_push_frame (s_handle s) frame n else n) r n"

definition other_members :: "room \<Rightarrow> endpoint_id \<Rightarrow> member list" where
  "other_members r i =
     map (\<lambda>(j, s). \<lparr>m_id = j, m_blob = s_blob s\<rparr>) (filter (\<lambda>(j, _). j \<noteq> i) r)"

definition join :: "topic \<Rightarrow> handle \<Rightarrow> rooms \<Rightarrow> net \<Rightarrow> usize option \<times> rooms \<times> net" where
  "join t h rs n =
     (let joined = server_encode (Joined t (h_peer h));
          room = (case room_get rs t of None \<Rightarrow> [] | Some r \<Rightarrow> r);
          rs1 = room_put t room rs
      in if hm_get room (h_peer h) = None \<and> length room \<ge> r_max_members rs then (None, rs1, n)
         else let room1 = hm_insert (h_peer h) \<lparr>s_handle = h, s_blob = []\<rparr> room;
                  members = other_members room1 (h_peer h);
                  sz = snapshot_wire_len members (r_chunk_entries rs);
                  n1 = handle_push_session h (SnapshotItem t members) sz n;
                  n2 = broadcast room1 (h_peer h) joined n1
              in (Some (length room1), room_put t room1 rs1, n2))"

definition leave :: "topic \<Rightarrow> handle \<Rightarrow> rooms \<Rightarrow> net \<Rightarrow> usize option \<times> rooms \<times> net" where
  "leave t h rs n =
     (let left = server_encode (Left t (h_peer h))
      in case room_get rs t of
           None \<Rightarrow> (None, rs, n)
         | Some room \<Rightarrow>
             if \<not> owns_slot room h then (None, rs, n)
             else let room1 = hm_remove (h_peer h) room;
                      rs1 = room_put t room1 rs;
                      n1 = broadcast room1 (h_peer h) left n;
                      sz = length room1
                  in (Some sz, if sz = 0 then room_del t rs1 else rs1, n1))"

definition announce :: "topic \<Rightarrow> handle \<Rightarrow> bytes \<Rightarrow> rooms \<Rightarrow> net \<Rightarrow> bool \<times> rooms \<times> net" where
  "announce t h blob rs n =
     (let presence = server_encode (Presence t (h_peer h) blob)
      in case room_get rs t of
           None \<Rightarrow> (False, rs, n)
         | Some room \<Rightarrow>
             (case hm_get room (h_peer h) of
                None \<Rightarrow> (False, rs, n)
              | Some s \<Rightarrow>
                  if h_conn (s_handle s) = h_conn h
                  then let room1 = hm_insert (h_peer h) (s\<lparr>s_blob := blob\<rparr>) room
                       in (True, room_put t room1 rs, broadcast room1 (h_peer h) presence n)
                  else (False, rs, n)))"

definition is_member :: "topic \<Rightarrow> handle \<Rightarrow> rooms \<Rightarrow> bool" where
  "is_member t h rs = (case room_get rs t of None \<Rightarrow> False | Some r \<Rightarrow> owns_slot r h)"

datatype refusal = RefNotSubscribed | RefNoSuchRecipient

definition publish :: "topic \<Rightarrow> handle \<Rightarrow> lane \<Rightarrow> deliver \<Rightarrow> rooms \<Rightarrow> net \<Rightarrow> (refusal + usize) \<times> net" where
  "publish t h lane frame rs n =
     (case room_get rs t of
        None \<Rightarrow> (Inl RefNotSubscribed, n)
      | Some room \<Rightarrow>
          if \<not> owns_slot room h then (Inl RefNotSubscribed, n)
          else let (sent, n1) =
                     fold (\<lambda>(i, s) (sent, n).
                             if i \<noteq> h_peer h then (sent + 1, handle_deliver (s_handle s) lane frame n)
                             else (sent, n)) room (0, n)
               in (Inr sent, n1))"

definition publish_to ::
  "topic \<Rightarrow> handle \<Rightarrow> endpoint_id \<Rightarrow> lane \<Rightarrow> deliver \<Rightarrow> rooms \<Rightarrow> net \<Rightarrow> (refusal + usize) \<times> net" where
  "publish_to t h recipient lane frame rs n =
     (case room_get rs t of
        None \<Rightarrow> (Inl RefNotSubscribed, n)
      | Some room \<Rightarrow>
          if \<not> owns_slot room h then (Inl RefNotSubscribed, n)
          else if recipient = h_peer h then (Inl RefNoSuchRecipient, n)
          else (case hm_get room recipient of
                  None \<Rightarrow> (Inl RefNoSuchRecipient, n)
                | Some s \<Rightarrow> (Inr 1, handle_deliver (s_handle s) lane frame n)))"

definition datagram_targets :: "topic \<Rightarrow> handle \<Rightarrow> rooms \<Rightarrow> u64 list option" where
  "datagram_targets t h rs =
     (case room_get rs t of
        None \<Rightarrow> None
      | Some room \<Rightarrow>
          if \<not> owns_slot room h then None
          else Some (map (\<lambda>(_, s). h_conn (s_handle s)) (filter (\<lambda>(i, _). i \<noteq> h_peer h) room)))"

definition members :: "rooms \<Rightarrow> topic \<Rightarrow> endpoint_id list" where
  "members rs t = (case room_get rs t of None \<Rightarrow> [] | Some r \<Rightarrow> hm_keys r)"

definition occupancy :: "rooms \<Rightarrow> usize \<times> usize" where
  "occupancy rs =
     foldl (\<lambda>(rooms, mems) sh. (rooms + length sh, mems + sum_list (map (length \<circ> snd) sh)))
       (0, 0) (r_shards rs)"

section \<open>The table behaves like one map\<close>

locale topic_store =
  fixes get :: "'s \<Rightarrow> topic \<Rightarrow> 'r option"
    and put :: "topic \<Rightarrow> 'r \<Rightarrow> 's \<Rightarrow> 's"
    and del :: "topic \<Rightarrow> 's \<Rightarrow> 's"
    and wf :: "'s \<Rightarrow> bool"
  assumes get_put: "wf s \<Longrightarrow> get (put t r s) t' = (if t' = t then Some r else get s t')"
    and get_del: "wf s \<Longrightarrow> get (del t s) t' = (if t' = t then None else get s t')"
    and wf_put: "wf s \<Longrightarrow> wf (put t r s)"
    and wf_del: "wf s \<Longrightarrow> wf (del t s)"
begin

lemma abs_put: "wf s \<Longrightarrow> get (put t r s) = (get s)(t \<mapsto> r)"
  by (auto simp: get_put)

lemma abs_del: "wf s \<Longrightarrow> get (del t s) = (get s)(t := None)"
  by (auto simp: get_del)

lemma abs_put_put: "wf s \<Longrightarrow> get (put t r (put t r' s)) = (get s)(t \<mapsto> r)"
  by (auto simp: get_put wf_put)

lemma abs_del_put: "wf s \<Longrightarrow> get (del t (put t r s)) = (get s)(t := None)"
  by (auto simp: get_put get_del wf_put)

end

definition shards_wf :: "rooms \<Rightarrow> bool" where
  "shards_wf rs \<longleftrightarrow> length (r_shards rs) = SHARDS
     \<and> (\<forall>i < SHARDS. hm_wf (r_shards rs ! i) \<and> (\<forall>t \<in> fst ` set (r_shards rs ! i). shard_index t = i))"

lemma shard_index_less: "shard_index t < SHARDS"
  by (simp add: shard_index_def SHARDS_def)

lemma hm_insert_keys: "fst ` set (hm_insert k v m) = insert k (fst ` set m)"
  by (simp add: hm_insert_def dom_update)

lemma hm_remove_keys: "fst ` set (hm_remove k m) = fst ` set m - {k}"
  by (metis delete_keys hm_remove_def list.set_map set_removeAll)

lemma set_shard_wf:
  assumes "shards_wf rs" "hm_wf sh" "\<forall>t' \<in> fst ` set sh. shard_index t' = shard_index t"
  shows "shards_wf (set_shard t sh rs)"
  using assms shard_index_less [of t] by (auto simp: shards_wf_def set_shard_def nth_list_update)

lemma shard_wf:
  "shards_wf rs \<Longrightarrow> hm_wf (shard rs t) \<and> (\<forall>t' \<in> fst ` set (shard rs t). shard_index t' = shard_index t)"
  using shard_index_less [of t] by (simp add: shards_wf_def shard_def)

lemma shard_set_shard:
  "shards_wf rs \<Longrightarrow> shard (set_shard t sh rs) t' = (if shard_index t' = shard_index t then sh else shard rs t')"
  using shard_index_less [of t] by (auto simp: shards_wf_def set_shard_def shard_def)

interpretation shards: topic_store room_get room_put room_del shards_wf
proof
  fix rs t r t'
  assume wf: "shards_wf rs"
  have same: "shard_index t' = shard_index t \<Longrightarrow> shard rs t' = shard rs t" by (simp add: shard_def)
  show "room_get (room_put t r rs) t' = (if t' = t then Some r else room_get rs t')"
    using wf same by (auto simp: room_get_def room_put_def shard_set_shard hash_simps)
  show "room_get (room_del t rs) t' = (if t' = t then None else room_get rs t')"
    using wf same by (auto simp: room_get_def room_del_def shard_set_shard hash_simps)
  show "shards_wf (room_put t r rs)"
    using wf shard_wf [OF wf, of t] by (simp add: room_put_def set_shard_wf hm_insert_keys)
  show "shards_wf (room_del t rs)"
  proof -
    have "\<forall>t' \<in> fst ` set (hm_remove t (shard rs t)). shard_index t' = shard_index t"
      using shard_wf [OF wf, of t] hm_remove_keys [of t "shard rs t"] by blast
    then show ?thesis
      unfolding room_del_def using wf shard_wf [OF wf, of t] by (intro set_shard_wf) auto
  qed
qed

section \<open>Well-formed rooms\<close>

text \<open>A connection has one endpoint: \<open>P\<close> says which. A slot is keyed by its handle's endpoint, no
  room is empty or above the cap, and stored blobs are within the announce limit.\<close>

definition slot_ok :: "(u64 \<Rightarrow> endpoint_id) \<Rightarrow> endpoint_id \<Rightarrow> slot \<Rightarrow> bool" where
  "slot_ok P i s \<longleftrightarrow> h_peer (s_handle s) = i \<and> P (h_conn (s_handle s)) = i
     \<and> length (s_blob s) \<le> MAX_ANNOUNCE_LEN"

definition room_ok :: "(u64 \<Rightarrow> endpoint_id) \<Rightarrow> usize \<Rightarrow> room \<Rightarrow> bool" where
  "room_ok P cap r \<longleftrightarrow> hm_wf r \<and> r \<noteq> [] \<and> length r \<le> cap
     \<and> (\<forall>i s. hm_get r i = Some s \<longrightarrow> slot_ok P i s)"

definition rooms_ok :: "(u64 \<Rightarrow> endpoint_id) \<Rightarrow> rooms \<Rightarrow> bool" where
  "rooms_ok P rs \<longleftrightarrow> shards_wf rs \<and> 1 \<le> r_max_members rs
     \<and> (\<forall>t r. room_get rs t = Some r \<longrightarrow> room_ok P (r_max_members rs) r)"

lemma rooms_ok_wf: "rooms_ok P rs \<Longrightarrow> shards_wf rs"
  and rooms_ok_room: "rooms_ok P rs \<Longrightarrow> room_get rs t = Some r \<Longrightarrow> room_ok P (r_max_members rs) r"
  by (simp_all add: rooms_ok_def)

lemma rooms_new_ok: "rooms_ok P (rooms_new l)"
  using shard_index_less
  by (auto simp: rooms_ok_def rooms_new_def shards_wf_def room_get_def shard_def SHARDS_def)

lemma room_put_max [simp]: "r_max_members (room_put t r rs) = r_max_members rs"
  and room_del_max [simp]: "r_max_members (room_del t rs) = r_max_members rs"
  and room_put_chunk [simp]: "r_chunk_entries (room_put t r rs) = r_chunk_entries rs"
  and room_del_chunk [simp]: "r_chunk_entries (room_del t rs) = r_chunk_entries rs"
  by (simp_all add: room_put_def room_del_def set_shard_def)

lemma rooms_ok_put: "rooms_ok P rs \<Longrightarrow> room_ok P (r_max_members rs) r \<Longrightarrow> rooms_ok P (room_put t r rs)"
  by (auto simp: rooms_ok_def shards.wf_put shards.get_put split: if_splits)

lemma rooms_ok_abs:
  assumes "rooms_ok P rs" "shards_wf rs'" "r_max_members rs' = r_max_members rs"
    and "room_get rs' = (room_get rs)(t := x)"
    and "\<And>r. x = Some r \<Longrightarrow> room_ok P (r_max_members rs) r"
  shows "rooms_ok P rs'"
  using assms by (auto simp: rooms_ok_def split: if_splits)

lemma slot_ok_insert:
  assumes "room_ok P cap r \<or> r = []" "slot_ok P i s" "hm_get r i = None \<longrightarrow> length r < cap" "1 \<le> cap"
  shows "room_ok P cap (hm_insert i s r)"
proof -
  have "hm_insert i s r \<noteq> []" by (metis hm_insert_keys image_is_empty insert_not_empty set_empty)
  then show ?thesis
    using assms by (auto simp: room_ok_def hash_simps split: if_splits)
qed

lemma room_ok_remove:
  assumes "room_ok P cap r" "hm_remove i r \<noteq> []"
  shows "room_ok P cap (hm_remove i r)"
  using assms by (auto simp: room_ok_def hash_simps split: if_splits)

section \<open>What the methods do to the table\<close>

text \<open>The room as the methods see it: an absent one is empty.\<close>

definition room_of :: "rooms \<Rightarrow> topic \<Rightarrow> room" where
  "room_of rs t = (case room_get rs t of None \<Rightarrow> [] | Some r \<Rightarrow> r)"

lemma room_of_ok: "rooms_ok P rs \<Longrightarrow> room_ok P (r_max_members rs) (room_of rs t) \<or> room_of rs t = []"
  by (cases "room_get rs t") (auto simp: room_of_def dest: rooms_ok_room)

definition is_full :: "rooms \<Rightarrow> topic \<Rightarrow> endpoint_id \<Rightarrow> bool" where
  "is_full rs t i \<longleftrightarrow> hm_get (room_of rs t) i = None \<and> length (room_of rs t) \<ge> r_max_members rs"

lemma join_unfold:
  "join t h rs n =
     (let r = hm_insert (h_peer h) \<lparr>s_handle = h, s_blob = []\<rparr> (room_of rs t);
          rs1 = room_put t (room_of rs t) rs
      in if is_full rs t (h_peer h) then (None, rs1, n)
         else (Some (length r), room_put t r rs1,
           broadcast r (h_peer h) (server_encode (Joined t (h_peer h)))
             (handle_push_session h (SnapshotItem t (other_members r (h_peer h)))
               (snapshot_wire_len (other_members r (h_peer h)) (r_chunk_entries rs)) n)))"
  by (simp add: join_def is_full_def room_of_def [symmetric] Let_def)

lemma join_full:
  assumes "rooms_ok P rs" "is_full rs t (h_peer h)" "join t h rs n = (res, rs', n')"
  shows "res = None \<and> n' = n \<and> room_get rs' = room_get rs \<and> rooms_ok P rs'"
proof -
  have ne: "room_of rs t \<noteq> []" using assms(1,2) by (auto simp: rooms_ok_def is_full_def)
  then have get: "room_get rs t = Some (room_of rs t)" by (auto simp: room_of_def split: option.splits)
  have r: "(res, rs', n') = (None, room_put t (room_of rs t) rs, n)"
    using assms(2,3) by (simp add: join_unfold Let_def)
  then show ?thesis
    using get assms(1) rooms_ok_put [OF assms(1) rooms_ok_room [OF assms(1) get]]
    by (auto simp: shards.abs_put rooms_ok_wf)
qed

lemma join_enters:
  assumes "rooms_ok P rs" "\<not> is_full rs t (h_peer h)" "P (h_conn h) = h_peer h"
    and "join t h rs n = (res, rs', n')"
  defines "r \<equiv> hm_insert (h_peer h) \<lparr>s_handle = h, s_blob = []\<rparr> (room_of rs t)"
  shows "res = Some (length r) \<and> room_get rs' = (room_get rs)(t \<mapsto> r) \<and> rooms_ok P rs'
    \<and> r_max_members rs' = r_max_members rs \<and> room_ok P (r_max_members rs) r
    \<and> n' = broadcast r (h_peer h) (server_encode (Joined t (h_peer h)))
        (handle_push_session h (SnapshotItem t (other_members r (h_peer h)))
          (snapshot_wire_len (other_members r (h_peer h)) (r_chunk_entries rs)) n)"
proof -
  have r: "room_ok P (r_max_members rs) r"
    unfolding r_def using assms(1-3) room_of_ok [OF assms(1), of t]
    by (intro slot_ok_insert) (auto simp: slot_ok_def is_full_def rooms_ok_def)
  have j: "(res, rs', n') = (Some (length r), room_put t r (room_put t (room_of rs t) rs),
      broadcast r (h_peer h) (server_encode (Joined t (h_peer h)))
        (handle_push_session h (SnapshotItem t (other_members r (h_peer h)))
          (snapshot_wire_len (other_members r (h_peer h)) (r_chunk_entries rs)) n))"
    using assms(2,4) unfolding join_unfold r_def [symmetric] Let_def by simp
  have g: "room_get rs' = (room_get rs)(t \<mapsto> r)"
    using j assms(1) by (simp add: shards.abs_put_put rooms_ok_wf)
  have wf: "shards_wf rs'" using j assms(1) by (simp add: shards.wf_put rooms_ok_wf)
  have "rooms_ok P rs'" by (rule rooms_ok_abs [OF assms(1) wf _ g]) (use j r in auto)
  then show ?thesis using j g r by simp
qed

lemma leave_unfold:
  "leave t h rs n =
     (if is_member t h rs
      then let r = hm_remove (h_peer h) (room_of rs t)
           in (Some (length r), if r = [] then room_del t (room_put t r rs) else room_put t r rs,
               broadcast r (h_peer h) (server_encode (Left t (h_peer h))) n)
      else (None, rs, n))"
  by (cases "room_get rs t") (simp_all add: leave_def is_member_def room_of_def Let_def)

lemma is_member_get:
  "is_member t h rs \<longleftrightarrow> (\<exists>s. hm_get (room_of rs t) (h_peer h) = Some s \<and> h_conn (s_handle s) = h_conn h)"
  by (cases "room_get rs t") (auto simp: is_member_def room_of_def owns_slot_def split: option.splits)

lemma is_member_room:
  "is_member t h rs \<Longrightarrow> room_get rs t = Some (room_of rs t)"
  by (cases "room_get rs t") (auto simp: is_member_def room_of_def)

lemma leave_table:
  assumes "rooms_ok P rs" "is_member t h rs" "leave t h rs n = (res, rs', n')"
  defines "r \<equiv> hm_remove (h_peer h) (room_of rs t)"
  shows "res = Some (length r) \<and> room_get rs' = (room_get rs)(t := if r = [] then None else Some r)
    \<and> rooms_ok P rs' \<and> r_max_members rs' = r_max_members rs
    \<and> n' = broadcast r (h_peer h) (server_encode (Left t (h_peer h))) n"
proof -
  have l: "(res, rs', n') = (Some (length r), if r = [] then room_del t (room_put t r rs) else room_put t r rs,
      broadcast r (h_peer h) (server_encode (Left t (h_peer h))) n)"
    using assms(2,3) unfolding leave_unfold Let_def r_def [symmetric] by simp
  have g: "room_get rs' = (room_get rs)(t := if r = [] then None else Some r)"
    using l assms(1) by (auto simp: shards.abs_put shards.abs_del_put rooms_ok_wf)
  have wf: "shards_wf rs'" using l assms(1) by (auto simp: shards.wf_put shards.wf_del rooms_ok_wf)
  have ok: "room_ok P (r_max_members rs) (room_of rs t)"
    using rooms_ok_room [OF assms(1) is_member_room [OF assms(2)]] .
  have "rooms_ok P rs'"
    by (rule rooms_ok_abs [OF assms(1) wf _ g])
      (use l room_ok_remove [OF ok, of "h_peer h"] in \<open>auto simp: r_def split: if_splits\<close>)
  then show ?thesis using l g by (auto split: if_splits)
qed

lemma announce_unfold:
  "announce t h blob rs n =
     (if is_member t h rs
      then let r = hm_insert (h_peer h)
             ((the (hm_get (room_of rs t) (h_peer h)))\<lparr>s_blob := blob\<rparr>) (room_of rs t)
           in (True, room_put t r rs,
               broadcast r (h_peer h) (server_encode (Presence t (h_peer h) blob)) n)
      else (False, rs, n))"
  by (cases "room_get rs t")
    (auto simp: announce_def is_member_def owns_slot_def room_of_def Let_def split: option.splits)

lemma announce_table:
  assumes "rooms_ok P rs" "is_member t h rs" "length blob \<le> MAX_ANNOUNCE_LEN"
    and "announce t h blob rs n = (res, rs', n')"
  defines "r \<equiv> hm_insert (h_peer h)
             ((the (hm_get (room_of rs t) (h_peer h)))\<lparr>s_blob := blob\<rparr>) (room_of rs t)"
  shows "res \<and> room_get rs' = (room_get rs)(t \<mapsto> r) \<and> rooms_ok P rs' \<and> r_max_members rs' = r_max_members rs
    \<and> room_ok P (r_max_members rs) r
    \<and> n' = broadcast r (h_peer h) (server_encode (Presence t (h_peer h) blob)) n"
proof -
  have a: "(res, rs', n') = (True, room_put t r rs,
      broadcast r (h_peer h) (server_encode (Presence t (h_peer h) blob)) n)"
    using assms(2,4) unfolding announce_unfold Let_def r_def [symmetric] by simp
  have ok: "room_ok P (r_max_members rs) (room_of rs t)"
    using rooms_ok_room [OF assms(1) is_member_room [OF assms(2)]] .
  obtain s where s: "hm_get (room_of rs t) (h_peer h) = Some s"
    using assms(2) by (auto simp: is_member_get)
  then have "slot_ok P (h_peer h) s" using ok by (simp add: room_ok_def)
  then have r: "room_ok P (r_max_members rs) r"
    unfolding r_def using ok s assms(1,3) by (intro slot_ok_insert) (auto simp: slot_ok_def rooms_ok_def)
  have "rooms_ok P rs'" using a rooms_ok_put [OF assms(1) r] by simp
  then show ?thesis using a r assms(1) by (simp add: shards.abs_put rooms_ok_wf)
qed

lemma join_ok:
  assumes "rooms_ok P rs" "P (h_conn h) = h_peer h"
  shows "rooms_ok P (fst (snd (join t h rs n)))"
proof -
  obtain res rs' n' where j: "join t h rs n = (res, rs', n')" by (metis prod_cases3)
  then show ?thesis
    using join_full [OF assms(1) _ j] join_enters [OF assms(1) _ assms(2) j]
    by (cases "is_full rs t (h_peer h)") simp_all
qed

lemma leave_ok:
  assumes "rooms_ok P rs"
  shows "rooms_ok P (fst (snd (leave t h rs n)))"
proof (cases "is_member t h rs")
  case True
  obtain res rs' n' where l: "leave t h rs n = (res, rs', n')" by (metis prod_cases3)
  then show ?thesis using leave_table [OF assms True l] by simp
qed (simp add: leave_unfold assms)

lemma announce_ok:
  assumes "rooms_ok P rs" "length blob \<le> MAX_ANNOUNCE_LEN"
  shows "rooms_ok P (fst (snd (announce t h blob rs n)))"
proof (cases "is_member t h rs")
  case True
  obtain res rs' n' where a: "announce t h blob rs n = (res, rs', n')" by (metis prod_cases3)
  then show ?thesis using announce_table [OF assms(1) True assms(2) a] by simp
qed (simp add: announce_unfold assms)

section \<open>The contract: who is present\<close>

text \<open>What rooms promise: a topic's members, each with its connection and its blob.\<close>

type_synonym table = "topic \<Rightarrow> endpoint_id \<rightharpoonup> u64 \<times> bytes"

definition spec_join :: "usize \<Rightarrow> topic \<Rightarrow> endpoint_id \<Rightarrow> u64 \<Rightarrow> table \<Rightarrow> usize option \<times> table" where
  "spec_join cap t i k A =
     (if A t i = None \<and> card (dom (A t)) \<ge> cap then (None, A)
      else let A' = A(t := (A t)(i \<mapsto> (k, []))) in (Some (card (dom (A' t))), A'))"

definition spec_leave :: "topic \<Rightarrow> endpoint_id \<Rightarrow> u64 \<Rightarrow> table \<Rightarrow> usize option \<times> table" where
  "spec_leave t i k A =
     (if map_option fst (A t i) = Some k
      then let A' = A(t := (A t)(i := None)) in (Some (card (dom (A' t))), A')
      else (None, A))"

definition spec_announce :: "topic \<Rightarrow> endpoint_id \<Rightarrow> u64 \<Rightarrow> bytes \<Rightarrow> table \<Rightarrow> bool \<times> table" where
  "spec_announce t i k blob A =
     (if map_option fst (A t i) = Some k then (True, A(t := (A t)(i \<mapsto> (k, blob)))) else (False, A))"

definition view :: "room \<Rightarrow> endpoint_id \<rightharpoonup> u64 \<times> bytes" where
  "view r i = map_option (\<lambda>s. (h_conn (s_handle s), s_blob s)) (hm_get r i)"

definition presence :: "rooms \<Rightarrow> table" where
  "presence rs t = view (room_of rs t)"

lemma presence_upd:
  "room_get rs' = (room_get rs)(t := x)
     \<Longrightarrow> presence rs' = (presence rs)(t := view (case x of None \<Rightarrow> [] | Some r \<Rightarrow> r))"
  by (auto simp: presence_def room_of_def fun_eq_iff)

lemma view_insert: "view (hm_insert i s r) = (view r)(i \<mapsto> (h_conn (s_handle s), s_blob s))"
  and view_remove: "view (hm_remove i r) = (view r)(i := None)"
  by (auto simp: view_def hash_simps)

lemma dom_view: "dom (view r) = dom (hm_get r)"
  by (auto simp: view_def)

lemma card_view: "hm_wf r \<Longrightarrow> card (dom (view r)) = length r"
  by (metis distinct_card dom_map_of_conv_image_fst dom_view hm_wf_def length_map list.set_map)

lemma is_member_presence:
  "is_member t h rs \<longleftrightarrow> map_option fst (presence rs t (h_peer h)) = Some (h_conn h)"
  by (auto simp: is_member_get presence_def view_def)

lemma room_of_wf: "rooms_ok P rs \<Longrightarrow> hm_wf (room_of rs t)"
  using room_of_ok [of P rs t] by (auto simp: room_ok_def)

lemma is_full_presence:
  "rooms_ok P rs \<Longrightarrow> is_full rs t i \<longleftrightarrow> presence rs t i = None \<and> card (dom (presence rs t)) \<ge> r_max_members rs"
  by (simp add: is_full_def presence_def card_view room_of_wf) (simp add: view_def)

lemma join_refines:
  assumes "rooms_ok P rs" "P (h_conn h) = h_peer h" "join t h rs n = (res, rs', n')"
  shows "(res, presence rs') = spec_join (r_max_members rs) t (h_peer h) (h_conn h) (presence rs)"
proof (cases "is_full rs t (h_peer h)")
  case True
  have j: "res = None" "room_get rs' = room_get rs"
    using join_full [OF assms(1) True assms(3)] by simp_all
  then have "presence rs' = presence rs" by (simp add: presence_def room_of_def fun_eq_iff)
  then show ?thesis using True j(1) is_full_presence [OF assms(1)] by (simp add: spec_join_def)
next
  case False
  let ?r = "hm_insert (h_peer h) \<lparr>s_handle = h, s_blob = []\<rparr> (room_of rs t)"
  have j: "res = Some (length ?r)" "room_get rs' = (room_get rs)(t \<mapsto> ?r)" "hm_wf ?r"
    using join_enters [OF assms(1) False assms(2,3)] room_of_wf [OF assms(1)] by auto
  have p: "presence rs' = (presence rs)(t := (presence rs t)(h_peer h \<mapsto> (h_conn h, [])))"
    using presence_upd [OF j(2)] by (simp add: view_insert presence_def)
  then have "card (dom (presence rs' t)) = length ?r"
    using card_view [OF j(3)] by (simp add: view_insert presence_def)
  then show ?thesis
    using False is_full_presence [OF assms(1)] j(1) p by (auto simp: spec_join_def Let_def)
qed

lemma leave_refines:
  assumes "rooms_ok P rs" "leave t h rs n = (res, rs', n')"
  shows "(res, presence rs') = spec_leave t (h_peer h) (h_conn h) (presence rs)"
proof (cases "is_member t h rs")
  case True
  let ?r = "hm_remove (h_peer h) (room_of rs t)"
  have l: "res = Some (length ?r)" "room_get rs' = (room_get rs)(t := if ?r = [] then None else Some ?r)"
    "hm_wf ?r"
    using leave_table [OF assms(1) True assms(2)] room_of_wf [OF assms(1)] by auto
  have p: "presence rs' = (presence rs)(t := (presence rs t)(h_peer h := None))"
    using presence_upd [OF l(2)] by (auto simp: view_remove [symmetric] presence_def)
  then have "card (dom (presence rs' t)) = length ?r"
    using card_view [OF l(3)] by (simp add: view_remove presence_def)
  then show ?thesis
    using True l(1) p by (simp add: spec_leave_def is_member_presence Let_def)
next
  case False
  then show ?thesis using assms(2) by (auto simp: spec_leave_def leave_unfold is_member_presence)
qed

lemma announce_refines:
  assumes "rooms_ok P rs" "length blob \<le> MAX_ANNOUNCE_LEN" "announce t h blob rs n = (res, rs', n')"
  shows "(res, presence rs') = spec_announce t (h_peer h) (h_conn h) blob (presence rs)"
proof (cases "is_member t h rs")
  case True
  then obtain s where s: "hm_get (room_of rs t) (h_peer h) = Some s" "h_conn (s_handle s) = h_conn h"
    by (auto simp: is_member_get)
  have a: "res" "room_get rs' = (room_get rs)(t \<mapsto> hm_insert (h_peer h) (s\<lparr>s_blob := blob\<rparr>) (room_of rs t))"
    using announce_table [OF assms(1) True assms(2,3)] s by auto
  then show ?thesis
    using presence_upd [OF a(2)] True s
    by (simp add: spec_announce_def is_member_presence view_insert presence_def)
next
  case False
  then show ?thesis using assms(3) by (auto simp: spec_announce_def announce_unfold is_member_presence)
qed

section \<open>Fan-out\<close>

text \<open>The handles of the other members, in iteration order.\<close>

definition others :: "room \<Rightarrow> endpoint_id \<Rightarrow> handle list" where
  "others r i = map (s_handle \<circ> snd) (filter (\<lambda>(j, _). j \<noteq> i) r)"

lemma broadcast_fan: "broadcast r i frame n = fold (\<lambda>h. handle_push_frame h frame) (others r i) n"
  unfolding broadcast_def others_def
  by (induction r arbitrary: n) auto

lemma publish_fan:
  "fold (\<lambda>(j, s) (sent, n). if j \<noteq> i then (sent + 1, handle_deliver (s_handle s) lane f n) else (sent, n))
     r (k, n) = (k + length (others r i), fold (\<lambda>h. handle_deliver h lane f) (others r i) n)"
  unfolding others_def by (induction r arbitrary: k n) auto

lemma others_conns:
  assumes "room_ok P cap r"
  shows "h_conn ` set (others r i) = {k. \<exists>j b. j \<noteq> i \<and> view r j = Some (k, b)}"
proof -
  have "hm_wf r" using assms by (simp add: room_ok_def)
  then have "(j, s) \<in> set r \<longleftrightarrow> hm_get r j = Some s" for j s by (rule hm_in_set_get)
  then show ?thesis by (force simp: others_def view_def)
qed

lemma others_distinct:
  assumes "room_ok P cap r"
  shows "distinct (map h_conn (others r i))"
proof -
  have wf: "hm_wf r" using assms by (simp add: room_ok_def)
  let ?ps = "filter (\<lambda>(j, _). j \<noteq> i) r"
  have "P (h_conn (s_handle s)) = j" if "(j, s) \<in> set r" for j s
    using that assms hm_in_set_get [OF wf] by (auto simp: room_ok_def slot_ok_def)
  then have "map P (map h_conn (others r i)) = map fst ?ps"
    by (auto simp: others_def)
  moreover have "distinct (map fst ?ps)" using wf by (simp add: hm_wf_def distinct_map_filter)
  ultimately show ?thesis by (metis distinct_map)
qed

lemma others_length:
  assumes "hm_wf r" "hm_get r i \<noteq> None"
  shows "length (others r i) = length r - 1"
proof -
  have "length (others r i) = length (hm_remove i r)"
    by (simp add: others_def hm_remove_def AList.delete_eq case_prod_unfold eq_commute)
  then show ?thesis using assms by (simp add: hash_simps)
qed

lemma others_not_self:
  assumes "room_ok P cap r" "P k = i"
  shows "k \<notin> h_conn ` set (others r i)"
proof -
  have "hm_wf r" using assms(1) by (simp add: room_ok_def)
  then have "P (h_conn (s_handle s)) = j" if "(j, s) \<in> set r" for j s
    using that assms(1) hm_in_set_get [of r j s] by (auto simp: room_ok_def slot_ok_def)
  then show ?thesis using assms(2) by (auto simp: others_def)
qed

text \<open>A broadcast rewrites exactly the other members' connections, each once.\<close>

lemma broadcast_conns:
  assumes "room_ok P cap r \<or> r = []"
  shows "n_conns (broadcast r i frame n) k =
      (if \<exists>j b. j \<noteq> i \<and> view r j = Some (k, b) then push_frame frame (n_conns n k) else n_conns n k)
    \<and> n_stats (broadcast r i frame n) = n_stats n"
proof (cases "r = []")
  case False
  then have ok: "room_ok P cap r" using assms by simp
  show ?thesis
    using frame_fan.fan_conns [OF others_distinct [OF ok], where frame = frame]
      frame_fan.fan_stats [OF others_distinct [OF ok], where frame = frame]
    by (simp add: broadcast_fan others_conns [OF ok])
qed (simp add: broadcast_def view_def)

lemma broadcast_perm:
  assumes "room_ok P cap r" "mset r' = mset r"
  shows "broadcast r' i frame n = broadcast r i frame n"
  unfolding broadcast_fan
proof (rule frame_fan.fan_perm [symmetric])
  show "distinct (map h_conn (others r i))" by (rule others_distinct [OF assms(1)])
  show "mset (others r i) = mset (others r' i)" using assms(2) by (simp add: others_def)
qed

section \<open>Occupancy\<close>

definition all_rooms :: "rooms \<Rightarrow> (topic \<times> room) list" where
  "all_rooms rs = concat (r_shards rs)"

lemma occupancy_all:
  "occupancy rs = (length (all_rooms rs), sum_list (map (length \<circ> snd) (all_rooms rs)))"
proof -
  have "foldl (\<lambda>(rooms, mems) sh. (rooms + length sh, mems + sum_list (map (length \<circ> snd) sh))) (a, b) xs =
      (a + length (concat xs), b + sum_list (map (length \<circ> snd) (concat xs)))"
    for a b and xs :: "(topic, room) hash_map list"
    by (induction xs arbitrary: a b) auto
  then show ?thesis by (simp add: occupancy_def all_rooms_def)
qed

lemma all_rooms_wf:
  assumes "shards_wf rs"
  shows "hm_wf (all_rooms rs)"
proof -
  have "distinct (map fst (concat xs))"
    if "\<forall>i < length xs. hm_wf (xs ! i) \<and> (\<forall>t \<in> fst ` set (xs ! i). shard_index t = i + o')" for xs o'
    using that
  proof (induction xs arbitrary: o')
    case (Cons x xs)
    have x: "hm_wf x" "\<forall>t \<in> fst ` set x. shard_index t = o'"
      using Cons.prems [rule_format, of 0] by auto
    have later: "hm_wf (xs ! i) \<and> (\<forall>t \<in> fst ` set (xs ! i). shard_index t = i + Suc o')" if "i < length xs" for i
      using Cons.prems [rule_format, of "Suc i"] that by simp
    have "fst ` set x \<inter> fst ` set (concat xs) = {}"
    proof -
      have "shard_index t \<noteq> o'" if mem: "t \<in> fst ` set (concat xs)" for t
      proof -
        obtain sh where "sh \<in> set xs" "t \<in> fst ` set sh" using mem by auto
        then obtain i where "i < length xs" "t \<in> fst ` set (xs ! i)" by (metis in_set_conv_nth)
        then show ?thesis using later [of i] by auto
      qed
      then show ?thesis using x(2) by blast
    qed
    then show ?case using x(1) Cons.IH [of "Suc o'"] later by (simp add: hm_wf_def)
  qed simp
  from this [of "r_shards rs" 0] show ?thesis
    using assms by (simp add: shards_wf_def all_rooms_def hm_wf_def)
qed

lemma all_rooms_get:
  assumes "shards_wf rs"
  shows "hm_get (all_rooms rs) t = Some r \<longleftrightarrow> room_get rs t = Some r"
proof -
  have "(t, r) \<in> set (all_rooms rs) \<longleftrightarrow> (t, r) \<in> set (shard rs t)"
  proof
    assume "(t, r) \<in> set (all_rooms rs)"
    then obtain sh where "sh \<in> set (r_shards rs)" "(t, r) \<in> set sh" by (auto simp: all_rooms_def)
    then obtain i where "i < SHARDS" "(t, r) \<in> set (r_shards rs ! i)"
      using assms by (metis in_set_conv_nth shards_wf_def)
    moreover have "shard_index t = i"
      using calculation assms by (force simp: shards_wf_def)
    ultimately show "(t, r) \<in> set (shard rs t)" by (simp add: shard_def)
  next
    assume "(t, r) \<in> set (shard rs t)"
    then show "(t, r) \<in> set (all_rooms rs)"
      using assms shard_index_less [of t] by (auto simp: all_rooms_def shards_wf_def shard_def)
  qed
  then show ?thesis
    using hm_in_set_get [OF all_rooms_wf [OF assms]] hm_in_set_get [of "shard rs t"] shard_wf [OF assms]
    by (simp add: room_get_def)
qed

lemma hm_sum_keys:
  "hm_wf m \<Longrightarrow> sum_list (map (length \<circ> snd) m) = (\<Sum>k\<in>dom (hm_get m). length (the (hm_get m k)))"
  and hm_card_keys: "hm_wf m \<Longrightarrow> length m = card (dom (hm_get m))"
proof -
  assume wf: "hm_wf m"
  then have inj: "inj_on fst (set m)" and d: "distinct m" by (auto simp: hm_wf_def distinct_map)
  have "sum_list (map (length \<circ> snd) m) = (\<Sum>p\<in>set m. length (snd p))"
    using d by (simp add: sum_list_distinct_conv_sum_set)
  also have "\<dots> = (\<Sum>p\<in>set m. length (the (hm_get m (fst p))))"
    using hm_in_set_get [OF wf] by (intro sum.cong) auto
  also have "\<dots> = (\<Sum>k\<in>dom (hm_get m). length (the (hm_get m k)))"
    by (simp add: dom_map_of_conv_image_fst sum.reindex [OF inj])
  finally show "sum_list (map (length \<circ> snd) m) = (\<Sum>k\<in>dom (hm_get m). length (the (hm_get m k)))" .
  show "length m = card (dom (hm_get m))"
    using wf by (metis distinct_card dom_map_of_conv_image_fst hm_wf_def length_map list.set_map)
qed

section \<open>Joining\<close>

lemma other_members_set:
  assumes "hm_wf r"
  shows "set (other_members r i) = {\<lparr>m_id = j, m_blob = b\<rparr> | j k b. j \<noteq> i \<and> view r j = Some (k, b)}"
proof -
  have "(j, s) \<in> set r \<longleftrightarrow> hm_get r j = Some s" for j s using hm_in_set_get [OF assms] .
  then show ?thesis by (force simp: other_members_def view_def)
qed

lemma other_members_distinct: "hm_wf r \<Longrightarrow> distinct (map m_id (other_members r i))"
  by (simp add: hm_wf_def other_members_def comp_def case_prod_unfold distinct_map_filter)

lemma join_enters_presence:
  assumes "rooms_ok P rs" "\<not> is_full rs t (h_peer h)" "P (h_conn h) = h_peer h"
    and "join t h rs n = (res, rs', n')"
  shows "res = Some (card (dom (presence rs' t)))
    \<and> presence rs' = (presence rs)(t := (presence rs t)(h_peer h \<mapsto> (h_conn h, [])))"
  using join_refines [OF assms(1,3,4)] assms(2) is_full_presence [OF assms(1)]
  by (auto simp: spec_join_def Let_def)

text \<open>What the other members are told.\<close>

lemma join_told:
  assumes "rooms_ok P rs" "\<not> is_full rs t (h_peer h)" "P (h_conn h) = h_peer h" "join t h rs n = (res, rs', n')"
    and "presence rs t i = Some (k, b)" "i \<noteq> h_peer h" "k \<noteq> h_conn h"
  shows "n_conns n' k = push_frame (server_encode (Joined t (h_peer h))) (n_conns n k)"
proof -
  note e = join_enters [OF assms(1-4)]
  let ?r = "hm_insert (h_peer h) \<lparr>s_handle = h, s_blob = []\<rparr> (room_of rs t)"
  have "view ?r i = Some (k, b)" using assms(5,6) by (simp add: view_insert presence_def)
  moreover have "room_ok P (r_max_members rs) ?r \<or> ?r = []" using e by blast
  note br = broadcast_conns [OF this, THEN conjunct1]
  ultimately show ?thesis
    using e assms(6,7) by (auto simp del: server_encode.simps simp: br handle_push_session_def on_conn_effect)
qed

lemma announce_told:
  assumes "rooms_ok P rs" "is_member t h rs" "length blob \<le> MAX_ANNOUNCE_LEN" "announce t h blob rs n = (res, rs', n')"
    and "presence rs t i = Some (k, b)" "i \<noteq> h_peer h"
  shows "n_conns n' k = push_frame (server_encode (Presence t (h_peer h) blob)) (n_conns n k)"
proof -
  note e = announce_table [OF assms(1-4)]
  let ?r = "hm_insert (h_peer h) ((the (hm_get (room_of rs t) (h_peer h)))\<lparr>s_blob := blob\<rparr>) (room_of rs t)"
  have "view ?r i = Some (k, b)" using assms(5,6) by (simp add: view_insert presence_def)
  moreover have "room_ok P (r_max_members rs) ?r \<or> ?r = []" using e by blast
  note br = broadcast_conns [OF this, THEN conjunct1]
  ultimately show ?thesis using e assms(6) by (auto simp del: server_encode.simps simp: br)
qed

section \<open>Properties\<close>

text \<open>C12: \<open>join\<close>, \<open>leave\<close> and \<open>announce\<close> implement the contract: their result and the presence
  table after them are those of the specification on the presence table before. Sharding and the
  removal of empty rooms do not show.\<close>

theorem rooms_refine:
  assumes "rooms_ok P rs" "P (h_conn h) = h_peer h" "length blob \<le> MAX_ANNOUNCE_LEN"
  shows "(case join t h rs n of (res, rs', _) \<Rightarrow> (res, presence rs')) =
           spec_join (r_max_members rs) t (h_peer h) (h_conn h) (presence rs)
       \<and> (case leave t h rs n of (res, rs', _) \<Rightarrow> (res, presence rs')) =
           spec_leave t (h_peer h) (h_conn h) (presence rs)
       \<and> (case announce t h blob rs n of (res, rs', _) \<Rightarrow> (res, presence rs')) =
           spec_announce t (h_peer h) (h_conn h) blob (presence rs)"
proof (intro conjI)
  show "(case join t h rs n of (res, rs', _) \<Rightarrow> (res, presence rs')) =
      spec_join (r_max_members rs) t (h_peer h) (h_conn h) (presence rs)"
    by (cases "join t h rs n") (simp only: prod.case join_refines [OF assms(1,2)])
  show "(case leave t h rs n of (res, rs', _) \<Rightarrow> (res, presence rs')) =
      spec_leave t (h_peer h) (h_conn h) (presence rs)"
    by (cases "leave t h rs n") (simp only: prod.case leave_refines [OF assms(1)])
  obtain res rs' n' where a: "announce t h blob rs n = (res, rs', n')" by (metis prod_cases3)
  show "(case announce t h blob rs n of (res, rs', _) \<Rightarrow> (res, presence rs')) =
      spec_announce t (h_peer h) (h_conn h) blob (presence rs)"
    unfolding a prod.case by (rule announce_refines [OF assms(1,3) a])
qed

text \<open>Every method keeps the rooms well formed: no room is empty or above the member cap, each
  slot is held by a connection of its own endpoint, and no blob exceeds the announce limit.\<close>

theorem rooms_invariant:
  assumes "rooms_ok P rs" "P (h_conn h) = h_peer h" "length blob \<le> MAX_ANNOUNCE_LEN"
  shows "rooms_ok P (fst (snd (join t h rs n))) \<and> rooms_ok P (fst (snd (leave t h rs n)))
    \<and> rooms_ok P (fst (snd (announce t h blob rs n)))"
  using assms by (simp add: join_ok leave_ok announce_ok)

text \<open>What a publish by a member does, whatever the iteration order.\<close>

lemma publish_members:
  assumes "rooms_ok P rs" "is_member t h rs"
  shows "fst (publish t h lane f rs n) = Inr (card (dom (presence rs t)) - 1)
    \<and> n_conns (snd (publish t h lane f rs n)) =
        (\<lambda>k. if \<exists>j b. j \<noteq> h_peer h \<and> presence rs t j = Some (k, b)
             then snd (deliver lane f (n_conns n k)) else n_conns n k)"
proof -
  let ?r = "room_of rs t"
  have get: "room_get rs t = Some ?r" using is_member_room [OF assms(2)] .
  have ok: "room_ok P (r_max_members rs) ?r" using rooms_ok_room [OF assms(1) get] .
  have own: "owns_slot ?r h" "hm_get ?r (h_peer h) \<noteq> None"
    using assms(2) get by (auto simp: is_member_def owns_slot_def split: option.splits)
  have "publish t h lane f rs n =
      (Inr (length (others ?r (h_peer h))), fold (\<lambda>g. handle_deliver g lane f) (others ?r (h_peer h)) n)"
    using own(1) by (simp add: publish_def get publish_fan)
  moreover have "length (others ?r (h_peer h)) = card (dom (presence rs t)) - 1"
    using ok own(2) by (simp add: others_length presence_def card_view room_ok_def)
  ultimately show ?thesis
    using deliver_fan.fan_conns [OF others_distinct [OF ok], where lane = lane and d = f]
    by (simp add: others_conns [OF ok] presence_def)
qed

text \<open>C13: a publish by a member reaches every other member's connection exactly once and no other
  connection, whatever the iteration order, and returns how many it reached.\<close>

theorem publish_fanout:
  assumes "rooms_ok P rs" "is_member t h rs"
  shows "fst (publish t h lane f rs n) = Inr (card (dom (presence rs t)) - 1)
    \<and> n_conns (snd (publish t h lane f rs n)) =
        (\<lambda>k. if \<exists>j b. j \<noteq> h_peer h \<and> presence rs t j = Some (k, b)
             then snd (deliver lane f (n_conns n k)) else n_conns n k)"
  by (rule publish_members [OF assms])

text \<open>A directed publish, in terms of the presence table.\<close>

lemma publish_to_table:
  "publish_to t h j lane f rs n =
     (if map_option fst (presence rs t (h_peer h)) \<noteq> Some (h_conn h) then (Inl RefNotSubscribed, n)
      else if j = h_peer h \<or> presence rs t j = None then (Inl RefNoSuchRecipient, n)
      else (Inr 1, handle_deliver \<lparr>h_peer = j, h_conn = fst (the (presence rs t j))\<rparr> lane f n))"
proof (cases "is_member t h rs")
  case True
  then have get: "room_get rs t = Some (room_of rs t)" "owns_slot (room_of rs t) h"
    using is_member_room [OF True] by (auto simp: is_member_def split: option.splits)
  have m: "map_option fst (presence rs t (h_peer h)) = Some (h_conn h)"
    using True is_member_presence by blast
  show ?thesis
  proof (cases "hm_get (room_of rs t) j")
    case None
    then show ?thesis using get m by (simp add: publish_to_def presence_def view_def)
  next
    case (Some s)
    then have "presence rs t j = Some (h_conn (s_handle s), s_blob s)"
      by (simp add: presence_def view_def)
    then show ?thesis using get m Some by (simp add: publish_to_def handle_deliver_def)
  qed
next
  case False
  then show ?thesis
    unfolding is_member_presence [symmetric]
    by (cases "room_get rs t") (simp_all add: publish_to_def is_member_def)
qed

text \<open>C23: a directed publish reaches the recipient alone. It is refused when the sender holds no slot, and when the
  recipient is the sender or not in the room; otherwise it counts one delivery. After it every connection is as
  before except the one that holds the recipient's slot, which has been handed the delivery, and that only if
  the publish was not refused; the only counter that moves is that of the bulk deliveries this one displaced.\<close>

theorem publish_to_one:
  "fst (publish_to t h j lane f rs n) =
     (if map_option fst (presence rs t (h_peer h)) \<noteq> Some (h_conn h) then Inl RefNotSubscribed
      else if j = h_peer h \<or> presence rs t j = None then Inl RefNoSuchRecipient else Inr 1)
   \<and> n_conns (snd (publish_to t h j lane f rs n)) =
       (\<lambda>k. if fst (publish_to t h j lane f rs n) = Inr 1 \<and> map_option fst (presence rs t j) = Some k
            then snd (deliver lane f (n_conns n k)) else n_conns n k)
   \<and> n_stats (snd (publish_to t h j lane f rs n)) =
       (if fst (publish_to t h j lane f rs n) = Inr 1
        then st_bulk_dropped_update (\<lambda>d. d + of_nat (fst (deliver lane f (n_conns n (fst (the (presence rs t j))))))) (n_stats n)
        else n_stats n)"
  by (auto simp: publish_to_table deliver_fan.eff_conns deliver_fan.eff_stats fun_eq_iff)

text \<open>C21: on joining, the newcomer's connection is queued one snapshot holding exactly the other
  members with their current blobs, every other member's connection one JOINED, and no other
  connection anything.\<close>

theorem join_announces:
  assumes ok: "rooms_ok P rs" and P: "P (h_conn h) = h_peer h" and f: "\<not> is_full rs t (h_peer h)"
  shows "\<exists>ms. distinct (map m_id ms)
    \<and> set ms = {\<lparr>m_id = j, m_blob = b\<rparr> | j k b. j \<noteq> h_peer h \<and> presence rs t j = Some (k, b)}
    \<and> n_conns (snd (snd (join t h rs n))) =
        (\<lambda>k. if k = h_conn h
             then push_session (SnapshotItem t ms) (snapshot_wire_len ms (r_chunk_entries rs)) (n_conns n k)
             else if \<exists>j b. j \<noteq> h_peer h \<and> presence rs t j = Some (k, b)
             then push_frame (server_encode (Joined t (h_peer h))) (n_conns n k)
             else n_conns n k)"
proof -
  let ?r = "hm_insert (h_peer h) \<lparr>s_handle = h, s_blob = []\<rparr> (room_of rs t)"
  let ?ms = "other_members ?r (h_peer h)"
  obtain res rs' n' where j: "join t h rs n = (res, rs', n')" by (metis prod_cases3)
  have r: "room_ok P (r_max_members rs) ?r"
    and n': "n' = broadcast ?r (h_peer h) (server_encode (Joined t (h_peer h)))
        (handle_push_session h (SnapshotItem t ?ms) (snapshot_wire_len ?ms (r_chunk_entries rs)) n)"
    using join_enters [OF ok f P j] by simp_all
  have wf: "hm_wf ?r" using r by (simp add: room_ok_def)
  have v: "j \<noteq> h_peer h \<Longrightarrow> view ?r j = presence rs t j" for j
    by (simp add: view_insert presence_def)
  have "set ?ms = {\<lparr>m_id = j, m_blob = b\<rparr> | j k b. j \<noteq> h_peer h \<and> presence rs t j = Some (k, b)}"
    using other_members_set [OF wf, of "h_peer h"] v by auto
  moreover have ex: "(\<exists>j b. j \<noteq> h_peer h \<and> view ?r j = Some (k, b)) \<longleftrightarrow>
      (\<exists>j b. j \<noteq> h_peer h \<and> presence rs t j = Some (k, b))" for k
    using v by metis
  moreover have self: "\<not> (\<exists>j b. j \<noteq> h_peer h \<and> presence rs t j = Some (h_conn h, b))"
    using others_not_self [OF r P] unfolding others_conns [OF r] ex by simp
  moreover have "n_conns n' k = (if k = h_conn h
      then push_session (SnapshotItem t ?ms) (snapshot_wire_len ?ms (r_chunk_entries rs)) (n_conns n k)
      else if \<exists>j b. j \<noteq> h_peer h \<and> presence rs t j = Some (k, b)
      then push_frame (server_encode (Joined t (h_peer h))) (n_conns n k) else n_conns n k)" for k
    unfolding n' broadcast_conns [OF disjI1 [OF r], THEN conjunct1] ex
    using self
    by (cases "k = h_conn h")
      (auto simp del: server_encode.simps simp: handle_push_session_def on_conn_effect)
  ultimately show ?thesis
    using other_members_distinct [OF wf] j by (intro exI [of _ ?ms]) (auto simp del: server_encode.simps)
qed

text \<open>C22: a newer connection of the same endpoint takes the slot over: the room does not grow, and
  from then on the old connection is no member; its leave, announce and publish change nothing.\<close>

theorem takeover:
  assumes ok: "rooms_ok P rs" and m: "is_member t h1 rs"
    and h2: "h_peer h2 = h_peer h1" "h_conn h2 \<noteq> h_conn h1" "P (h_conn h2) = h_peer h2"
    and j: "join t h2 rs n = (res, rs', n')"
  shows "res = Some (card (dom (presence rs t))) \<and> is_member t h2 rs' \<and> \<not> is_member t h1 rs'
    \<and> leave t h1 rs' n'' = (None, rs', n'') \<and> announce t h1 blob rs' n'' = (False, rs', n'')
    \<and> publish t h1 lane f rs' n'' = (Inl RefNotSubscribed, n'')"
proof -
  have m1: "map_option fst (presence rs t (h_peer h1)) = Some (h_conn h1)"
    using m by (simp add: is_member_presence)
  then have "\<not> is_full rs t (h_peer h2)" using is_full_presence [OF ok] h2(1) by auto
  then have p: "res = Some (card (dom (presence rs' t)))"
    "presence rs' = (presence rs)(t := (presence rs t)(h_peer h2 \<mapsto> (h_conn h2, [])))"
    using join_enters_presence [OF ok _ h2(3) j] by auto
  have "dom (presence rs' t) = dom (presence rs t)" using p(2) m1 h2(1) by auto
  moreover have h1: "\<not> is_member t h1 rs'" and "is_member t h2 rs'"
    using p(2) h2 by (auto simp: is_member_presence)
  moreover have "publish t h1 lane f rs' n'' = (Inl RefNotSubscribed, n'')"
    using h1 by (auto simp: publish_def is_member_def split: option.splits)
  ultimately show ?thesis
    using p(1) by (simp add: leave_unfold announce_unfold)
qed

text \<open>\<open>occupancy\<close> counts the topics that have members, and all memberships.\<close>

theorem occupancy_counts:
  assumes "rooms_ok P rs"
  shows "occupancy rs =
    (card {t. presence rs t \<noteq> Map.empty}, \<Sum>t | presence rs t \<noteq> Map.empty. card (dom (presence rs t)))"
proof -
  have wf: "shards_wf rs" using rooms_ok_wf [OF assms] .
  have get: "hm_get (all_rooms rs) = room_get rs"
  proof
    show "hm_get (all_rooms rs) t = room_get rs t" for t
      using all_rooms_get [OF wf, of t] by (cases "room_get rs t"; cases "hm_get (all_rooms rs) t") auto
  qed
  have len: "length (room_of rs t) = card (dom (presence rs t))" for t
    using card_view [OF room_of_wf [OF assms]] by (simp add: presence_def)
  have dom: "dom (room_get rs) = {t. presence rs t \<noteq> Map.empty}"
  proof -
    have "presence rs t \<noteq> Map.empty \<longleftrightarrow> room_of rs t \<noteq> []" for t
      by (metis dom_empty dom_eq_empty_conv dom_map_of_conv_image_fst dom_view image_is_empty presence_def set_empty)
    then show ?thesis using rooms_ok_room [OF assms]
      by (auto simp: room_of_def room_ok_def split: option.splits)
  qed
  have "(\<Sum>t\<in>dom (room_get rs). length (the (room_get rs t))) =
      (\<Sum>t\<in>dom (room_get rs). card (dom (presence rs t)))"
    by (rule sum.cong) (auto simp: len [symmetric] room_of_def)
  then show ?thesis
    using hm_sum_keys [OF all_rooms_wf [OF wf]] hm_card_keys [OF all_rooms_wf [OF wf]]
    by (simp add: occupancy_all get dom)
qed

section \<open>A small instance\<close>

lemma join_with_room:
  assumes "rooms_ok P rs" "P (h_conn h) = h_peer h" "card (dom (presence rs t)) < r_max_members rs"
  shows "rooms_ok P (fst (snd (join t h rs n)))
    \<and> r_max_members (fst (snd (join t h rs n))) = r_max_members rs
    \<and> presence (fst (snd (join t h rs n))) = (presence rs)(t := (presence rs t)(h_peer h \<mapsto> (h_conn h, [])))"
proof -
  have f: "\<not> is_full rs t (h_peer h)" using assms(3) is_full_presence [OF assms(1)] by simp
  obtain res rs' n' where j: "join t h rs n = (res, rs', n')" by (metis prod_cases3)
  then show ?thesis
    using join_enters [OF assms(1) f assms(2) j] join_enters_presence [OF assms(1) f assms(2) j] by simp
qed

definition peer_of :: "u64 \<Rightarrow> endpoint_id" where
  "peer_of k = EndpointId (replicate 32 (ucast k))"

definition handle_of :: "u64 \<Rightarrow> handle" where
  "handle_of k = \<lparr>h_peer = peer_of k, h_conn = k\<rparr>"

definition sample_topic :: topic where "sample_topic = Topic (replicate 32 7)"

definition sample_net :: net where
  "sample_net = \<lparr>n_conns = \<lambda>_. conn_new limits_default, n_stats = stats_default\<rparr>"

definition one_member :: rooms where
  "one_member = fst (snd (join sample_topic (handle_of 1) (rooms_new limits_default) sample_net))"

definition two_members :: rooms where
  "two_members = fst (snd (join sample_topic (handle_of 2) one_member sample_net))"

lemma handle_of_simps [simp]: "h_peer (handle_of k) = peer_of k" "h_conn (handle_of k) = k"
  by (simp_all add: handle_of_def)

lemma peer_of_distinct [simp]: "peer_of 2 \<noteq> peer_of 1" "peer_of 1 \<noteq> peer_of 2"
  by (simp_all add: peer_of_def)

lemma presence_new: "presence (rooms_new l) = (\<lambda>_. Map.empty)"
proof -
  have "room_get (rooms_new l) t = None" for t
    using shard_index_less [of t] by (simp add: room_get_def shard_def rooms_new_def)
  then show ?thesis by (auto simp: presence_def room_of_def view_def fun_eq_iff)
qed

lemma one_member:
  "rooms_ok peer_of one_member" "r_max_members one_member = 1024"
  "presence one_member = (\<lambda>_. Map.empty)(sample_topic := [peer_of 1 \<mapsto> (1, [])])"
proof -
  have m: "r_max_members (rooms_new limits_default) = 1024"
    by (simp add: rooms_new_def limits_default_def MAX_MEMBERS_PER_TOPIC_def)
  note j = join_with_room [OF rooms_new_ok [of peer_of limits_default], of "handle_of 1" sample_topic sample_net]
  show "rooms_ok peer_of one_member" "r_max_members one_member = 1024"
    "presence one_member = (\<lambda>_. Map.empty)(sample_topic := [peer_of 1 \<mapsto> (1, [])])"
    using j m by (simp_all add: one_member_def presence_new)
qed

lemma two_members:
  "rooms_ok peer_of two_members" "r_max_members two_members = 1024"
  "presence two_members =
     (\<lambda>_. Map.empty)(sample_topic := [peer_of 1 \<mapsto> (1, []), peer_of 2 \<mapsto> (2, [])])"
  using join_with_room [OF one_member(1), of "handle_of 2" sample_topic sample_net]
  by (simp_all add: two_members_def one_member(2,3))

lemma two_members_in: "is_member sample_topic (handle_of 1) two_members"
  by (simp add: is_member_presence two_members(3))

theorem rooms_refine_witness:
  "(case leave sample_topic (handle_of 2) two_members sample_net of (res, rs', _) \<Rightarrow> (res, presence rs')) =
     spec_leave sample_topic (peer_of 2) 2 (presence two_members)"
  using rooms_refine [OF two_members(1), of "handle_of 2" "[]"] by simp

theorem rooms_invariant_witness:
  "rooms_ok peer_of (fst (snd (join sample_topic (handle_of 3) two_members sample_net)))"
  using rooms_invariant [OF two_members(1), of "handle_of 3" "[]"] by simp

theorem publish_fanout_witness:
  "fst (publish sample_topic (handle_of 1) Bulk (deliver_new [] []) two_members sample_net) = Inr 1"
  using publish_fanout [OF two_members(1) two_members_in] by (simp add: two_members(3))

theorem join_announces_witness:
  "\<exists>ms. distinct (map m_id ms)
     \<and> set ms = {\<lparr>m_id = j, m_blob = b\<rparr> | j k b. j \<noteq> peer_of 3 \<and> presence two_members sample_topic j = Some (k, b)}"
proof -
  have "\<not> is_full two_members sample_topic (h_peer (handle_of 3))"
    by (simp add: is_full_presence [OF two_members(1)] two_members(2,3))
  then show ?thesis using join_announces [OF two_members(1), of "handle_of 3"] by force
qed

theorem takeover_witness:
  "\<not> is_member sample_topic (handle_of 1)
     (fst (snd (join sample_topic (handle_of 257) two_members sample_net)))"
proof -
  have "peer_of 257 = peer_of 1" by (simp add: peer_of_def)
  then show ?thesis
    using takeover [OF two_members(1) two_members_in, of "handle_of 257" sample_net]
    by (cases "join sample_topic (handle_of 257) two_members sample_net") simp
qed

theorem occupancy_counts_witness: "occupancy two_members = (1, 2)"
proof -
  have "{t. presence two_members t \<noteq> Map.empty} = {sample_topic}" by (auto simp: two_members(3))
  then show ?thesis using occupancy_counts [OF two_members(1)] by (simp add: two_members(3))
qed

end
