(* ===== verification/Session.thy ===== *)
theory Session
  imports Framing Rooms
begin

text \<open>
  What a connection's readers do, from \<open>src/src/server.rs\<close>: \<open>ConnectionSlot\<close>, \<open>Readers\<close>,
  \<open>Session\<close> with \<open>handle_frame\<close>, \<open>read_loop\<close> and \<open>leave_all\<close>, the lane readers
  (\<open>accept_lanes\<close>, \<open>read_lane\<close>, \<open>decode_lane_frame\<close>) and \<open>datagram_loop\<close>. The shared state is
  the record \<open>sfu\<close>; each lock-protected operation is one function on it.

  \<open>Instant::now()\<close> reads the next entry of the clock. Logging is left out. Three things come from
  the iroh library and are parameters: which byte strings are keys (\<open>ev_valid_key\<close>), the text of
  its key error (\<open>ev_key_error\<close>), and which datagrams a connection accepts (\<open>ev_sendable\<close>).
\<close>

section \<open>Shared state\<close>

record env =
  ev_valid_key :: "bytes \<Rightarrow> bool"
  ev_key_error :: bytes
  ev_sendable :: "u64 \<Rightarrow> bytes \<Rightarrow> bool"

record sfu =
  f_rooms :: rooms
  f_net :: net
  f_limits :: limits
  f_clock :: "nat \<Rightarrow> nat"
  f_ticks :: nat

definition instant_now :: "sfu \<Rightarrow> nat \<times> sfu" where
  "instant_now s = (f_clock s (f_ticks s), s\<lparr>f_ticks := Suc (f_ticks s)\<rparr>)"

definition on_net :: "(net \<Rightarrow> net) \<Rightarrow> sfu \<Rightarrow> sfu" where
  "on_net g s = s\<lparr>f_net := g (f_net s)\<rparr>"

definition stat :: "((u64 \<Rightarrow> u64) \<Rightarrow> stats \<Rightarrow> stats) \<Rightarrow> sfu \<Rightarrow> sfu" where
  "stat field = on_net (\<lambda>n. n\<lparr>n_stats := bump field (n_stats n)\<rparr>)"

definition send_error :: "handle \<Rightarrow> topic option \<Rightarrow> bytes \<Rightarrow> sfu \<Rightarrow> sfu" where
  "send_error h topic reason = on_net (handle_error h topic reason)"

text \<open>\<open>ConnectionSlot\<close>: acquired against \<open>max_connections\<close>, given back when dropped.\<close>

definition slot_acquire :: "limits \<Rightarrow> stats \<Rightarrow> bool \<times> stats" where
  "slot_acquire limits st =
     (let before = st_connections st; st1 = st\<lparr>st_connections := before + 1\<rparr>
      in if before \<ge> of_nat (max_connections limits)
         then (False, st1\<lparr>st_connections := st_connections st1 - 1\<rparr>)
         else (True, st1))"

definition slot_drop :: "stats \<Rightarrow> stats" where
  "slot_drop st = st\<lparr>st_connections := st_connections st - 1\<rparr>"

text \<open>The head of \<open>accept_loop\<close>: a handshake is refused at the cap.\<close>

definition accept_incoming :: "limits \<Rightarrow> stats \<Rightarrow> bool \<times> stats" where
  "accept_incoming limits st =
     (let (ok, st1) = slot_acquire limits st
      in if ok then (True, st1) else (False, bump st_connections_refused_update st1))"

section \<open>Error texts\<close>

fun dec_digits :: "nat \<Rightarrow> bytes" where
  "dec_digits n = (if n < 10 then [word_of_nat (48 + n)] else dec_digits (n div 10) @ [word_of_nat (48 + n mod 10)])"

declare dec_digits.simps [simp del]

definition frame_length_text :: "usize \<Rightarrow> bytes" where
  "frame_length_text n = ascii ''frame length '' @ dec_digits n @ ascii '' out of range''"

text \<open>\<open>format!("{err:#}")\<close>: an error with its cause.\<close>

fun error_text :: "env \<Rightarrow> proto_error \<Rightarrow> bytes" where
  "error_text ev TruncatedTopic = ascii ''truncated topic''"
| "error_text ev TruncatedId = ascii ''truncated endpoint id''"
| "error_text ev InvalidId = ascii ''invalid endpoint id: '' @ ev_key_error ev"
| "error_text ev (UnknownClientFrame tag) = ascii ''unknown client frame 0x'' @ hex_byte tag"
| "error_text ev (UnknownServerFrame tag) = ascii ''unknown server frame 0x'' @ hex_byte tag"
| "error_text ev (TrailingClient tag) = ascii ''trailing bytes in client frame 0x'' @ hex_byte tag"
| "error_text ev (TrailingServer tag) = ascii ''trailing bytes in server frame 0x'' @ hex_byte tag"
| "error_text ev TruncatedHeader = ascii ''truncated snapshot header''"
| "error_text ev TruncatedBlobLength = ascii ''truncated snapshot blob length''"
| "error_text ev TruncatedBlob = ascii ''truncated snapshot blob''"
| "error_text ev NotALaneFrame = ascii ''not a lane frame''"

definition malformed_text :: "env \<Rightarrow> byte \<Rightarrow> proto_error \<Rightarrow> bytes" where
  "malformed_text ev tag e = ascii ''malformed frame 0x'' @ hex_byte tag @ ascii '': '' @ error_text ev e"

section \<open>Readers\<close>

record readers =
  rd_handle :: handle
  rd_rate :: bucket

definition take_publish :: "usize \<Rightarrow> readers \<Rightarrow> sfu \<Rightarrow> bool \<times> readers \<times> sfu" where
  "take_publish frame_len rd s =
     (let (now, s1) = instant_now s; (ok, b) = try_take now frame_len (rd_rate rd)
      in (ok, rd\<lparr>rd_rate := b\<rparr>, s1))"

definition rate_limited :: "handle \<Rightarrow> topic \<Rightarrow> sfu \<Rightarrow> sfu" where
  "rate_limited h topic s =
     send_error h (Some topic) (reason_text RateLimited) (stat st_rate_limited_update s)"

definition skip_malformed :: "env \<Rightarrow> handle \<Rightarrow> byte \<Rightarrow> proto_error \<Rightarrow> sfu \<Rightarrow> sfu" where
  "skip_malformed ev h tag e s =
     send_error h None (malformed_text ev tag e) (stat st_malformed_update s)"

definition count_published :: "lane \<Rightarrow> usize \<Rightarrow> bool \<Rightarrow> stats \<Rightarrow> stats" where
  "count_published lane fanout is_directed st =
     (let st1 = st\<lparr>st_published := add_lane lane 1 (st_published st)\<rparr>;
          st2 = st1\<lparr>st_delivered := add_lane lane (of_nat fanout) (st_delivered st1)\<rparr>
      in if is_directed then bump st_directed_update st2 else st2)"

text \<open>The end of \<open>publish\<close>, once the checks are passed and the token is taken: the room is looked at again, under its
  lock, and the outcome is counted or answered.\<close>

definition publish_send :: "lane \<Rightarrow> topic \<Rightarrow> endpoint_id option \<Rightarrow> deliver \<Rightarrow> handle \<Rightarrow> sfu \<Rightarrow> sfu" where
  "publish_send lane topic recipient d h s =
     (let (result, n) =
            (case recipient of
               None \<Rightarrow> publish topic h lane d (f_rooms s) (f_net s)
             | Some i \<Rightarrow> publish_to topic h i lane d (f_rooms s) (f_net s));
          s1 = s\<lparr>f_net := n\<rparr>
      in case result of
           Inr fanout \<Rightarrow>
             on_net (\<lambda>n. n\<lparr>n_stats := count_published lane fanout (recipient \<noteq> None) (n_stats n)\<rparr>) s1
         | Inl RefNotSubscribed \<Rightarrow> send_error h (Some topic) (reason_text NotSubscribed) s1
         | Inl RefNoSuchRecipient \<Rightarrow> send_error h (Some topic) (reason_text NoSuchRecipient) s1)"

text \<open>The part of \<open>publish\<close> after the frame is taken apart, with nothing in between its sections; \<open>Server\<close> lets other
  tasks run between them.\<close>

definition publish_parts ::
  "lane \<Rightarrow> topic \<Rightarrow> endpoint_id option \<Rightarrow> bytes \<Rightarrow> bytes \<Rightarrow> usize \<Rightarrow> readers \<Rightarrow> sfu \<Rightarrow> readers \<times> sfu" where
  "publish_parts lane topic recipient payload topic_part frame_len rd s =
     (let h = rd_handle rd
      in if length payload > MAX_PUBLISH_LEN
         then (rd, send_error h (Some topic) (reason_text PublishTooLarge) s)
         else if \<not> is_member topic h (f_rooms s)
         then (rd, send_error h (Some topic) (reason_text NotSubscribed) s)
         else let (ok, rd1, s1) = take_publish frame_len rd s
              in if \<not> ok then (rd1, rate_limited h topic s1)
                 else (rd1, publish_send lane topic recipient (deliver_new topic_part payload) h s1))"

text \<open>\<open>None\<close> is the \<open>unreachable!\<close> of a frame that is not a lane frame.\<close>

definition readers_publish ::
  "lane \<Rightarrow> client_frame \<Rightarrow> bytes \<Rightarrow> usize \<Rightarrow> readers \<Rightarrow> sfu \<Rightarrow> (readers \<times> sfu) option" where
  "readers_publish lane frame topic_part frame_len rd s =
     (case frame of
        Publish topic payload \<Rightarrow>
          Some (publish_parts lane topic None payload topic_part frame_len rd s)
      | PublishTo topic recipient payload \<Rightarrow>
          Some (publish_parts lane topic (Some recipient) payload topic_part frame_len rd s)
      | _ \<Rightarrow> None)"

section \<open>The session stream\<close>

record session =
  se_readers :: readers
  se_subscribed :: "topic list"
  se_join :: bucket

text \<open>\<open>subscribed\<close> is a hash set: a list without repetitions, in drain order.\<close>

definition set_insert :: "'a \<Rightarrow> 'a list \<Rightarrow> 'a list" where
  "set_insert x xs = (if x \<in> set xs then xs else xs @ [x])"

definition set_remove :: "'a \<Rightarrow> 'a list \<Rightarrow> bool \<times> 'a list" where
  "set_remove x xs = (x \<in> set xs, remove1 x xs)"

definition handle_frame :: "client_frame \<Rightarrow> usize \<Rightarrow> session \<Rightarrow> sfu \<Rightarrow> session \<times> sfu" where
  "handle_frame frame frame_len se s =
     (let h = rd_handle (se_readers se)
      in case frame of
           Subscribe topic \<Rightarrow>
             if topic \<in> set (se_subscribed se) then (se, s)
             else if is_zero topic
             then (se, send_error h (Some topic) (reason_text ReservedTopic) s)
             else if length (se_subscribed se) \<ge> max_topics_per_connection (f_limits s)
             then (se, send_error h (Some topic) (reason_text TooManyTopics) s)
             else let (now, s1) = instant_now s; (ok, b) = try_take now 0 (se_join se);
                      se1 = se\<lparr>se_join := b\<rparr>
                  in if \<not> ok
                     then (se1, send_error h (Some topic) (reason_text RateLimited)
                                  (stat st_rate_limited_update s1))
                     else (case join topic h (f_rooms s1) (f_net s1) of
                             (res, rs, n) \<Rightarrow>
                               let s2 = s1\<lparr>f_rooms := rs, f_net := n\<rparr>
                               in (case res of
                                     Some _ \<Rightarrow> (se1\<lparr>se_subscribed := set_insert topic (se_subscribed se1)\<rparr>, s2)
                                   | None \<Rightarrow> (se1, send_error h (Some topic) (reason_text RoomFull) s2)))
         | Unsubscribe topic \<Rightarrow>
             let (removed, subs) = set_remove topic (se_subscribed se); se1 = se\<lparr>se_subscribed := subs\<rparr>
             in if removed
                then (case leave topic h (f_rooms s) (f_net s) of
                        (_, rs, n) \<Rightarrow> (se1, s\<lparr>f_rooms := rs, f_net := n\<rparr>))
                else (se1, s)
         | Announce topic blob \<Rightarrow>
             if length blob > MAX_ANNOUNCE_LEN
             then (se, send_error h (Some topic) (reason_text AnnounceTooLarge) s)
             else if topic \<notin> set (se_subscribed se)
             then (se, send_error h (Some topic) (reason_text NotSubscribed) s)
             else let (ok, rd, s1) = take_publish frame_len (se_readers se) s;
                      se1 = se\<lparr>se_readers := rd\<rparr>
                  in if \<not> ok then (se1, rate_limited h topic s1)
                     else (case announce topic h blob (f_rooms s1) (f_net s1) of
                             (_, rs, n) \<Rightarrow> (se1, s1\<lparr>f_rooms := rs, f_net := n\<rparr>))
         | Publish topic _ \<Rightarrow> (se, send_error h (Some topic) (reason_text PublishOnSession) s)
         | PublishTo topic _ _ \<Rightarrow> (se, send_error h (Some topic) (reason_text PublishOnSession) s))"

text \<open>One turn of \<open>read_loop\<close>, and the loop over a stream.\<close>

definition session_frame :: "env \<Rightarrow> byte \<Rightarrow> bytes \<Rightarrow> session \<Rightarrow> sfu \<Rightarrow> session \<times> sfu" where
  "session_frame ev tag body se s =
     (let frame_len = 5 + length body
      in case client_decode (ev_valid_key ev) tag body of
           Inr frame \<Rightarrow> handle_frame frame frame_len se s
         | Inl e \<Rightarrow> (se, skip_malformed ev (rd_handle (se_readers se)) tag e s))"

definition session_read_loop ::
  "env \<Rightarrow> reader \<Rightarrow> session \<Rightarrow> sfu \<Rightarrow> read_error option \<times> (session \<times> sfu) \<times> reader" where
  "session_read_loop ev r se s =
     read_loop (\<lambda>tag body (se, s). (True, session_frame ev tag body se s)) r (se, s)"

definition leave_all :: "session \<Rightarrow> sfu \<Rightarrow> session \<times> sfu" where
  "leave_all se s =
     (se\<lparr>se_subscribed := []\<rparr>,
      fold (\<lambda>topic s. case leave topic (rd_handle (se_readers se)) (f_rooms s) (f_net s) of
                         (_, rs, n) \<Rightarrow> s\<lparr>f_rooms := rs, f_net := n\<rparr>)
        (se_subscribed se) s)"

section \<open>Lane streams\<close>

definition decode_lane_frame :: "env \<Rightarrow> byte \<Rightarrow> bytes \<Rightarrow> proto_error + client_frame \<times> bytes" where
  "decode_lane_frame ev tag body =
     (let topic = take (min (length body) 32) body
      in and_then (client_decode (ev_valid_key ev) tag body) (\<lambda>frame.
         and_then (ensure (is_lane_frame frame) NotALaneFrame) (\<lambda>_. Inr (frame, topic))))"

text \<open>One frame of a long-lived lane; \<open>None\<close> is a panic.\<close>

definition lane_frame :: "env \<Rightarrow> lane \<Rightarrow> byte \<Rightarrow> bytes \<Rightarrow> readers \<Rightarrow> sfu \<Rightarrow> (readers \<times> sfu) option" where
  "lane_frame ev lane tag body rd s =
     (case decode_lane_frame ev tag body of
        Inr (frame, topic) \<Rightarrow> readers_publish lane frame topic (5 + length body) rd s
      | Inl e \<Rightarrow> Some (rd, skip_malformed ev (rd_handle rd) tag e s))"

text \<open>The one frame of a bulk stream: the code it stops the stream with, and the state.\<close>

definition bulk_frame ::
  "env \<Rightarrow> byte \<Rightarrow> bytes \<Rightarrow> readers \<Rightarrow> sfu \<Rightarrow> stream_error option \<times> (readers \<times> sfu) option" where
  "bulk_frame ev tag body rd s =
     (case decode_lane_frame ev tag body of
        Inl e \<Rightarrow> (Some Malformed, Some (rd, stat st_bulk_stopped_update (stat st_malformed_update s)))
      | Inr (frame, topic) \<Rightarrow> (None, readers_publish Bulk frame topic (5 + length body) rd s))"

text \<open>The rest of a bulk stream after its lane byte.\<close>

definition read_bulk :: "env \<Rightarrow> reader \<Rightarrow> readers \<Rightarrow> sfu
    \<Rightarrow> read_error option \<times> stream_error option \<times> (readers \<times> sfu) option" where
  "read_bulk ev r rd s =
     (case read_frame r of
        (Inl e, _) \<Rightarrow> (Some e, None, Some (rd, s))
      | (Inr None, _) \<Rightarrow> (None, None, Some (rd, s))
      | (Inr (Some (tag, body)), r2) \<Rightarrow>
          (case bulk_frame ev tag body rd s of
             (Some code, st) \<Rightarrow> (None, Some code, st)
           | (None, None) \<Rightarrow> (None, None, None)
           | (None, Some (rd1, s1)) \<Rightarrow>
               (case fst (read_some 1 r2) of
                  Some (b # bs) \<Rightarrow>
                    (None, Some BulkTrailing, Some (rd1, stat st_bulk_stopped_update s1))
                | _ \<Rightarrow> (None, None, Some (rd1, s1)))))"

text \<open>\<open>read_lane\<close>: its error, the code it stopped the stream with, and the state after it.\<close>

definition read_lane :: "env \<Rightarrow> reader \<Rightarrow> readers \<Rightarrow> sfu
    \<Rightarrow> read_error option \<times> stream_error option \<times> (readers \<times> sfu) option" where
  "read_lane ev r rd s =
     (case read_lane_byte r of
        (Inl e, _) \<Rightarrow> (Some e, None, Some (rd, s))
      | (Inr None, _) \<Rightarrow> (None, None, Some (rd, s))
      | (Inr (Some byte), r1) \<Rightarrow>
          (case lane_from_byte byte of
             None \<Rightarrow> (None, Some UnknownLane, Some (rd, stat st_bad_lanes_update s))
           | Some lane \<Rightarrow>
               if lane = Bulk then
                 read_bulk ev r1 rd s
               else
                 (case read_loop
                         (\<lambda>tag body st. case st of
                            None \<Rightarrow> (False, None)
                          | Some (rd, s) \<Rightarrow>
                              let st1 = lane_frame ev lane tag body rd s in (st1 \<noteq> None, st1))
                         r1 (Some (rd, s)) of
                    (e, st, _) \<Rightarrow> (e, None, st))))"

definition close_protocol :: "handle \<Rightarrow> usize \<Rightarrow> sfu \<Rightarrow> sfu" where
  "close_protocol h n = on_net (on_conn (conn_close CloseProtocol (frame_length_text n)) (h_conn h))"

text \<open>The task \<open>accept_lanes\<close> spawns for a stream.\<close>

definition lane_task :: "env \<Rightarrow> reader \<Rightarrow> readers \<Rightarrow> sfu \<Rightarrow> (readers \<times> sfu) option" where
  "lane_task ev r rd s =
     (case read_lane ev r rd s of
        (Some (FrameLengthError n), _, Some (rd1, s1)) \<Rightarrow> Some (rd1, close_protocol (rd_handle rd1) n s1)
      | (_, _, st) \<Rightarrow> st)"

section \<open>Datagrams\<close>

definition send_datagram :: "env \<Rightarrow> bytes \<Rightarrow> u64 \<Rightarrow> sfu \<Rightarrow> sfu" where
  "send_datagram ev dg k s =
     (if ev_sendable ev k dg
      then stat st_datagrams_out_update
             (on_net (on_conn (\<lambda>c. c\<lparr>c_datagrams := c_datagrams c @ [dg]\<rparr>) k) s)
      else s)"

text \<open>One turn of \<open>datagram_loop\<close>.\<close>

definition datagram_turn :: "env \<Rightarrow> bytes \<Rightarrow> handle \<Rightarrow> bucket \<Rightarrow> sfu \<Rightarrow> bucket \<times> sfu" where
  "datagram_turn ev dg h b s =
     (let s1 = stat st_datagrams_in_update s;
          (now, s2) = instant_now s1;
          (ok, b1) = try_take now (length dg) b;
          targets = (if ok then (case split_datagram dg of
                                   None \<Rightarrow> None
                                 | Some (topic, _) \<Rightarrow> datagram_targets topic h (f_rooms s2))
                     else None)
      in (b1, case targets of
                None \<Rightarrow> stat st_datagrams_dropped_update s2
              | Some ks \<Rightarrow> fold (send_datagram ev dg) ks s2))"

fun datagram_loop :: "env \<Rightarrow> bytes list \<Rightarrow> handle \<Rightarrow> bucket \<Rightarrow> sfu \<Rightarrow> bucket \<times> sfu" where
  "datagram_loop ev [] h b s = (b, s)"
| "datagram_loop ev (dg # dgs) h b s =
     (let (b1, s1) = datagram_turn ev dg h b s in datagram_loop ev dgs h b1 s1)"

section \<open>A connection from start to end\<close>

text \<open>What \<open>accept_bi\<close> brings within the timeout: the session stream, an error, or nothing.\<close>

datatype bi_outcome = BiOpen reader | BiFailed | BiTimeout

text \<open>The queues, buckets and session of a new connection. The three buckets read the clock.\<close>

definition open_connection :: "endpoint_id \<Rightarrow> u64 \<Rightarrow> sfu \<Rightarrow> session \<times> bucket \<times> sfu" where
  "open_connection peer k s =
     (let s0 = on_net (\<lambda>n. n\<lparr>n_conns := (n_conns n)(k := conn_new (f_limits s))\<rparr>) s;
          h = \<lparr>h_peer = peer, h_conn = k\<rparr>;
          (t1, s1) = instant_now s0; dg = bucket_new (datagram_rate (f_limits s)) t1;
          (t2, s2) = instant_now s1; rd = \<lparr>rd_handle = h, rd_rate = bucket_new (publish_rate (f_limits s)) t2\<rparr>;
          (t3, s3) = instant_now s2
      in (\<lparr>se_readers = rd, se_subscribed = [], se_join = bucket_new (join_rate (f_limits s)) t3\<rparr>, dg, s3))"

text \<open>What \<open>serve_connection\<close> does once \<open>read_loop\<close> has returned.\<close>

definition end_connection :: "read_error option \<Rightarrow> session \<Rightarrow> sfu \<Rightarrow> sfu" where
  "end_connection result se s =
     (let h = rd_handle (se_readers se);
          s1 = snd (leave_all se s);
          s2 = on_net (on_conn outbound_drop (h_conn h)) s1;
          s3 = (case result of Some (FrameLengthError n) \<Rightarrow> close_protocol h n s2 | _ \<Rightarrow> s2)
      in if b_overflowed (c_budget (n_conns (f_net s3) (h_conn h)))
         then stat st_slow_consumers_update s3 else s3)"

text \<open>\<open>serve_connection\<close> for a client that only uses its session stream; the lane and datagram
  tasks interleave with it in the step relation of \<open>Server\<close>.\<close>

definition serve_connection :: "env \<Rightarrow> endpoint_id \<Rightarrow> u64 \<Rightarrow> bi_outcome \<Rightarrow> sfu \<Rightarrow> sfu" where
  "serve_connection ev peer k bi s =
     (case bi of
        BiOpen r \<Rightarrow>
          (case open_connection peer k s of
             (se, _, s1) \<Rightarrow>
               (case session_read_loop ev r se s1 of
                  (result, (se1, s2), _) \<Rightarrow> end_connection result se1 s2))
      | BiFailed \<Rightarrow> s
      | BiTimeout \<Rightarrow>
          on_net (on_conn (conn_close CloseNoStream (ascii ''no stream opened'')) k)
            (stat st_no_stream_update s))"

section \<open>No panic\<close>

text \<open>A decoded lane frame is a PUBLISH or a PUBLISH_TO, so \<open>publish\<close> is never handed another
  frame, and its topic bytes are those of the decoded topic.\<close>

lemma decode_lane_frame_Inr:
  assumes "decode_lane_frame ev tag body = Inr (frame, topic)"
  shows "client_decode (ev_valid_key ev) tag body = Inr frame" "is_lane_frame frame"
    "topic = topic_bytes (frame_topic frame)"
proof -
  show d: "client_decode (ev_valid_key ev) tag body = Inr frame" and l: "is_lane_frame frame"
    using assms by (auto simp: decode_lane_frame_def Let_def)
  have t: "topic = take 32 body"
    using assms by (auto simp: decode_lane_frame_def Let_def min_def split: if_splits)
  show "topic = topic_bytes (frame_topic frame)"
    using d l t
    by (auto simp: client_decode_def take_topic_def take_id_def split: if_splits)
qed

lemma readers_publish_lane: "is_lane_frame frame \<Longrightarrow> readers_publish lane frame tp n rd s \<noteq> None"
  by (cases frame) (simp_all add: readers_publish_def)

lemma lane_frame_no_panic: "lane_frame ev lane tag body rd s \<noteq> None"
  using readers_publish_lane
  by (fastforce simp: lane_frame_def split: sum.splits dest: decode_lane_frame_Inr(2))

lemma bulk_frame_no_panic: "snd (bulk_frame ev tag body rd s) \<noteq> None"
  using readers_publish_lane
  by (fastforce simp: bulk_frame_def split: sum.splits dest: decode_lane_frame_Inr(2))

lemma read_bulk_no_panic: "snd (snd (read_bulk ev r rd s)) \<noteq> None"
proof -
  consider (stop) e r' where "read_frame r = (Inl e, r')" | (ended) r' where "read_frame r = (Inr None, r')"
    | (frame) tag body r' where "read_frame r = (Inr (Some (tag, body)), r')"
    by (metis old.sum.exhaust option.exhaust prod.collapse)
  then show ?thesis
  proof cases
    case (frame tag body r')
    obtain code rd1 s1 where "bulk_frame ev tag body rd s = (code, Some (rd1, s1))"
      using bulk_frame_no_panic [of ev tag body rd s] by (metis option.exhaust prod.collapse)
    then show ?thesis
      using frame by (cases code) (simp_all add: read_bulk_def split: option.split list.split)
  qed (simp_all add: read_bulk_def)
qed

lemma read_lane_no_panic: "snd (snd (read_lane ev r rd s)) \<noteq> None"
proof -
  have loop: "fst (snd (read_loop (\<lambda>tag body st. case st of None \<Rightarrow> (False, None)
      | Some (rd, s) \<Rightarrow> let st1 = lane_frame ev lane tag body rd s in (st1 \<noteq> None, st1)) r1 (Some (rd, s)))) \<noteq> None"
    for lane r1
    by (rule read_loop_invariant) (auto simp: lane_frame_no_panic [simplified] Let_def split: option.splits)
  obtain got r1 where b: "read_lane_byte r = (got, r1)" by fastforce
  show ?thesis
  proof (cases "\<exists>byte lane. got = Inr (Some byte) \<and> lane_from_byte byte = Some lane")
    case False
    then show ?thesis
      by (auto simp: read_lane_def b split: sum.splits option.splits)
  next
    case True
    then obtain byte lane where l: "got = Inr (Some byte)" "lane_from_byte byte = Some lane" by blast
    show ?thesis
      using l b loop [of lane r1] read_bulk_no_panic [of ev r1 rd s]
      by (cases "lane = Bulk") (simp_all add: read_lane_def split_beta)
  qed
qed

section \<open>Properties\<close>

lemma take_publish_keeps:
  assumes "take_publish n rd s = (ok, rd1, s1)"
  shows "f_rooms s1 = f_rooms s" "f_net s1 = f_net s" "rd_handle rd1 = rd_handle rd"
  using assms by (auto simp: take_publish_def instant_now_def split: prod.splits)

lemma publish_stats:
  "st_published (n_stats (snd (publish t h lane d rs n))) = st_published (n_stats n)"
  "st_delivered (n_stats (snd (publish t h lane d rs n))) = st_delivered (n_stats n)"
proof -
  have "st_published (n_stats (handle_deliver g lane d m)) = st_published (n_stats m)
      \<and> st_delivered (n_stats (handle_deliver g lane d m)) = st_delivered (n_stats m)" for g m
    by (simp add: deliver_fan.eff_stats)
  then have "st_published (n_stats (fold (\<lambda>g. handle_deliver g lane d) gs m)) = st_published (n_stats m)
      \<and> st_delivered (n_stats (fold (\<lambda>g. handle_deliver g lane d) gs m)) = st_delivered (n_stats m)" for gs m
    by (induction gs arbitrary: m) simp_all
  then show "st_published (n_stats (snd (publish t h lane d rs n))) = st_published (n_stats n)"
    "st_delivered (n_stats (snd (publish t h lane d rs n))) = st_delivered (n_stats n)"
    by (simp_all add: publish_def publish_fan split: option.splits)
qed

lemma lane_frame_publish:
  assumes "wf_client_frame (ev_valid_key ev) (Publish t p)"
  shows "lane_frame ev lane PUBLISH (topic_bytes t @ p) rd s =
    Some (publish_parts lane t None p (topic_bytes t) (37 + length p) rd s)"
proof -
  have t: "length (topic_bytes t) = 32" using assms by (simp add: wf_topic_def)
  have "client_decode (ev_valid_key ev) PUBLISH (topic_bytes t @ p) = Inr (Publish t p)"
    using client_decode_body [OF assms] by simp
  then show ?thesis
    using t by (simp add: lane_frame_def decode_lane_frame_def readers_publish_def Let_def ensure_def)
qed

text \<open>C5: the life of a publish on a long-lived lane. A well-formed PUBLISH by a connection that
  holds its slot and has tokens queues, on that lane of every other member's connection, exactly the
  bytes of the DELIVER frame, once; no other connection's queues change, the rooms do not change,
  and the counters of the lane move by one and by the number of members reached.\<close>

theorem publish_end_to_end:
  assumes wf: "wf_client_frame (ev_valid_key ev) (Publish t p)" and ok: "rooms_ok P (f_rooms s)"
    and len: "length p \<le> MAX_PUBLISH_LEN" and mem: "is_member t (rd_handle rd) (f_rooms s)"
    and tok: "fst (take_publish (37 + length p) rd s)"
  shows "\<exists>rd' s' d. lane_frame ev lane PUBLISH (topic_bytes t @ p) rd s = Some (rd', s')
    \<and> concat (deliver_chunks d) = server_encode (Deliver t p) \<and> f_rooms s' = f_rooms s
    \<and> n_conns (f_net s') =
        (\<lambda>k. if \<exists>j b. j \<noteq> h_peer (rd_handle rd) \<and> presence (f_rooms s) t j = Some (k, b)
             then snd (deliver lane d (n_conns (f_net s) k)) else n_conns (f_net s) k)
    \<and> st_published (n_stats (f_net s')) = add_lane lane 1 (st_published (n_stats (f_net s)))
    \<and> st_delivered (n_stats (f_net s')) =
        add_lane lane (of_nat (card (dom (presence (f_rooms s) t)) - 1)) (st_delivered (n_stats (f_net s)))"
proof -
  let ?h = "rd_handle rd" and ?d = "deliver_new (topic_bytes t) p"
  obtain rd1 s1 where tk: "take_publish (37 + length p) rd s = (True, rd1, s1)"
    using tok by (cases "take_publish (37 + length p) rd s") auto
  note kept = take_publish_keeps [OF tk]
  obtain net where pub: "publish t ?h lane ?d (f_rooms s) (f_net s) =
      (Inr (card (dom (presence (f_rooms s) t)) - 1), net)"
    using publish_members [OF ok mem, of lane ?d "f_net s"] by (metis prod.collapse)
  have conns: "n_conns net = (\<lambda>k. if \<exists>j b. j \<noteq> h_peer ?h \<and> presence (f_rooms s) t j = Some (k, b)
      then snd (deliver lane ?d (n_conns (f_net s) k)) else n_conns (f_net s) k)"
    using publish_members [OF ok mem, of lane ?d "f_net s"] pub by simp
  have stats: "st_published (n_stats net) = st_published (n_stats (f_net s))"
    "st_delivered (n_stats net) = st_delivered (n_stats (f_net s))"
    using publish_stats [of t ?h lane ?d "f_rooms s" "f_net s"] pub by simp_all
  have "lane_frame ev lane PUBLISH (topic_bytes t @ p) rd s = Some (rd1,
      on_net (\<lambda>n. n\<lparr>n_stats := count_published lane (card (dom (presence (f_rooms s) t)) - 1) False (n_stats n)\<rparr>)
        (s1\<lparr>f_net := net\<rparr>))"
    using len mem tk pub kept by (simp add: lane_frame_publish [OF wf] publish_parts_def publish_send_def Let_def)
  then show ?thesis
    using conns stats kept deliver_new_bytes [of t p] wf
    by (intro exI [of _ rd1] exI [of _ "on_net (\<lambda>n. n\<lparr>n_stats := count_published lane
          (card (dom (presence (f_rooms s) t)) - 1) False (n_stats n)\<rparr>) (s1\<lparr>f_net := net\<rparr>)"] exI [of _ ?d])
      (simp del: server_encode.simps add: on_net_def count_published_def Let_def)
qed

text \<open>Why a publish is refused, first reason first: what its sender can see before it is sent, and what the room says.\<close>

definition room_refusal :: "topic \<Rightarrow> endpoint_id option \<Rightarrow> handle \<Rightarrow> rooms \<Rightarrow> refusal_reason option" where
  "room_refusal t recipient h rs =
     (if \<not> is_member t h rs then Some NotSubscribed
      else case recipient of
             None \<Rightarrow> None
           | Some j \<Rightarrow> if j = h_peer h \<or> presence rs t j = None then Some NoSuchRecipient else None)"

definition publish_refusal :: "topic \<Rightarrow> endpoint_id option \<Rightarrow> bytes \<Rightarrow> usize \<Rightarrow> readers \<Rightarrow> sfu \<Rightarrow> refusal_reason option" where
  "publish_refusal t recipient payload n rd s =
     (if length payload > MAX_PUBLISH_LEN then Some PublishTooLarge
      else if is_member t (rd_handle rd) (f_rooms s) \<and> \<not> fst (take_publish n rd s) then Some RateLimited
      else room_refusal t recipient (rd_handle rd) (f_rooms s))"

lemma send_error_effect:
  "f_rooms (send_error h t r s) = f_rooms s" "n_stats (f_net (send_error h t r s)) = n_stats (f_net s)"
  "n_conns (f_net (send_error h t r s)) =
     (n_conns (f_net s))(h_conn h := push_frame (error_frame t r) (n_conns (f_net s) (h_conn h)))"
  by (simp_all add: send_error_def on_net_def handle_error_def handle_push_frame_def on_conn_def)

lemma publish_send_rooms: "f_rooms (publish_send lane t recipient d h s) = f_rooms s"
  by (auto simp: publish_send_def Let_def send_error_effect on_net_def split: prod.splits sum.splits refusal.splits)

text \<open>The end of a publish, in whatever state it finds the room.\<close>

lemma publish_send_refused:
  assumes "room_refusal t recipient h (f_rooms s) = Some r"
  shows "publish_send lane t recipient d h s = send_error h (Some t) (reason_text r) s"
proof (cases "is_member t h (f_rooms s)")
  case False
  then have "publish t h lane d (f_rooms s) (f_net s) = (Inl RefNotSubscribed, f_net s)"
    by (cases "room_get (f_rooms s) t") (simp_all add: publish_def is_member_def)
  moreover have "publish_to t h j lane d (f_rooms s) (f_net s) = (Inl RefNotSubscribed, f_net s)" for j
    using False by (simp add: publish_to_table is_member_presence)
  ultimately show ?thesis
    using False assms by (cases recipient) (simp_all add: publish_send_def room_refusal_def)
next
  case True
  then obtain j where "recipient = Some j" "j = h_peer h \<or> presence (f_rooms s) t j = None" "r = NoSuchRecipient"
    using assms by (auto simp: room_refusal_def split: option.splits if_splits)
  moreover from this True have "publish_to t h j lane d (f_rooms s) (f_net s) = (Inl RefNoSuchRecipient, f_net s)"
    by (simp add: publish_to_table is_member_presence)
  ultimately show ?thesis by (simp add: publish_send_def)
qed

text \<open>C6: a refused publish reaches nobody and is answered. Whenever there is a reason to refuse it (its payload is too
  large, its sender holds no slot or has no tokens, or it is directed to the sender itself or to somebody who is
  not in the room), the rooms and every other connection stay as they are, no publish or delivery is counted,
  and the sender is queued one ERROR about the topic with the first of these reasons that applies.\<close>

theorem publish_refusals:
  assumes "publish_refusal t recipient payload n rd s = Some r"
  shows "f_rooms (snd (publish_parts lane t recipient payload tp n rd s)) = f_rooms s
    \<and> n_conns (f_net (snd (publish_parts lane t recipient payload tp n rd s))) =
        (n_conns (f_net s))(h_conn (rd_handle rd) :=
          push_frame (error_frame (Some t) (reason_text r)) (n_conns (f_net s) (h_conn (rd_handle rd))))
    \<and> n_stats (f_net (snd (publish_parts lane t recipient payload tp n rd s))) =
        (if r = RateLimited then bump st_rate_limited_update (n_stats (f_net s)) else n_stats (f_net s))"
proof -
  obtain ok rd1 s1 where tk: "take_publish n rd s = (ok, rd1, s1)" by (metis prod_cases3)
  note kept = take_publish_keeps [OF tk]
  consider (large) "length payload > MAX_PUBLISH_LEN" "r = PublishTooLarge"
    | (outside) "length payload \<le> MAX_PUBLISH_LEN" "\<not> is_member t (rd_handle rd) (f_rooms s)" "r = NotSubscribed"
    | (limited) "length payload \<le> MAX_PUBLISH_LEN" "is_member t (rd_handle rd) (f_rooms s)" "\<not> ok" "r = RateLimited"
    | (room) "length payload \<le> MAX_PUBLISH_LEN" "is_member t (rd_handle rd) (f_rooms s)" ok
        "room_refusal t recipient (rd_handle rd) (f_rooms s) = Some r" "r = NoSuchRecipient"
    using assms tk by (auto simp: publish_refusal_def room_refusal_def split: if_splits option.splits)
  then show ?thesis
  proof cases
    case room
    then have "snd (publish_parts lane t recipient payload tp n rd s)
        = send_error (rd_handle rd) (Some t) (reason_text r) s1"
      using publish_send_refused [of t recipient "rd_handle rd" s1] tk kept by (simp add: publish_parts_def Let_def)
    then show ?thesis using kept room(5) by (simp add: send_error_effect del: reason_text.simps)
  qed (use tk kept in \<open>simp_all del: reason_text.simps add: publish_parts_def Let_def send_error_effect rate_limited_def
      stat_def on_net_def\<close>)
qed

lemma send_datagrams_conns:
  "distinct ks \<Longrightarrow> f_rooms (fold (send_datagram ev dg) ks s) = f_rooms s
     \<and> n_conns (f_net (fold (send_datagram ev dg) ks s)) =
        (\<lambda>k. if k \<in> set ks \<and> ev_sendable ev k dg
             then (n_conns (f_net s) k)\<lparr>c_datagrams := c_datagrams (n_conns (f_net s) k) @ [dg]\<rparr>
             else n_conns (f_net s) k)
     \<and> n_stats (f_net (fold (send_datagram ev dg) ks s)) =
        st_datagrams_out_update (\<lambda>c. c + of_nat (card {k \<in> set ks. ev_sendable ev k dg})) (n_stats (f_net s))"
proof (induction ks arbitrary: s)
  case (Cons k ks)
  have "card {j \<in> set (k # ks). ev_sendable ev j dg} =
      (if ev_sendable ev k dg then 1 else 0) + card {j \<in> set ks. ev_sendable ev j dg}"
  proof (cases "ev_sendable ev k dg")
    case True
    then have "{j \<in> set (k # ks). ev_sendable ev j dg} = insert k {j \<in> set ks. ev_sendable ev j dg}" by auto
    then show ?thesis using True Cons.prems by simp
  next
    case False
    then have "{j \<in> set (k # ks). ev_sendable ev j dg} = {j \<in> set ks. ev_sendable ev j dg}" by auto
    then show ?thesis using False by simp
  qed
  then show ?case
    using Cons by (auto simp: send_datagram_def stat_def bump_def on_net_def on_conn_def fun_eq_iff o_def add.assoc)
qed simp

lemma datagram_targets_member:
  assumes "rooms_ok P rs" "is_member t h rs"
  shows "\<exists>ks. datagram_targets t h rs = Some ks \<and> distinct ks
    \<and> set ks = {k. \<exists>j b. j \<noteq> h_peer h \<and> presence rs t j = Some (k, b)}"
proof -
  let ?r = "room_of rs t"
  have get: "room_get rs t = Some ?r" using is_member_room [OF assms(2)] .
  have ok: "room_ok P (r_max_members rs) ?r" using rooms_ok_room [OF assms(1) get] .
  have "owns_slot ?r h" using assms(2) get by (auto simp: is_member_def)
  then have "datagram_targets t h rs = Some (map h_conn (others ?r (h_peer h)))"
    by (simp add: datagram_targets_def get others_def case_prod_unfold comp_def)
  then show ?thesis
    using others_distinct [OF ok] others_conns [OF ok, of "h_peer h"] by (simp add: presence_def)
qed

text \<open>C7: a datagram from a member with tokens is handed, unchanged and once, to the connection of every other
  member that takes it (QUIC may refuse one that is too large for the path) and to no other. The rooms do not
  change, and the counters move by exactly one datagram in and one out for each connection that took it.\<close>

theorem datagram_fanout:
  assumes "rooms_ok P (f_rooms s)" "split_datagram dg = Some (t, payload)" "is_member t h (f_rooms s)"
    and "fst (try_take (f_clock s (f_ticks s)) (length dg) b)"
  shows "f_rooms (snd (datagram_turn ev dg h b s)) = f_rooms s
    \<and> n_conns (f_net (snd (datagram_turn ev dg h b s))) =
        (\<lambda>k. if (\<exists>j c. j \<noteq> h_peer h \<and> presence (f_rooms s) t j = Some (k, c)) \<and> ev_sendable ev k dg
             then (n_conns (f_net s) k)\<lparr>c_datagrams := c_datagrams (n_conns (f_net s) k) @ [dg]\<rparr>
             else n_conns (f_net s) k)
    \<and> n_stats (f_net (snd (datagram_turn ev dg h b s))) =
        (n_stats (f_net s))\<lparr>st_datagrams_in := st_datagrams_in (n_stats (f_net s)) + 1,
          st_datagrams_out := st_datagrams_out (n_stats (f_net s))
            + of_nat (card {k. (\<exists>j c. j \<noteq> h_peer h \<and> presence (f_rooms s) t j = Some (k, c)) \<and> ev_sendable ev k dg})\<rparr>"
proof -
  obtain ks where ks: "datagram_targets t h (f_rooms s) = Some ks" "distinct ks"
    "set ks = {k. \<exists>j c. j \<noteq> h_peer h \<and> presence (f_rooms s) t j = Some (k, c)}"
    using datagram_targets_member [OF assms(1,3)] by blast
  let ?s2 = "snd (instant_now (stat st_datagrams_in_update s))"
  have s2: "f_rooms ?s2 = f_rooms s" "n_conns (f_net ?s2) = n_conns (f_net s)"
    "n_stats (f_net ?s2) = (n_stats (f_net s))\<lparr>st_datagrams_in := st_datagrams_in (n_stats (f_net s)) + 1\<rparr>"
    by (simp_all add: instant_now_def stat_def on_net_def bump_def)
  have "snd (datagram_turn ev dg h b s) = fold (send_datagram ev dg) ks ?s2"
    using assms(2,4) ks(1) s2 by (simp add: datagram_turn_def Let_def split_beta instant_now_def stat_def on_net_def)
  then show ?thesis
    using send_datagrams_conns [OF ks(2), of ev dg ?s2] unfolding ks(3) s2 by simp
qed

text \<open>Every other datagram is dropped: nobody is sent anything, and it is counted as come in and dropped.\<close>

lemma datagram_drops:
  assumes "\<not> fst (try_take (f_clock s (f_ticks s)) (length dg) b)
    \<or> (case split_datagram dg of None \<Rightarrow> True | Some (t, _) \<Rightarrow> \<not> is_member t h (f_rooms s))"
  shows "f_rooms (snd (datagram_turn ev dg h b s)) = f_rooms s
    \<and> n_conns (f_net (snd (datagram_turn ev dg h b s))) = n_conns (f_net s)
    \<and> n_stats (f_net (snd (datagram_turn ev dg h b s))) =
        bump st_datagrams_dropped_update (bump st_datagrams_in_update (n_stats (f_net s)))"
proof -
  have "datagram_targets t h (f_rooms s) = None" if "\<not> is_member t h (f_rooms s)" for t
    using that by (cases "room_get (f_rooms s) t") (simp_all add: datagram_targets_def is_member_def)
  then show ?thesis
    using assms by (auto simp: datagram_turn_def Let_def split_beta instant_now_def stat_def on_net_def split: option.splits)
qed

text \<open>Concrete inputs.\<close>

definition sample_env :: env where
  "sample_env = \<lparr>ev_valid_key = \<lambda>_. True, ev_key_error = [], ev_sendable = \<lambda>_ _. True\<rparr>"

definition sample_sfu :: sfu where
  "sample_sfu = \<lparr>f_rooms = two_members, f_net = sample_net, f_limits = limits_default,
     f_clock = \<lambda>_. 0, f_ticks = 0\<rparr>"

definition sample_readers :: readers where
  "sample_readers = \<lparr>rd_handle = handle_of 1, rd_rate = bucket_new default_publish_rate 0\<rparr>"

lemma sample_tokens: "fst (try_take 0 n (bucket_new default_publish_rate 0))"
proof (rule new_bucket_passes)
  show "burst_frames default_publish_rate = Fin (of_nat 400)" "frames_per_second default_publish_rate = Fin 200"
    by (simp_all add: default_publish_rate_def)
  have "burst_bytes default_publish_rate = Fin (of_nat (4 * MIB))" "4 * MIB \<le> 2 ^ 53"
    "bytes_per_second default_publish_rate = Fin (of_nat (4 * MIB))"
    by (simp_all add: default_publish_rate_def f64_of_nat_exact MIB_def)
  then show "burst_bytes default_publish_rate = PInf \<or> (\<exists>m q. burst_bytes default_publish_rate = Fin (of_nat m)
      \<and> m \<le> 2 ^ 53 \<and> bytes_per_second default_publish_rate = Fin q)" by blast
qed simp_all

lemma sample_sfu_simps [simp]:
  "f_rooms sample_sfu = two_members" "f_clock sample_sfu = (\<lambda>_. 0)" "f_limits sample_sfu = limits_default"
  by (simp_all add: sample_sfu_def)

theorem publish_end_to_end_witness:
  "\<exists>rd' s'. lane_frame sample_env Control PUBLISH (topic_bytes sample_topic @ [1, 2]) sample_readers sample_sfu
     = Some (rd', s') \<and> f_rooms s' = two_members"
proof -
  have "fst (take_publish (37 + length [1, 2]) sample_readers sample_sfu)"
    using sample_tokens [of 39] by (simp add: take_publish_def instant_now_def sample_readers_def sample_sfu_def split_beta)
  then show ?thesis
    using publish_end_to_end [of sample_env sample_topic "[1, 2]" peer_of sample_sfu sample_readers Control]
      two_members(1) two_members_in
    by (auto simp del: server_encode.simps simp: sample_sfu_def sample_readers_def sample_topic_def wf_topic_def MAX_FRAME_LEN_value MAX_PUBLISH_LEN_def)
qed

theorem publish_refusals_witness:
  "n_conns (f_net (snd (publish_parts Bulk sample_topic (Some (peer_of 9)) [] [] 5 sample_readers sample_sfu))) 1
     = push_frame (error_frame (Some sample_topic) (reason_text NoSuchRecipient)) (n_conns sample_net 1)"
proof -
  have "peer_of 9 \<noteq> peer_of 1" "peer_of 9 \<noteq> peer_of 2" by (simp_all add: peer_of_def)
  then have "room_refusal sample_topic (Some (peer_of 9)) (handle_of 1) two_members = Some NoSuchRecipient"
    using two_members_in by (simp add: room_refusal_def two_members(3))
  moreover have "fst (take_publish 5 sample_readers sample_sfu)"
    using sample_tokens [of 5] by (simp add: take_publish_def instant_now_def sample_readers_def sample_sfu_def split_beta)
  ultimately have "publish_refusal sample_topic (Some (peer_of 9)) [] 5 sample_readers sample_sfu = Some NoSuchRecipient"
    by (simp add: publish_refusal_def sample_readers_def)
  from publish_refusals [OF this, of Bulk "[]"] show ?thesis by (simp add: sample_sfu_def sample_readers_def)
qed

theorem datagram_fanout_witness:
  "st_datagrams_out (n_stats (f_net (snd (datagram_turn sample_env (datagram sample_topic [5]) (handle_of 1)
     (bucket_new default_publish_rate 0) sample_sfu)))) = st_datagrams_out (n_stats sample_net)
       + of_nat (card {k. (\<exists>j c. j \<noteq> peer_of 1 \<and> presence two_members sample_topic j = Some (k, c))
           \<and> ev_sendable sample_env k (datagram sample_topic [5])})"
proof -
  have "rooms_ok peer_of (f_rooms sample_sfu)" "is_member sample_topic (handle_of 1) (f_rooms sample_sfu)"
    by (simp_all add: two_members(1) two_members_in)
  moreover have "split_datagram (datagram sample_topic [5]) = Some (sample_topic, [5])"
    by (simp add: datagram_def split_datagram_def take_topic_def sample_topic_def)
  moreover have "fst (try_take (f_clock sample_sfu (f_ticks sample_sfu)) (length (datagram sample_topic [5]))
      (bucket_new default_publish_rate 0))"
    by (simp add: sample_tokens)
  ultimately show ?thesis
    using datagram_fanout [of peer_of sample_sfu "datagram sample_topic [5]" sample_topic "[5]" "handle_of 1"]
    by (simp add: sample_sfu_def)
qed

end
