(* ===== verification/Server.thy ===== *)
theory Server
  imports Session
begin

text \<open>
  The running server of \<open>src/src/server.rs\<close>: any number of connections, each with its session
  reader, lane readers, datagram loop and writers, interleaved over the shared state. A state
  holds the live sessions, those that are closing (their read loop has ended and they leave their
  rooms one by one) and the shared record; a step is one atomic piece of one task.

  The invariant says what holds between any two steps, and the properties read it: every slot of
  every room belongs to a connection that lists the topic and has not ended, so no member outlives
  its connection; caps on members and topics hold; every queue is within its budget.
\<close>

section \<open>States and steps\<close>

record server =
  v_sfu :: sfu
  v_live :: "u64 \<Rightarrow> session option"
  v_dgs :: "u64 \<Rightarrow> bucket option"
  v_closing :: "u64 \<Rightarrow> (read_error option \<times> session) option"
  v_peer :: "u64 \<Rightarrow> endpoint_id"
  v_next :: nat

definition server_new :: "limits \<Rightarrow> (nat \<Rightarrow> nat) \<Rightarrow> (u64 \<Rightarrow> endpoint_id) \<Rightarrow> server" where
  "server_new limits clock peers =
     \<lparr>v_sfu = \<lparr>f_rooms = rooms_new limits,
        f_net = \<lparr>n_conns = \<lambda>_. conn_new limits, n_stats = stats_default\<rparr>,
        f_limits = limits, f_clock = clock, f_ticks = 0\<rparr>,
      v_live = \<lambda>_. None, v_dgs = \<lambda>_. None, v_closing = \<lambda>_. None, v_peer = peers, v_next = 1\<rparr>"

text \<open>What the writers of a connection do to its queues.\<close>

inductive writer_step :: "conn \<Rightarrow> conn \<Rightarrow> bool" where
  "session_recv c = Some (q, c') \<Longrightarrow> writer_step c c'"
| "lane \<noteq> Bulk \<Longrightarrow> lane_recv lane c = Some (d, c') \<Longrightarrow> writer_step c c'"
| "n \<in> set (c_hand c) \<Longrightarrow> writer_step c (writer_release n c)"
| "writer_step c (session_rx_drop c)"
| "lane \<noteq> Bulk \<Longrightarrow> writer_step c (lane_rx_drop lane c)"
| "dispatch_next c = Some (f, c') \<Longrightarrow> writer_step c c'"
| "n \<in> set (c_bulk_on c) \<Longrightarrow> writer_step c (dispatch_done n c)"
| "writer_step c (conn_close CloseStalled msg c)"

text \<open>The connection ids are fresh as long as there have been fewer than \<open>2 ^ 64\<close> of them.

  A frame may be handled in one step, or with other tasks running between the critical sections of its handler: a
  publish is a check and a \<open>token\<close>, then \<open>publishing\<close>; an ANNOUNCE is a \<open>token\<close>, then \<open>announcing\<close>; a datagram
  finds its targets under the lock and is \<open>sending\<close> to them after it. The later parts are steps of their own, not
  tied to the earlier ones, and those of a lane or a datagram not even to a live session, since an aborted task may
  still be running, so any order of these sections is allowed. The atomic operations inside \<open>reserve\<close> are one step
  here; \<open>Atomics\<close> takes them one by one.\<close>

inductive server_step :: "env \<Rightarrow> server \<Rightarrow> server \<Rightarrow> bool" for ev where
  connect: "wf_id (ev_valid_key ev) peer \<Longrightarrow> v_next v < 2 ^ 64 \<Longrightarrow> k = of_nat (v_next v)
    \<Longrightarrow> open_connection peer k (v_sfu v) = (se, dg, s')
    \<Longrightarrow> server_step ev v (v\<lparr>v_sfu := s', v_live := (v_live v)(k \<mapsto> se), v_dgs := (v_dgs v)(k \<mapsto> dg),
          v_peer := (v_peer v)(k := peer), v_next := Suc (v_next v)\<rparr>)"
| session: "v_live v k = Some se \<Longrightarrow> 1 + length body \<le> MAX_FRAME_LEN
    \<Longrightarrow> session_frame ev tag body se (v_sfu v) = (se', s')
    \<Longrightarrow> server_step ev v (v\<lparr>v_sfu := s', v_live := (v_live v)(k \<mapsto> se')\<rparr>)"
| lane: "v_live v k = Some se \<Longrightarrow> 1 + length body \<le> MAX_FRAME_LEN \<Longrightarrow> lane \<noteq> Bulk
    \<Longrightarrow> lane_frame ev lane tag body (se_readers se) (v_sfu v) = Some (rd, s')
    \<Longrightarrow> server_step ev v (v\<lparr>v_sfu := s', v_live := (v_live v)(k \<mapsto> se\<lparr>se_readers := rd\<rparr>)\<rparr>)"
| bulk: "v_live v k = Some se \<Longrightarrow> 1 + length body \<le> MAX_FRAME_LEN
    \<Longrightarrow> bulk_frame ev tag body (se_readers se) (v_sfu v) = (code, Some (rd, s'))
    \<Longrightarrow> server_step ev v (v\<lparr>v_sfu := s', v_live := (v_live v)(k \<mapsto> se\<lparr>se_readers := rd\<rparr>)\<rparr>)"
| lane_stat: "v_live v k = Some se \<Longrightarrow> field \<in> {st_bad_lanes_update, st_bulk_stopped_update}
    \<Longrightarrow> server_step ev v (v\<lparr>v_sfu := stat field (v_sfu v)\<rparr>)"
| lane_error: "v_live v k = Some se
    \<Longrightarrow> server_step ev v (v\<lparr>v_sfu := close_protocol (rd_handle (se_readers se)) n (v_sfu v)\<rparr>)"
| datagram: "v_live v k = Some se \<Longrightarrow> v_dgs v k = Some b \<Longrightarrow> length dg < 2 ^ 32
    \<Longrightarrow> datagram_turn ev dg (rd_handle (se_readers se)) b (v_sfu v) = (b', s')
    \<Longrightarrow> server_step ev v (v\<lparr>v_sfu := s', v_dgs := (v_dgs v)(k \<mapsto> b')\<rparr>)"
| ended: "v_live v k = Some se
    \<Longrightarrow> server_step ev v (v\<lparr>v_live := (v_live v)(k := None), v_dgs := (v_dgs v)(k := None),
          v_closing := (v_closing v)(k \<mapsto> (result, se))\<rparr>)"
| leaving: "v_closing v k = Some (result, se) \<Longrightarrow> se_subscribed se = t # ts
    \<Longrightarrow> leave t (rd_handle (se_readers se)) (f_rooms (v_sfu v)) (f_net (v_sfu v)) = (res, rs, n)
    \<Longrightarrow> server_step ev v (v\<lparr>v_sfu := (v_sfu v)\<lparr>f_rooms := rs, f_net := n\<rparr>,
          v_closing := (v_closing v)(k \<mapsto> (result, se\<lparr>se_subscribed := ts\<rparr>))\<rparr>)"
| gone: "v_closing v k = Some (result, se) \<Longrightarrow> se_subscribed se = []
    \<Longrightarrow> server_step ev v (v\<lparr>v_sfu := end_connection result se (v_sfu v),
          v_closing := (v_closing v)(k := None)\<rparr>)"
| writer: "writer_step (n_conns (f_net (v_sfu v)) k) c'
    \<Longrightarrow> server_step ev v (v\<lparr>v_sfu := on_net (on_conn (\<lambda>_. c') k) (v_sfu v)\<rparr>)"
| token: "v_live v k = Some se \<Longrightarrow> n \<le> 4 + MAX_FRAME_LEN \<Longrightarrow> take_publish n (se_readers se) (v_sfu v) = (ok, rd, s')
    \<Longrightarrow> server_step ev v (v\<lparr>v_sfu := s', v_live := (v_live v)(k \<mapsto> se\<lparr>se_readers := rd\<rparr>)\<rparr>)"
| announcing: "v_live v k = Some se \<Longrightarrow> t \<in> set (se_subscribed se) \<Longrightarrow> length blob \<le> MAX_ANNOUNCE_LEN
    \<Longrightarrow> announce t (rd_handle (se_readers se)) blob (f_rooms (v_sfu v)) (f_net (v_sfu v)) = (res, rs, n)
    \<Longrightarrow> server_step ev v (v\<lparr>v_sfu := (v_sfu v)\<lparr>f_rooms := rs, f_net := n\<rparr>\<rparr>)"
| publishing: "wf_topic t \<Longrightarrow> length payload \<le> MAX_PUBLISH_LEN \<Longrightarrow> h = \<lparr>h_peer = v_peer v k, h_conn = k\<rparr>
    \<Longrightarrow> server_step ev v (v\<lparr>v_sfu := publish_send lane t recipient (deliver_new (topic_bytes t) payload) h (v_sfu v)\<rparr>)"
| sending: "server_step ev v (v\<lparr>v_sfu := send_datagram ev dg k (v_sfu v)\<rparr>)"

abbreviation server_reach :: "env \<Rightarrow> server \<Rightarrow> server \<Rightarrow> bool" where
  "server_reach ev \<equiv> (server_step ev)\<^sup>*\<^sup>*"

section \<open>Queues stay well formed\<close>

definition net_ok :: "net \<Rightarrow> bool" where
  "net_ok n \<longleftrightarrow> (\<forall>k. conn_ok (n_conns n k))"

lemma net_ok_on_conn: "net_ok n \<Longrightarrow> (\<And>c. conn_ok c \<Longrightarrow> conn_ok (f c)) \<Longrightarrow> net_ok (on_conn f k n)"
  by (simp add: net_ok_def on_conn_def)

lemma net_ok_stats [simp]: "net_ok (n\<lparr>n_stats := st\<rparr>) = net_ok n"
  by (simp add: net_ok_def)

lemma net_ok_push_session:
  "net_ok n \<Longrightarrow> size_ok sz \<Longrightarrow> net_ok (handle_push_session h item sz n)"
  by (simp add: handle_push_session_def net_ok_on_conn push_session_ok)

lemma net_ok_push_frame: "net_ok n \<Longrightarrow> size_ok (length frame) \<Longrightarrow> net_ok (handle_push_frame h frame n)"
  by (simp add: handle_push_frame_def net_ok_on_conn push_frame_def push_session_ok)

lemma net_ok_deliver: "net_ok n \<Longrightarrow> len_ok f \<Longrightarrow> net_ok (handle_deliver h lane f n)"
  by (auto simp: net_ok_def deliver_fan.eff_conns deliver_ok)

lemma net_ok_fold:
  "net_ok n \<Longrightarrow> (\<And>h n. net_ok n \<Longrightarrow> net_ok (f h n)) \<Longrightarrow> net_ok (fold f hs n)"
  by (induction hs arbitrary: n) auto

lemma net_ok_broadcast: "net_ok n \<Longrightarrow> size_ok (length frame) \<Longrightarrow> net_ok (broadcast r i frame n)"
  by (simp add: broadcast_fan net_ok_fold net_ok_push_frame)

lemma length_encode [simp]: "length (encode tag n body) = 5 + length body"
  by (simp add: encode_def)

text \<open>What the server queues is small: its sizes stay far from the width of a \<open>usize\<close>.\<close>

lemma presence_sizes:
  assumes "length (topic_bytes t) = 32" "length (id_bytes i) = 32"
  shows "size_ok (length (server_encode (Joined t i)))" "size_ok (length (server_encode (Left t i)))"
    "length b \<le> MAX_ANNOUNCE_LEN \<Longrightarrow> size_ok (length (server_encode (Presence t i b)))"
  using assms by (simp_all add: size_ok_def MAX_ANNOUNCE_LEN_def)

lemma error_size:
  assumes "case t of None \<Rightarrow> True | Some t' \<Rightarrow> length (topic_bytes t') = 32" "length r < 2 ^ 62"
  shows "size_ok (length (error_frame t r))"
  using assms by (cases t) (simp_all add: size_ok_def error_frame_def ZERO_def)

lemma snapshot_size:
  assumes "length ms < 2 ^ 32" "\<forall>m \<in> set ms. length (m_blob m) \<le> MAX_ANNOUNCE_LEN"
  shows "size_ok (snapshot_wire_len ms e)"
proof -
  have "snapshot_entry_len m \<le> 1060" if "m \<in> set ms" for m
    using assms(2) that by (auto simp: snapshot_entry_len_def MAX_ANNOUNCE_LEN_def)
  then have "sum_list (map snapshot_entry_len ms) \<le> length ms * 1060"
    by (induction ms) (auto intro: add_mono)
  then have s: "sum_list (map snapshot_entry_len ms) < 2 ^ 32 * 1060" using assms(1) by linarith
  let ?s = "sum_list (map snapshot_entry_len ms)"
  define c where "c = max (length ms div max e 1) (?s div SNAPSHOT_CHUNK_BYTES) + 1"
  have "length ms div max e 1 \<le> length ms" "?s div SNAPSHOT_CHUNK_BYTES \<le> ?s" by simp_all
  then have c: "c < 2 ^ 32 * 1062" "1 \<le> c" using assms(1) s unfolding c_def by linarith+
  have "snapshot_wire_len ms e = ?s + c * 40"
    by (simp add: snapshot_wire_len_def SNAPSHOT_HEAD_LEN_def Let_def c_def)
  then show ?thesis using s c unfolding size_ok_def by simp
qed

section \<open>One connection's view\<close>

definition limits_ok :: "limits \<Rightarrow> bool" where
  "limits_ok l \<longleftrightarrow> outbox_bytes l < 2 ^ 63 \<and> bulk_outbox_bytes l < 2 ^ 63
     \<and> max_members_per_topic l < 2 ^ 32
     \<and> wf_rate (publish_rate l) \<and> wf_rate (join_rate l) \<and> wf_rate (datagram_rate l)"

definition sfu_ok :: "(u64 \<Rightarrow> endpoint_id) \<Rightarrow> sfu \<Rightarrow> bool" where
  "sfu_ok P s \<longleftrightarrow> rooms_ok P (f_rooms s) \<and> net_ok (f_net s) \<and> limits_ok (f_limits s)
     \<and> r_max_members (f_rooms s) = max (max_members_per_topic (f_limits s)) 1"

definition rate_ok :: "rate \<Rightarrow> bucket \<Rightarrow> bool" where
  "rate_ok r b \<longleftrightarrow> bk_rate b = r \<and> bucket_ok b"

definition session_ok :: "(u64 \<Rightarrow> endpoint_id) \<Rightarrow> limits \<Rightarrow> u64 \<Rightarrow> session \<Rightarrow> bool" where
  "session_ok P l k se \<longleftrightarrow>
     rd_handle (se_readers se) = \<lparr>h_peer = P k, h_conn = k\<rparr> \<and> length (id_bytes (P k)) = 32
     \<and> distinct (se_subscribed se) \<and> length (se_subscribed se) \<le> max_topics_per_connection l
     \<and> (\<forall>t \<in> set (se_subscribed se). length (topic_bytes t) = 32 \<and> \<not> is_zero t)
     \<and> rate_ok (publish_rate l) (rd_rate (se_readers se)) \<and> rate_ok (join_rate l) (se_join se)"

text \<open>The topics in which a connection holds a slot.\<close>

definition owned_in :: "rooms \<Rightarrow> u64 \<Rightarrow> topic set" where
  "owned_in rs k = {t. \<exists>i b. presence rs t i = Some (k, b)}"

definition ready :: "(u64 \<Rightarrow> endpoint_id) \<Rightarrow> u64 \<Rightarrow> session \<Rightarrow> sfu \<Rightarrow> bool" where
  "ready P k se s \<longleftrightarrow> sfu_ok P s \<and> session_ok P (f_limits s) k se
     \<and> owned_in (f_rooms s) k \<subseteq> set (se_subscribed se)"

text \<open>A step of one connection: it is ready for the next, and gives no other connection a slot.\<close>

definition moved :: "(u64 \<Rightarrow> endpoint_id) \<Rightarrow> u64 \<Rightarrow> sfu \<Rightarrow> session \<Rightarrow> sfu \<Rightarrow> bool" where
  "moved P k s se' s' \<longleftrightarrow> ready P k se' s' \<and> f_limits s' = f_limits s
     \<and> (\<forall>k'. k' \<noteq> k \<longrightarrow> owned_in (f_rooms s') k' \<subseteq> owned_in (f_rooms s) k')"

lemma on_net_simps [simp]:
  "f_rooms (on_net g s) = f_rooms s" "f_limits (on_net g s) = f_limits s" "f_net (on_net g s) = g (f_net s)"
  by (simp_all add: on_net_def)

lemma stat_simps [simp]:
  "f_rooms (stat f s) = f_rooms s" "f_limits (stat f s) = f_limits s"
  "n_conns (f_net (stat f s)) = n_conns (f_net s)"
  by (simp_all add: stat_def)

lemma send_error_simps [simp]:
  "f_rooms (send_error h t r s) = f_rooms s" "f_limits (send_error h t r s) = f_limits s"
  by (simp_all add: send_error_def)

lemma instant_now_simps [simp]:
  "f_rooms (snd (instant_now s)) = f_rooms s" "f_limits (snd (instant_now s)) = f_limits s"
  "f_net (snd (instant_now s)) = f_net s"
  by (simp_all add: instant_now_def)

lemma sfu_ok_on_net: "sfu_ok P s \<Longrightarrow> net_ok (g (f_net s)) \<Longrightarrow> sfu_ok P (on_net g s)"
  by (simp add: sfu_ok_def)

lemma sfu_ok_stat: "sfu_ok P s \<Longrightarrow> sfu_ok P (stat f s)"
  by (simp add: stat_def sfu_ok_on_net sfu_ok_def)

lemma sfu_ok_now: "sfu_ok P s \<Longrightarrow> sfu_ok P (snd (instant_now s))"
  by (simp add: sfu_ok_def)

lemma sfu_ok_error:
  assumes "sfu_ok P s" "length (topic_bytes t) = 32"
  shows "sfu_ok P (send_error h (Some t) (reason_text r) s)"
proof -
  have "length (reason_text r) < 2 ^ 62" by (cases r) (simp_all add: ascii_def)
  then show ?thesis
    using assms unfolding send_error_def
    by (intro sfu_ok_on_net) (simp_all add: handle_error_def net_ok_push_frame error_size sfu_ok_def)
qed

declare reason_text.simps [simp del]

lemma ready_handle: "ready P k se s \<Longrightarrow> rd_handle (se_readers se) = \<lparr>h_peer = P k, h_conn = k\<rparr>"
  by (simp add: ready_def session_ok_def)

lemma moved_same_rooms:
  assumes "ready P k se s" "sfu_ok P s'" "f_rooms s' = f_rooms s" "f_limits s' = f_limits s"
    and "session_ok P (f_limits s) k se'" "se_subscribed se' = se_subscribed se"
  shows "moved P k s se' s'"
  using assms by (simp add: moved_def ready_def)

lemma moved_error:
  "ready P k se s \<Longrightarrow> length (topic_bytes t) = 32
     \<Longrightarrow> moved P k s se (send_error h (Some t) (reason_text r) s)"
  by (rule moved_same_rooms) (simp_all add: ready_def sfu_ok_error)

lemma try_take_rate_ok:
  "rate_ok r b \<Longrightarrow> wf_rate r \<Longrightarrow> n \<le> 2 ^ 53 \<Longrightarrow> rate_ok r (snd (try_take now n b))"
  by (auto simp: rate_ok_def try_take_rate try_take_ok)

text \<open>Taking a token moves the clock and the bucket only.\<close>

lemma take_publish_ready:
  assumes "ready P k se s" "n \<le> 2 ^ 53" "take_publish n (se_readers se) s = (ok, rd, s1)"
  shows "ready P k (se\<lparr>se_readers := rd\<rparr>) s1 \<and> f_rooms s1 = f_rooms s \<and> f_limits s1 = f_limits s
    \<and> f_net s1 = f_net s \<and> rd_handle rd = rd_handle (se_readers se)"
proof -
  have s1: "s1 = snd (instant_now s)"
    and rd: "rd = (se_readers se)\<lparr>rd_rate := snd (try_take (fst (instant_now s)) n (rd_rate (se_readers se)))\<rparr>"
    using assms(3) by (auto simp: take_publish_def split_beta)
  have "rate_ok (publish_rate (f_limits s)) (rd_rate rd)"
    using assms(1,2) try_take_rate_ok
    by (simp add: rd ready_def session_ok_def sfu_ok_def limits_ok_def)
  then show ?thesis
    using assms(1) by (simp add: s1 rd ready_def session_ok_def sfu_ok_now)
qed

lemma take_join_ready:
  assumes "ready P k se s" "instant_now s = (now, s1)" "try_take now 0 (se_join se) = (ok, b)"
  shows "ready P k (se\<lparr>se_join := b\<rparr>) s1 \<and> f_rooms s1 = f_rooms s \<and> f_limits s1 = f_limits s
    \<and> f_net s1 = f_net s"
proof -
  have s1: "s1 = snd (instant_now s)" using assms(2) by simp
  have "rate_ok (join_rate (f_limits s)) b"
    using assms(1,3) try_take_rate_ok [of "join_rate (f_limits s)" "se_join se" 0 now]
    by (simp add: ready_def session_ok_def sfu_ok_def limits_ok_def)
  then show ?thesis
    using assms(1) by (simp add: s1 ready_def session_ok_def sfu_ok_now)
qed

section \<open>Room operations in the server\<close>

lemma presence_owner: "rooms_ok P rs \<Longrightarrow> presence rs t i = Some (k, b) \<Longrightarrow> P k = i \<and> length b \<le> MAX_ANNOUNCE_LEN"
proof -
  assume "rooms_ok P rs" "presence rs t i = Some (k, b)"
  moreover obtain sl where "hm_get (room_of rs t) i = Some sl" "k = h_conn (s_handle sl)" "b = s_blob sl"
    using calculation(2) by (auto simp: presence_def view_def)
  ultimately show ?thesis
    using room_of_ok [of P rs t] by (auto simp: room_ok_def slot_ok_def)
qed

lemma owned_in_iff:
  "rooms_ok P rs \<Longrightarrow> t \<in> owned_in rs k \<longleftrightarrow> is_member t \<lparr>h_peer = P k, h_conn = k\<rparr> rs"
  by (auto simp: owned_in_def is_member_presence dest: presence_owner)

lemma sfu_ok_rooms:
  "sfu_ok P s \<Longrightarrow> rooms_ok P rs \<Longrightarrow> net_ok n \<Longrightarrow> r_max_members rs = r_max_members (f_rooms s)
     \<Longrightarrow> sfu_ok P (s\<lparr>f_rooms := rs, f_net := n\<rparr>)"
  by (simp add: sfu_ok_def)

lemma other_members_small:
  assumes "room_ok P cap r" "cap < 2 ^ 32"
  shows "size_ok (snapshot_wire_len (other_members r i) e)"
proof (rule snapshot_size)
  have "length (other_members r i) \<le> length r" by (simp add: other_members_def)
  then show "length (other_members r i) < 2 ^ 32" using assms by (simp add: room_ok_def)
  have "hm_wf r" using assms(1) by (simp add: room_ok_def)
  then show "\<forall>m \<in> set (other_members r i). length (m_blob m) \<le> MAX_ANNOUNCE_LEN"
    using assms(1) by (auto simp: other_members_def room_ok_def slot_ok_def hm_in_set_get)
qed

lemma join_in_server:
  assumes ok: "sfu_ok P s" and h: "h = \<lparr>h_peer = P k, h_conn = k\<rparr>" "length (id_bytes (P k)) = 32"
    and t: "length (topic_bytes t) = 32" and j: "join t h (f_rooms s) (f_net s) = (res, rs, n)"
  shows "sfu_ok P (s\<lparr>f_rooms := rs, f_net := n\<rparr>)"
    "owned_in rs k \<subseteq> owned_in (f_rooms s) k \<union> (if res = None then {} else {t})"
    "k' \<noteq> k \<Longrightarrow> owned_in rs k' \<subseteq> owned_in (f_rooms s) k'"
proof -
  have rok: "rooms_ok P (f_rooms s)" and nok: "net_ok (f_net s)" and cap: "r_max_members (f_rooms s) < 2 ^ 32"
    using ok by (auto simp: sfu_ok_def limits_ok_def)
  have Pk: "P (h_conn h) = h_peer h" by (simp add: h)
  have "sfu_ok P (s\<lparr>f_rooms := rs, f_net := n\<rparr>)
      \<and> owned_in rs k \<subseteq> owned_in (f_rooms s) k \<union> (if res = None then {} else {t})
      \<and> (k' \<noteq> k \<longrightarrow> owned_in rs k' \<subseteq> owned_in (f_rooms s) k')" for k'
  proof (cases "is_full (f_rooms s) t (h_peer h)")
    case True
    have f: "res = None" "n = f_net s" "room_get rs = room_get (f_rooms s)" "rooms_ok P rs"
      using join_full [OF rok True j] by simp_all
    have "presence rs = presence (f_rooms s)" using f(3) by (simp add: presence_def room_of_def fun_eq_iff)
    moreover have "r_max_members rs = r_max_members (f_rooms s)"
      using j True by (auto simp: join_unfold Let_def)
    then have "sfu_ok P (s\<lparr>f_rooms := rs, f_net := n\<rparr>)"
      using sfu_ok_rooms [OF ok f(4)] f(2) nok by blast
    ultimately show ?thesis by (simp add: owned_in_def)
  next
    case False
    note e = join_enters [OF rok False Pk j]
    let ?r = "hm_insert (h_peer h) \<lparr>s_handle = h, s_blob = []\<rparr> (room_of (f_rooms s) t)"
    have ro: "room_ok P (r_max_members (f_rooms s)) ?r" using e by blast
    have id: "length (id_bytes (h_peer h)) = 32" using h by simp
    have "net_ok (broadcast ?r (h_peer h) (server_encode (Joined t (h_peer h)))
        (handle_push_session h (SnapshotItem t (other_members ?r (h_peer h)))
          (snapshot_wire_len (other_members ?r (h_peer h)) (r_chunk_entries (f_rooms s))) (f_net s)))"
      by (intro net_ok_broadcast net_ok_push_session nok other_members_small [OF ro cap]
          presence_sizes(1) [OF t id])
    then have "net_ok n" using e by presburger
    moreover have "presence rs = (presence (f_rooms s))(t := (presence (f_rooms s) t)(P k \<mapsto> (k, [])))"
      using join_enters_presence [OF rok False Pk j] by (simp add: h)
    ultimately show ?thesis
      using sfu_ok_rooms [OF ok] e by (auto simp: owned_in_def split: if_splits)
  qed
  then show "sfu_ok P (s\<lparr>f_rooms := rs, f_net := n\<rparr>)"
    "owned_in rs k \<subseteq> owned_in (f_rooms s) k \<union> (if res = None then {} else {t})"
    "k' \<noteq> k \<Longrightarrow> owned_in rs k' \<subseteq> owned_in (f_rooms s) k'" by blast+
qed

lemma leave_in_server:
  assumes ok: "sfu_ok P s" and h: "h = \<lparr>h_peer = P k, h_conn = k\<rparr>" "length (id_bytes (P k)) = 32"
    and t: "length (topic_bytes t) = 32" and l: "leave t h (f_rooms s) (f_net s) = (res, rs, n)"
  shows "sfu_ok P (s\<lparr>f_rooms := rs, f_net := n\<rparr>)"
    "owned_in rs k = owned_in (f_rooms s) k - {t}"
    "owned_in rs k' \<subseteq> owned_in (f_rooms s) k'"
proof -
  have rok: "rooms_ok P (f_rooms s)" and nok: "net_ok (f_net s)"
    using ok by (auto simp: sfu_ok_def)
  have "sfu_ok P (s\<lparr>f_rooms := rs, f_net := n\<rparr>) \<and> owned_in rs k = owned_in (f_rooms s) k - {t}
      \<and> owned_in rs k' \<subseteq> owned_in (f_rooms s) k'" for k'
  proof (cases "is_member t h (f_rooms s)")
    case False
    then have "rs = f_rooms s" "n = f_net s" using l by (simp_all add: leave_unfold)
    moreover have "t \<notin> owned_in (f_rooms s) k" using False owned_in_iff [OF rok] h(1) by simp
    ultimately show ?thesis using ok by simp
  next
    case True
    note e = leave_table [OF rok True l]
    have "net_ok n"
      using e presence_sizes(2) [OF t] nok h by (simp del: server_encode.simps add: net_ok_broadcast)
    moreover have p: "presence rs = (presence (f_rooms s))(t := (presence (f_rooms s) t)(P k := None))"
      using leave_refines [OF rok l] True by (auto simp: spec_leave_def is_member_presence h Let_def)
    have "owned_in rs k = owned_in (f_rooms s) k - {t}"
    proof -
      have "i = P k" if "presence (f_rooms s) t i = Some (k, b)" for i b
        using presence_owner [OF rok that] by simp
      then show ?thesis by (auto simp: owned_in_def p split: if_splits)
    qed
    moreover have "owned_in rs k' \<subseteq> owned_in (f_rooms s) k'"
      by (auto simp: owned_in_def p split: if_splits)
    ultimately show ?thesis using sfu_ok_rooms [OF ok] e by blast
  qed
  then show "sfu_ok P (s\<lparr>f_rooms := rs, f_net := n\<rparr>)"
    "owned_in rs k = owned_in (f_rooms s) k - {t}"
    "owned_in rs k' \<subseteq> owned_in (f_rooms s) k'" by blast+
qed

lemma announce_in_server:
  assumes ok: "sfu_ok P s" and h: "h = \<lparr>h_peer = P k, h_conn = k\<rparr>" "length (id_bytes (P k)) = 32"
    and t: "length (topic_bytes t) = 32" and b: "length blob \<le> MAX_ANNOUNCE_LEN"
    and a: "announce t h blob (f_rooms s) (f_net s) = (res, rs, n)"
  shows "sfu_ok P (s\<lparr>f_rooms := rs, f_net := n\<rparr>)" "owned_in rs k' \<subseteq> owned_in (f_rooms s) k'"
proof -
  have rok: "rooms_ok P (f_rooms s)" and nok: "net_ok (f_net s)"
    using ok by (auto simp: sfu_ok_def)
  have "sfu_ok P (s\<lparr>f_rooms := rs, f_net := n\<rparr>) \<and> owned_in rs k' \<subseteq> owned_in (f_rooms s) k'"
  proof (cases "is_member t h (f_rooms s)")
    case False
    then have "rs = f_rooms s" "n = f_net s" using a by (simp_all add: announce_unfold)
    then show ?thesis using ok by simp
  next
    case True
    note e = announce_table [OF rok True b a]
    have "net_ok n"
      using e presence_sizes(3) [OF t _ b] nok h by (simp del: server_encode.simps add: net_ok_broadcast)
    moreover have "presence rs = (presence (f_rooms s))(t := (presence (f_rooms s) t)(P k \<mapsto> (k, blob)))"
      using announce_refines [OF rok b a] True by (auto simp: spec_announce_def is_member_presence h)
    moreover have "\<exists>i c. presence (f_rooms s) t i = Some (k, c)"
      using True by (auto simp: is_member_presence h)
    ultimately show ?thesis
      using sfu_ok_rooms [OF ok] e by (auto simp: owned_in_def split: if_splits)
  qed
  then show "sfu_ok P (s\<lparr>f_rooms := rs, f_net := n\<rparr>)" "owned_in rs k' \<subseteq> owned_in (f_rooms s) k'" by blast+
qed

section \<open>Frames of a session\<close>

lemma ready_sfu: "ready P k se s \<Longrightarrow> sfu_ok P s"
  and ready_session: "ready P k se s \<Longrightarrow> session_ok P (f_limits s) k se"
  and ready_owned: "ready P k se s \<Longrightarrow> owned_in (f_rooms s) k \<subseteq> set (se_subscribed se)"
  and ready_id: "ready P k se s \<Longrightarrow> length (id_bytes (P k)) = 32"
  by (simp_all add: ready_def session_ok_def)

lemma ready_stat: "ready P k se s \<Longrightarrow> ready P k se (stat f s)"
  by (simp add: ready_def sfu_ok_stat)

lemma subscribe_moved:
  assumes r: "ready P k se s" and t: "length (topic_bytes t) = 32" "\<not> is_zero t"
    and sub: "t \<notin> set (se_subscribed se)" "length (se_subscribed se) < max_topics_per_connection (f_limits s)"
    and j: "join t (rd_handle (se_readers se)) (f_rooms s) (f_net s) = (res, rs, n)"
  shows "moved P k s (if res = None then se else se\<lparr>se_subscribed := set_insert t (se_subscribed se)\<rparr>)
    (s\<lparr>f_rooms := rs, f_net := n\<rparr>)"
proof -
  note js = join_in_server [OF ready_sfu [OF r] ready_handle [OF r] ready_id [OF r] t(1) j]
  have "session_ok P (f_limits s) k
      (if res = None then se else se\<lparr>se_subscribed := set_insert t (se_subscribed se)\<rparr>)"
    using ready_session [OF r] sub t by (auto simp: session_ok_def set_insert_def)
  then show ?thesis
    using js ready_owned [OF r] unfolding moved_def ready_def by (auto simp: set_insert_def split: if_splits)
qed

lemma unsubscribe_moved:
  assumes r: "ready P k se s" and t: "t \<in> set (se_subscribed se)"
    and l: "leave t (rd_handle (se_readers se)) (f_rooms s) (f_net s) = (res, rs, n)"
  shows "moved P k s (se\<lparr>se_subscribed := remove1 t (se_subscribed se)\<rparr>) (s\<lparr>f_rooms := rs, f_net := n\<rparr>)"
proof -
  have d: "distinct (se_subscribed se)" and t32: "length (topic_bytes t) = 32"
    using ready_session [OF r] t by (simp_all add: session_ok_def)
  note ls = leave_in_server [OF ready_sfu [OF r] ready_handle [OF r] ready_id [OF r] t32 l]
  have "length (remove1 t (se_subscribed se)) \<le> length (se_subscribed se)" by (simp add: length_remove1)
  then have "session_ok P (f_limits s) k (se\<lparr>se_subscribed := remove1 t (se_subscribed se)\<rparr>)"
    using ready_session [OF r] d by (auto simp: session_ok_def)
  then show ?thesis
    using ls ready_owned [OF r] d by (auto simp: moved_def ready_def)
qed

text \<open>Every branch of \<open>handle_frame\<close>.\<close>

lemma moved_trans_same:
  assumes "moved P k s1 se' s'" "f_rooms s1 = f_rooms s" "f_limits s1 = f_limits s"
  shows "moved P k s se' s'"
  using assms by (simp add: moved_def)

lemma handle_frame_moved:
  assumes r: "ready P k se s" and wf: "wf_client_frame vk frame" and n: "n \<le> 2 ^ 53"
    and hf: "handle_frame frame n se s = (se', s')"
  shows "moved P k s se' s'"
proof (cases frame)
  case (Subscribe t)
  have t: "length (topic_bytes t) = 32" using wf Subscribe by (simp add: wf_topic_def)
  have refl: "moved P k s se s" using r by (simp add: moved_def)
  obtain now s1 where now: "instant_now s = (now, s1)" by fastforce
  obtain ok b where tk: "try_take now 0 (se_join se) = (ok, b)" by fastforce
  note tj = take_join_ready [OF r now tk]
  let ?h = "rd_handle (se_readers se)" and ?se1 = "se\<lparr>se_join := b\<rparr>"
  obtain res rs net where j: "join t ?h (f_rooms s1) (f_net s1) = (res, rs, net)" by (metis prod_cases3)
  consider "t \<in> set (se_subscribed se)" | "t \<notin> set (se_subscribed se)" "is_zero t"
    | "t \<notin> set (se_subscribed se)" "\<not> is_zero t" "length (se_subscribed se) \<ge> max_topics_per_connection (f_limits s)"
    | (take) "t \<notin> set (se_subscribed se)" "\<not> is_zero t" "length (se_subscribed se) < max_topics_per_connection (f_limits s)"
    by linarith
  then show ?thesis
  proof cases
    case take
    show ?thesis
    proof (cases ok)
      case False
      then have "se' = ?se1" "s' = send_error ?h (Some t) (reason_text RateLimited) (stat st_rate_limited_update s1)"
        using hf Subscribe take now tk by (simp_all add: handle_frame_def Let_def)
      moreover have "ready P k ?se1 (stat st_rate_limited_update s1)"
        using tj by (simp add: ready_stat)
      ultimately show ?thesis
        using moved_trans_same [OF moved_error] t tj by simp
    next
      case True
      have m: "moved P k s1 (if res = None then ?se1 else ?se1\<lparr>se_subscribed := set_insert t (se_subscribed ?se1)\<rparr>)
          (s1\<lparr>f_rooms := rs, f_net := net\<rparr>)"
        using subscribe_moved [of P k ?se1 s1 t res rs net] tj t take j by simp
      show ?thesis
      proof (cases res)
        case None
        then have "se' = ?se1" "s' = send_error ?h (Some t) (reason_text RoomFull) (s1\<lparr>f_rooms := rs, f_net := net\<rparr>)"
          using hf Subscribe take now tk True j by (simp_all add: handle_frame_def Let_def)
        then show ?thesis
          using m None tj t by (auto simp: moved_def ready_def sfu_ok_error)
      next
        case (Some sz)
        then have "se' = ?se1\<lparr>se_subscribed := set_insert t (se_subscribed ?se1)\<rparr>" "s' = s1\<lparr>f_rooms := rs, f_net := net\<rparr>"
          using hf Subscribe take now tk True j by (simp_all add: handle_frame_def Let_def)
        then show ?thesis using m Some tj by (simp add: moved_def)
      qed
    qed
  qed (use hf Subscribe moved_error [OF r t] refl in \<open>auto simp: handle_frame_def Let_def\<close>)
next
  case (Unsubscribe t)
  obtain res rs net where l: "leave t (rd_handle (se_readers se)) (f_rooms s) (f_net s) = (res, rs, net)"
    by (metis prod_cases3)
  show ?thesis
  proof (cases "t \<in> set (se_subscribed se)")
    case True
    then show ?thesis
      using hf Unsubscribe l unsubscribe_moved [OF r True l]
      by (simp add: handle_frame_def Let_def set_remove_def)
  next
    case False
    then have "(se', s') = (se, s)"
      using hf Unsubscribe by (simp add: handle_frame_def Let_def set_remove_def remove1_idem)
    then show ?thesis using r by (simp add: moved_def)
  qed
next
  case (Announce t blob)
  have t: "length (topic_bytes t) = 32" using wf Announce by (simp add: wf_topic_def)
  obtain ok rd s1 where tk: "take_publish n (se_readers se) s = (ok, rd, s1)" by (metis prod_cases3)
  note tp = take_publish_ready [OF r n tk]
  let ?h = "rd_handle (se_readers se)" and ?se1 = "se\<lparr>se_readers := rd\<rparr>"
  obtain res rs net where a: "announce t ?h blob (f_rooms s1) (f_net s1) = (res, rs, net)" by (metis prod_cases3)
  consider "length blob > MAX_ANNOUNCE_LEN" | "length blob \<le> MAX_ANNOUNCE_LEN" "t \<notin> set (se_subscribed se)"
    | (take) "length blob \<le> MAX_ANNOUNCE_LEN" "t \<in> set (se_subscribed se)" by linarith
  then show ?thesis
  proof cases
    case take
    show ?thesis
    proof (cases ok)
      case False
      then have "se' = ?se1" "s' = rate_limited ?h t s1"
        using hf Announce take tk by (simp_all add: handle_frame_def Let_def)
      moreover have "ready P k ?se1 (stat st_rate_limited_update s1)"
        using tp by (simp add: ready_stat)
      ultimately show ?thesis
        using moved_trans_same [OF moved_error] t tp by (simp add: rate_limited_def)
    next
      case True
      have "se' = ?se1" "s' = s1\<lparr>f_rooms := rs, f_net := net\<rparr>"
        using hf Announce take tk True a by (simp_all add: handle_frame_def Let_def)
      moreover have "sfu_ok P s1" using tp ready_sfu by blast
      note an = announce_in_server [OF this ready_handle [OF r] ready_id [OF r] t take(1) a]
      have "owned_in rs k \<subseteq> set (se_subscribed se)"
        using an(2) [of k] ready_owned [OF r] tp by auto
      ultimately show ?thesis
        using an tp by (auto simp: moved_def ready_def)
    qed
  qed (use hf Announce moved_error [OF r t] in \<open>auto simp: handle_frame_def Let_def\<close>)
qed (use hf wf moved_error [OF r] in \<open>auto simp: handle_frame_def Let_def wf_topic_def\<close>)

text \<open>A malformed frame costs its sender one ERROR and nothing else.\<close>

definition env_ok :: "env \<Rightarrow> bool" where
  "env_ok ev \<longleftrightarrow> length (ev_key_error ev) < 2 ^ 32"

lemma malformed_text_small: "env_ok ev \<Longrightarrow> length (malformed_text ev tag e) < 2 ^ 62"
  by (cases e) (simp_all add: env_ok_def malformed_text_def ascii_def hex_byte_def)

lemma sfu_ok_malformed:
  assumes "sfu_ok P s" "env_ok ev"
  shows "sfu_ok P (skip_malformed ev h tag e s)"
  unfolding skip_malformed_def send_error_def
  using sfu_ok_stat [OF assms(1), of st_malformed_update] malformed_text_small [OF assms(2)]
  by (intro sfu_ok_on_net) (simp_all add: handle_error_def net_ok_push_frame error_size sfu_ok_def)

lemma skip_malformed_simps [simp]:
  "f_rooms (skip_malformed ev h tag e s) = f_rooms s" "f_limits (skip_malformed ev h tag e s) = f_limits s"
  by (simp_all add: skip_malformed_def)

lemma moved_malformed:
  "ready P k se s \<Longrightarrow> env_ok ev \<Longrightarrow> moved P k s se (skip_malformed ev h tag e s)"
  by (rule moved_same_rooms) (simp_all add: ready_def sfu_ok_malformed)

lemma body_in_rate: "1 + length body \<le> MAX_FRAME_LEN \<Longrightarrow> 5 + length body \<le> 2 ^ 53"
  by (simp add: MAX_FRAME_LEN_value)

lemma session_frame_moved:
  assumes "ready P k se s" "env_ok ev" "1 + length body \<le> MAX_FRAME_LEN"
    and "session_frame ev tag body se s = (se', s')"
  shows "moved P k s se' s'"
proof (cases "client_decode (ev_valid_key ev) tag body")
  case (Inl e)
  then show ?thesis using assms moved_malformed by (auto simp: session_frame_def)
next
  case (Inr frame)
  then show ?thesis
    using assms handle_frame_moved [OF assms(1) client_decode_wf [OF Inr assms(3)] body_in_rate [OF assms(3)]]
    by (simp add: session_frame_def)
qed

section \<open>Frames of a lane\<close>

lemma deliver_small:
  "length tp = 32 \<Longrightarrow> length payload \<le> MAX_PUBLISH_LEN \<Longrightarrow> len_ok (deliver_new tp payload)"
  by (simp add: len_ok_def deliver_len_def deliver_new_def frame_header_def MAX_PUBLISH_LEN_def)

lemma net_ok_publish:
  assumes "net_ok n" "len_ok d"
  shows "net_ok (snd (publish t h lane d rs n))" "net_ok (snd (publish_to t h i lane d rs n))"
  using assms
  by (auto simp: publish_def publish_to_def publish_fan net_ok_fold net_ok_deliver split: option.splits)

lemma publish_send_keeps:
  assumes ok: "sfu_ok P s" and t: "length (topic_bytes t) = 32" and d: "len_ok d"
  shows "sfu_ok P (publish_send lane t recipient d h s) \<and> f_rooms (publish_send lane t recipient d h s) = f_rooms s
    \<and> f_limits (publish_send lane t recipient d h s) = f_limits s"
proof -
  obtain res net where rn: "(case recipient of None \<Rightarrow> publish t h lane d (f_rooms s) (f_net s)
      | Some i \<Rightarrow> publish_to t h i lane d (f_rooms s) (f_net s)) = (res, net)" by fastforce
  have nok: "net_ok (f_net s)" using ok by (simp add: sfu_ok_def)
  have "net_ok net"
    using rn net_ok_publish [OF nok d]
    by (cases recipient) (metis option.simps(4) snd_conv, metis option.simps(5) snd_conv)
  then have "sfu_ok P (s\<lparr>f_net := net\<rparr>)" using ok by (simp add: sfu_ok_def)
  note err = sfu_ok_error [OF this t] and cnt = sfu_ok_on_net [OF this]
  show ?thesis
    using rn err cnt \<open>net_ok net\<close> by (auto simp: publish_send_def Let_def split: sum.splits refusal.splits)
qed

lemma publish_parts_moved:
  assumes r: "ready P k se s" and t: "length (topic_bytes t) = 32" "tp = topic_bytes t" and n: "n \<le> 2 ^ 53"
    and p: "publish_parts lane t recipient payload tp n (se_readers se) s = (rd, s')"
  shows "moved P k s (se\<lparr>se_readers := rd\<rparr>) s'"
proof -
  let ?h = "rd_handle (se_readers se)"
  obtain ok rd1 s1 where tk: "take_publish n (se_readers se) s = (ok, rd1, s1)" by (metis prod_cases3)
  note tp = take_publish_ready [OF r n tk]
  consider (early) e where "(rd, s') = (se_readers se, send_error ?h (Some t) (reason_text e) s)"
    | (limited) "(rd, s') = (rd1, rate_limited ?h t s1)"
    | (sent) "length payload \<le> MAX_PUBLISH_LEN" "(rd, s') = (rd1, publish_send lane t recipient (deliver_new tp payload) ?h s1)"
    using p tk by (auto simp: publish_parts_def Let_def split: if_splits)
  then show ?thesis
  proof cases
    case early
    then show ?thesis using moved_error [OF r t(1)] by simp
  next
    case limited
    then show ?thesis
      using tp moved_error [OF ready_stat t(1), of P k "se\<lparr>se_readers := rd1\<rparr>" s1]
      by (simp add: rate_limited_def moved_def)
  next
    case sent
    have "len_ok (deliver_new tp payload)" using deliver_small t sent(1) by simp
    note k = publish_send_keeps [OF ready_sfu t(1) this, of P k "se\<lparr>se_readers := rd1\<rparr>" s1 lane recipient ?h]
    show ?thesis using sent(2) tp k by (auto simp: moved_def ready_def)
  qed
qed

lemma readers_publish_moved:
  assumes "ready P k se s" "decode_lane_frame ev tag body = Inr (frame, tp)" "1 + length body \<le> MAX_FRAME_LEN"
    and "readers_publish lane frame tp (5 + length body) (se_readers se) s = Some (rd, s')"
  shows "moved P k s (se\<lparr>se_readers := rd\<rparr>) s'"
proof -
  note d = decode_lane_frame_Inr [OF assms(2)]
  have "wf_client_frame (ev_valid_key ev) frame" using client_decode_wf [OF d(1) assms(3)] .
  then show ?thesis
    using assms(4) d publish_parts_moved [OF assms(1) _ _ body_in_rate [OF assms(3)]]
    by (cases frame) (auto simp: readers_publish_def wf_topic_def)
qed

lemma lane_frame_moved:
  assumes "ready P k se s" "env_ok ev" "1 + length body \<le> MAX_FRAME_LEN"
    and "lane_frame ev lane tag body (se_readers se) s = Some (rd, s')"
  shows "moved P k s (se\<lparr>se_readers := rd\<rparr>) s'"
proof (cases "decode_lane_frame ev tag body")
  case (Inl e)
  then show ?thesis using assms moved_malformed [OF assms(1,2)] by (auto simp: lane_frame_def)
next
  case (Inr x)
  then show ?thesis
    using assms readers_publish_moved by (cases x) (auto simp: lane_frame_def)
qed

lemma bulk_frame_moved:
  assumes "ready P k se s" "1 + length body \<le> MAX_FRAME_LEN"
    and "bulk_frame ev tag body (se_readers se) s = (code, Some (rd, s'))"
  shows "moved P k s (se\<lparr>se_readers := rd\<rparr>) s'"
proof (cases "decode_lane_frame ev tag body")
  case (Inl e)
  then have "(rd, s') = (se_readers se, stat st_bulk_stopped_update (stat st_malformed_update s))"
    using assms(3) by (simp add: bulk_frame_def)
  then show ?thesis using assms(1) by (simp add: moved_def ready_stat)
next
  case (Inr x)
  then show ?thesis
    using assms readers_publish_moved by (cases x) (auto simp: bulk_frame_def)
qed

section \<open>The other tasks\<close>

lemma net_ok_same_conns: "net_ok n \<Longrightarrow> n_conns n' = n_conns n \<Longrightarrow> net_ok n'"
  by (simp add: net_ok_def)

lemma net_ok_conn_step: "net_ok n \<Longrightarrow> (\<And>c. conn_step c (f c)) \<Longrightarrow> net_ok (on_conn f k n)"
  using conn_step_ok by (blast intro: net_ok_on_conn)

lemma send_datagram_keeps:
  "sfu_ok P s \<Longrightarrow> sfu_ok P (send_datagram ev dg k s)
     \<and> f_rooms (send_datagram ev dg k s) = f_rooms s \<and> f_limits (send_datagram ev dg k s) = f_limits s"
proof -
  assume ok: "sfu_ok P s"
  then have "sfu_ok P (on_net (on_conn (\<lambda>c. c\<lparr>c_datagrams := c_datagrams c @ [dg]\<rparr>) k) s)"
    by (intro sfu_ok_on_net net_ok_conn_step conn_step.datagram) (simp_all add: sfu_ok_def)
  then show ?thesis using ok by (simp add: send_datagram_def sfu_ok_stat)
qed

lemma send_datagrams_keep:
  "sfu_ok P s \<Longrightarrow> sfu_ok P (fold (send_datagram ev dg) ks s)
     \<and> f_rooms (fold (send_datagram ev dg) ks s) = f_rooms s
     \<and> f_limits (fold (send_datagram ev dg) ks s) = f_limits s"
  by (induction ks arbitrary: s) (simp_all add: send_datagram_keeps)

lemma datagram_turn_keeps:
  assumes "sfu_ok P s" "rate_ok (datagram_rate (f_limits s)) b" "length dg < 2 ^ 32"
    and "datagram_turn ev dg h b s = (b', s')"
  shows "sfu_ok P s' \<and> f_rooms s' = f_rooms s \<and> f_limits s' = f_limits s
    \<and> rate_ok (datagram_rate (f_limits s)) b'"
proof -
  let ?s2 = "snd (instant_now (stat st_datagrams_in_update s))"
  have b': "b' = snd (try_take (fst (instant_now (stat st_datagrams_in_update s))) (length dg) b)"
    and s': "s' = stat st_datagrams_dropped_update ?s2 \<or> (\<exists>ks. s' = fold (send_datagram ev dg) ks ?s2)"
    using assms(4) by (auto simp: datagram_turn_def Let_def split_beta split: option.splits)
  have "rate_ok (datagram_rate (f_limits s)) b'"
    using try_take_rate_ok [OF assms(2)] assms(1,3) by (simp add: b' sfu_ok_def limits_ok_def)
  moreover have "sfu_ok P ?s2" using assms(1) by (simp add: sfu_ok_now sfu_ok_stat)
  ultimately show ?thesis using s' send_datagrams_keep [of P ?s2] by (auto simp: sfu_ok_stat)
qed

lemma writer_step_conn_step: "writer_step c c' \<Longrightarrow> conn_step c c'"
  by (induction rule: writer_step.induct) (auto intro: conn_step.intros)

lemma close_protocol_keeps:
  "sfu_ok P s \<Longrightarrow> sfu_ok P (close_protocol h n s)
     \<and> f_rooms (close_protocol h n s) = f_rooms s \<and> f_limits (close_protocol h n s) = f_limits s"
  unfolding close_protocol_def
  by (auto intro!: sfu_ok_on_net net_ok_conn_step conn_step.close simp: sfu_ok_def)

lemma end_connection_keeps:
  assumes "sfu_ok P s" "se_subscribed se = []"
  shows "sfu_ok P (end_connection result se s) \<and> f_rooms (end_connection result se s) = f_rooms s
    \<and> f_limits (end_connection result se s) = f_limits s"
proof -
  let ?h = "rd_handle (se_readers se)"
  have "sfu_ok P (on_net (on_conn outbound_drop (h_conn ?h)) s)"
    using assms(1) by (intro sfu_ok_on_net net_ok_conn_step conn_step.outbound_drop) (simp_all add: sfu_ok_def)
  then show ?thesis
    using assms(2) close_protocol_keeps [of P _ ?h]
    by (auto simp: end_connection_def leave_all_def Let_def sfu_ok_stat split: option.splits read_error.splits)
qed

lemma bucket_new_rate_ok: "wf_rate r \<Longrightarrow> rate_ok r (bucket_new r t)"
  by (simp add: rate_ok_def bucket_new_def bucket_ok_def wf_rate_def level_ok_full)

lemma rooms_ok_peer:
  assumes "rooms_ok P rs" "owned_in rs k = {}"
  shows "rooms_ok (P(k := p)) rs"
proof -
  have "h_conn (s_handle sl) \<noteq> k" if "room_get rs t = Some r" "hm_get r i = Some sl" for t r i sl
  proof
    assume "h_conn (s_handle sl) = k"
    then have "presence rs t i = Some (k, s_blob sl)"
      using that by (simp add: presence_def view_def room_of_def)
    then show False using assms(2) by (auto simp: owned_in_def)
  qed
  then show ?thesis using assms(1) by (fastforce simp: rooms_ok_def room_ok_def slot_ok_def)
qed

lemma open_connection_keeps:
  assumes "sfu_ok P s" "owned_in (f_rooms s) k = {}" "length (id_bytes peer) = 32"
    and "open_connection peer k s = (se, dg, s')"
  shows "ready (P(k := peer)) k se s' \<and> f_rooms s' = f_rooms s \<and> f_limits s' = f_limits s
    \<and> rate_ok (datagram_rate (f_limits s)) dg \<and> se_subscribed se = []"
proof -
  have l: "limits_ok (f_limits s)" using assms(1) by (simp add: sfu_ok_def)
  have s': "f_rooms s' = f_rooms s" "f_limits s' = f_limits s"
    "n_conns (f_net s') = (n_conns (f_net s))(k := conn_new (f_limits s))"
    using assms(4) by (auto simp: open_connection_def Let_def instant_now_def)
  have "net_ok (f_net s')"
    using assms(1) l s'(3) conn_new_ok by (auto simp: net_ok_def sfu_ok_def limits_ok_def)
  moreover have "session_ok (P(k := peer)) (f_limits s) k se" "rate_ok (datagram_rate (f_limits s)) dg"
    "se_subscribed se = []"
    using assms(3,4) l
    by (auto simp: open_connection_def Let_def instant_now_def session_ok_def bucket_new_rate_ok limits_ok_def)
  ultimately show ?thesis
    using s' assms(1,2) rooms_ok_peer [of P "f_rooms s" k peer] by (simp add: ready_def sfu_ok_def)
qed

section \<open>The invariant\<close>

text \<open>The session of a connection, live or closing.\<close>

definition hold :: "(u64 \<Rightarrow> session option) \<Rightarrow> (u64 \<Rightarrow> (read_error option \<times> session) option)
    \<Rightarrow> u64 \<Rightarrow> session option" where
  "hold live closing k = (case live k of Some se \<Rightarrow> Some se | None \<Rightarrow> map_option snd (closing k))"

definition holder :: "server \<Rightarrow> u64 \<Rightarrow> session option" where
  "holder v = hold (v_live v) (v_closing v)"

lemma hold_upd:
  "hold (L(k \<mapsto> se)) C = (hold L C)(k \<mapsto> se)"
  "L k = None \<Longrightarrow> hold L (C(k := x)) = (hold L C)(k := map_option snd x)"
  "L k = Some se \<Longrightarrow> C k = None \<Longrightarrow> hold (L(k := None)) (C(k \<mapsto> (r, se))) = hold L C"
  by (auto simp: hold_def fun_eq_iff split: option.splits)

definition server_ok :: "server \<Rightarrow> bool" where
  "server_ok v \<longleftrightarrow>
     sfu_ok (v_peer v) (v_sfu v)
     \<and> (\<forall>k se. holder v k = Some se \<longrightarrow> ready (v_peer v) k se (v_sfu v) \<and> unat k < v_next v)
     \<and> (\<forall>k. holder v k = None \<longrightarrow> owned_in (f_rooms (v_sfu v)) k = {})
     \<and> (\<forall>k. v_live v k = None \<or> v_closing v k = None)
     \<and> (\<forall>k b. v_dgs v k = Some b \<longrightarrow> rate_ok (datagram_rate (f_limits (v_sfu v))) b)"

lemma ready_others:
  assumes "ready P k' se' s" "sfu_ok P s'" "f_limits s' = f_limits s"
    and "owned_in (f_rooms s') k' \<subseteq> owned_in (f_rooms s) k'"
  shows "ready P k' se' s'"
  using assms by (auto simp: ready_def)

lemma server_ok_ready: "server_ok v \<Longrightarrow> holder v k = Some se \<Longrightarrow> ready (v_peer v) k se (v_sfu v)"
  and server_ok_dgs: "server_ok v \<Longrightarrow> v_dgs v k = Some b \<Longrightarrow> rate_ok (datagram_rate (f_limits (v_sfu v))) b"
  and server_ok_sfu: "server_ok v \<Longrightarrow> sfu_ok (v_peer v) (v_sfu v)"
  and server_ok_next: "server_ok v \<Longrightarrow> holder v k = Some se \<Longrightarrow> unat k < v_next v"
  and server_ok_one: "server_ok v \<Longrightarrow> v_live v k = None \<or> v_closing v k = None"
  by (simp_all add: server_ok_def)

text \<open>A step that replaces one connection's session by one it has moved to.\<close>

lemma server_ok_moved:
  assumes ok: "server_ok v" and m: "moved (v_peer v) k (v_sfu v) se' s'" and h: "holder v k = Some se"
    and v': "v_sfu v' = s'" "v_peer v' = v_peer v" "v_next v' = v_next v"
      "holder v' = (holder v)(k \<mapsto> se')"
      "\<forall>k. v_live v' k = None \<or> v_closing v' k = None"
      "\<forall>k b. v_dgs v' k = Some b \<longrightarrow> rate_ok (datagram_rate (f_limits (v_sfu v))) b"
  shows "server_ok v'"
proof -
  have s': "sfu_ok (v_peer v) s'" "f_limits s' = f_limits (v_sfu v)" using m by (auto simp: moved_def ready_def)
  have own: "owned_in (f_rooms s') k' \<subseteq> owned_in (f_rooms (v_sfu v)) k'" if "k' \<noteq> k" for k'
    using m that by (simp add: moved_def)
  have "ready (v_peer v) k' se'' s'" if "k' \<noteq> k" "holder v k' = Some se''" for k' se''
    using ready_others [OF server_ok_ready [OF ok that(2)] s' own [OF that(1)]] .
  moreover have "ready (v_peer v) k se' s'" "unat k < v_next v"
    using m ok h by (auto simp: moved_def server_ok_def)
  moreover have "owned_in (f_rooms s') k' = {}" if "k' \<noteq> k" "holder v k' = None" for k'
    using ok own [OF that(1)] that by (auto simp: server_ok_def)
  ultimately show ?thesis
    using ok v' s' by (auto simp: server_ok_def)
qed

text \<open>A step that leaves the rooms, the limits and the sessions alone.\<close>

lemma server_ok_same_rooms:
  assumes ok: "server_ok v" and s': "sfu_ok (v_peer v) s'" "f_rooms s' = f_rooms (v_sfu v)"
      "f_limits s' = f_limits (v_sfu v)"
    and v': "v_sfu v' = s'" "v_peer v' = v_peer v" "v_next v' = v_next v" "holder v' = holder v"
      "\<forall>k. v_live v' k = None \<or> v_closing v' k = None"
      "\<forall>k b. v_dgs v' k = Some b \<longrightarrow> rate_ok (datagram_rate (f_limits (v_sfu v))) b"
  shows "server_ok v'"
proof -
  have "ready (v_peer v) k se s'" if "holder v k = Some se" for k se
    using ready_others [OF server_ok_ready [OF ok that] s'(1,3)] s'(2) by simp
  then show ?thesis using ok v' s' by (auto simp: server_ok_def)
qed

lemma holder_live: "v_live v k = Some se \<Longrightarrow> holder v k = Some se"
  by (simp add: holder_def hold_def)

lemma holder_closing: "v_closing v k = Some (r, se) \<Longrightarrow> server_ok v \<Longrightarrow> holder v k = Some se"
  using server_ok_one [of v k] by (auto simp: holder_def hold_def)

lemma server_ok_live:
  assumes "server_ok v" "v_live v k = Some se" "moved (v_peer v) k (v_sfu v) se' s'"
  shows "server_ok (v\<lparr>v_sfu := s', v_live := (v_live v)(k \<mapsto> se')\<rparr>)"
  using assms(1,3) holder_live [of v, OF assms(2)]
proof (rule server_ok_moved)
  show "\<forall>j. v_live (v\<lparr>v_sfu := s', v_live := (v_live v)(k \<mapsto> se')\<rparr>) j = None
      \<or> v_closing (v\<lparr>v_sfu := s', v_live := (v_live v)(k \<mapsto> se')\<rparr>) j = None"
    using server_ok_one [OF assms(1)] assms(2) by (metis fun_upd_apply option.distinct(1) server.select_convs(2,4)
      server.surjective server.update_convs(1,2))
qed (use server_ok_dgs [OF assms(1)] in \<open>auto simp: holder_def hold_upd\<close>)

lemma server_ok_connect:
  assumes ok: "server_ok v" and peer: "length (id_bytes peer) = 32" and nxt: "v_next v < 2 ^ 64"
    and k: "k = of_nat (v_next v)" and op: "open_connection peer k (v_sfu v) = (se, dg, s')"
  shows "server_ok (v\<lparr>v_sfu := s', v_live := (v_live v)(k \<mapsto> se), v_dgs := (v_dgs v)(k \<mapsto> dg),
    v_peer := (v_peer v)(k := peer), v_next := Suc (v_next v)\<rparr>)" (is "server_ok ?v")
proof -
  let ?P = "(v_peer v)(k := peer)"
  have uk: "unat k = v_next v" using nxt by (simp add: k unat_of_nat)
  have fresh: "holder v k = None"
    using server_ok_next [OF ok, of k] uk by (cases "holder v k") auto
  then have "owned_in (f_rooms (v_sfu v)) k = {}" using ok by (simp add: server_ok_def)
  note o = open_connection_keeps [OF server_ok_sfu [OF ok] this peer op]
  have h: "holder ?v = (holder v)(k \<mapsto> se)" by (simp add: holder_def hold_upd)
  have "ready ?P k' se' s' \<and> unat k' < Suc (v_next v)" if "k' \<noteq> k" "holder v k' = Some se'" for k' se'
  proof -
    have "session_ok ?P (f_limits (v_sfu v)) k' se'"
      using server_ok_ready [OF ok that(2)] that(1) by (simp add: ready_def session_ok_def)
    moreover have "unat k' < v_next v" using ok that(2) by (simp add: server_ok_def)
    ultimately show ?thesis
      using o server_ok_ready [OF ok that(2)] by (simp add: ready_def)
  qed
  moreover have "\<forall>j. v_live ?v j = None \<or> v_closing ?v j = None"
    using server_ok_one [OF ok] fresh by (auto simp: holder_def hold_def split: option.splits)
  ultimately show ?thesis
    using ok o h uk fresh by (auto simp: server_ok_def ready_def)
qed

lemma server_ok_leaving:
  assumes ok: "server_ok v" and c: "v_closing v k = Some (result, se)" "se_subscribed se = t # ts"
    and l: "leave t (rd_handle (se_readers se)) (f_rooms (v_sfu v)) (f_net (v_sfu v)) = (res, rs, n)"
  shows "server_ok (v\<lparr>v_sfu := (v_sfu v)\<lparr>f_rooms := rs, f_net := n\<rparr>,
    v_closing := (v_closing v)(k \<mapsto> (result, se\<lparr>se_subscribed := ts\<rparr>))\<rparr>)"
proof -
  have h: "holder v k = Some se" using holder_closing [OF c(1) ok] .
  note r = server_ok_ready [OF ok h]
  have "length (topic_bytes t) = 32" using ready_session [OF r] c(2) by (simp add: session_ok_def)
  note ls = leave_in_server [OF ready_sfu [OF r] ready_handle [OF r] ready_id [OF r] this l]
  have "session_ok (v_peer v) (f_limits (v_sfu v)) k (se\<lparr>se_subscribed := ts\<rparr>)"
    using ready_session [OF r] c(2) by (simp add: session_ok_def)
  then have "moved (v_peer v) k (v_sfu v) (se\<lparr>se_subscribed := ts\<rparr>) ((v_sfu v)\<lparr>f_rooms := rs, f_net := n\<rparr>)"
    using ls ready_owned [OF r] c(2) by (auto simp: moved_def ready_def)
  moreover have live: "v_live v k = None" using server_ok_one [OF ok, of k] c(1) by simp
  ultimately show ?thesis
    by (intro server_ok_moved [OF ok _ h])
      (use live server_ok_one [OF ok] server_ok_dgs [OF ok] in \<open>auto simp: holder_def hold_upd\<close>)
qed

lemma server_ok_gone:
  assumes ok: "server_ok v" and c: "v_closing v k = Some (result, se)" "se_subscribed se = []"
  shows "server_ok (v\<lparr>v_sfu := end_connection result se (v_sfu v), v_closing := (v_closing v)(k := None)\<rparr>)"
    (is "server_ok ?v")
proof -
  have hk: "holder v k = Some se" using holder_closing [OF c(1) ok] .
  note e = end_connection_keeps [OF server_ok_sfu [OF ok] c(2), of result]
  have none: "owned_in (f_rooms (v_sfu v)) k = {}"
    using ready_owned [OF server_ok_ready [OF ok hk]] c(2) by simp
  have h: "holder ?v = (holder v)(k := None)"
    using c(1) server_ok_one [OF ok, of k] by (simp add: holder_def hold_upd)
  have "ready (v_peer v) k' se' (end_connection result se (v_sfu v))" if "holder v k' = Some se'" for k' se'
    using ready_others [OF server_ok_ready [OF ok that]] e by simp
  then show ?thesis
    using ok e h none server_ok_one [OF ok] by (auto simp: server_ok_def)
qed

lemma server_ok_announcing:
  assumes ok: "server_ok v" and k: "v_live v k = Some se" "t \<in> set (se_subscribed se)" and b: "length blob \<le> MAX_ANNOUNCE_LEN"
    and a: "announce t (rd_handle (se_readers se)) blob (f_rooms (v_sfu v)) (f_net (v_sfu v)) = (res, rs, n)"
  shows "server_ok (v\<lparr>v_sfu := (v_sfu v)\<lparr>f_rooms := rs, f_net := n\<rparr>\<rparr>)"
proof -
  note r = server_ok_ready [OF ok holder_live [OF k(1)]]
  have "length (topic_bytes t) = 32" using ready_session [OF r] k(2) by (simp add: session_ok_def)
  note an = announce_in_server [OF ready_sfu [OF r] ready_handle [OF r] ready_id [OF r] this b a]
  let ?s = "(v_sfu v)\<lparr>f_rooms := rs, f_net := n\<rparr>"
  have "owned_in (f_rooms ?s) k \<subseteq> set (se_subscribed se)" using an(2) [of k] ready_owned [OF r] by auto
  then have "moved (v_peer v) k (v_sfu v) se ?s"
    using an ready_session [OF r] by (auto simp: moved_def ready_def)
  from server_ok_live [OF ok k(1) this] show ?thesis
    using k(1) by (simp add: fun_upd_idem)
qed

lemma server_step_ok:
  assumes "server_step ev v v'" "server_ok v" "env_ok ev"
  shows "server_ok v'"
  using assms(1)
proof cases
  case (session k se body tag se' s')
  then show ?thesis
    using server_ok_live [OF assms(2)] session_frame_moved [OF server_ok_ready [OF assms(2) holder_live] assms(3)]
    by blast
next
  case (lane k se body lane tag rd s')
  then show ?thesis
    using server_ok_live [OF assms(2)] lane_frame_moved [OF server_ok_ready [OF assms(2) holder_live] assms(3)]
    by blast
next
  case (bulk k se body tag code rd s')
  then show ?thesis
    using server_ok_live [OF assms(2)] bulk_frame_moved [OF server_ok_ready [OF assms(2) holder_live]]
    by blast
next
  case (lane_stat k se field)
  show ?thesis
    by (rule server_ok_same_rooms [OF assms(2), of "stat field (v_sfu v)"])
      (use lane_stat server_ok_sfu [OF assms(2)] server_ok_one [OF assms(2)] server_ok_dgs [OF assms(2)]
        in \<open>auto simp: sfu_ok_stat holder_def\<close>)
next
  case (lane_error k se n)
  show ?thesis
    by (rule server_ok_same_rooms [OF assms(2), of "close_protocol (rd_handle (se_readers se)) n (v_sfu v)"])
      (use lane_error close_protocol_keeps [OF server_ok_sfu [OF assms(2)]] server_ok_one [OF assms(2)]
        server_ok_dgs [OF assms(2)] in \<open>auto simp: holder_def\<close>)
next
  case (datagram k se b dg b' s')
  note d = datagram_turn_keeps [OF server_ok_sfu [OF assms(2)] server_ok_dgs [OF assms(2) datagram(3)] datagram(4,5)]
  show ?thesis
    by (rule server_ok_same_rooms [OF assms(2), of s'])
      (use d datagram server_ok_one [OF assms(2)] server_ok_dgs [OF assms(2)] in \<open>auto simp: holder_def\<close>)
next
  case (writer k c')
  have "net_ok (on_conn (\<lambda>_. c') k (f_net (v_sfu v)))"
    using server_ok_sfu [OF assms(2)] conn_step_ok [OF writer_step_conn_step [OF writer(2)]]
    by (auto simp: sfu_ok_def net_ok_def on_conn_def)
  then show ?thesis
    by (intro server_ok_same_rooms [OF assms(2), of "on_net (on_conn (\<lambda>_. c') k) (v_sfu v)"])
      (use writer server_ok_sfu [OF assms(2)] server_ok_one [OF assms(2)] server_ok_dgs [OF assms(2)]
        in \<open>auto simp: holder_def sfu_ok_on_net\<close>)
next
  case (token k se n ok rd s')
  have "n \<le> 2 ^ 53" using token(3) by (simp add: MAX_FRAME_LEN_value)
  then have "moved (v_peer v) k (v_sfu v) (se\<lparr>se_readers := rd\<rparr>) s'"
    using take_publish_ready [OF server_ok_ready [OF assms(2) holder_live [OF token(2)]] _ token(4)] by (simp add: moved_def)
  then show ?thesis using server_ok_live [OF assms(2) token(2)] token(1) by blast
next
  case (announcing k se t blob res rs n)
  then show ?thesis using server_ok_announcing [OF assms(2)] by blast
next
  case (publishing t payload h k lane recipient)
  have "length (topic_bytes t) = 32" "len_ok (deliver_new (topic_bytes t) payload)"
    using publishing(2,3) by (simp_all add: wf_topic_def deliver_small)
  note p = publish_send_keeps [OF server_ok_sfu [OF assms(2)] this, of lane recipient h]
  show ?thesis
    by (rule server_ok_same_rooms [OF assms(2) p [THEN conjunct1]])
      (use publishing p server_ok_one [OF assms(2)] server_ok_dgs [OF assms(2)] in \<open>auto simp: holder_def\<close>)
next
  case (sending dg k)
  note p = send_datagram_keeps [OF server_ok_sfu [OF assms(2)], of ev dg k]
  show ?thesis
    by (rule server_ok_same_rooms [OF assms(2) p [THEN conjunct1]])
      (use sending p server_ok_one [OF assms(2)] server_ok_dgs [OF assms(2)] in \<open>auto simp: holder_def\<close>)
next
  case (connect peer k se dg s')
  then show ?thesis using server_ok_connect [OF assms(2)] unfolding wf_id_def by blast
next
  case (ended k se result)
  have "v_closing v k = None" using server_ok_one [OF assms(2), of k] ended(2) by simp
  then have h: "holder v' = holder v"
    using hold_upd(3) [of "v_live v" k se "v_closing v" result] ended by (simp add: holder_def)
  show ?thesis
    by (rule server_ok_same_rooms [OF assms(2), of "v_sfu v"])
      (use ended h server_ok_sfu [OF assms(2)] server_ok_one [OF assms(2)] server_ok_dgs [OF assms(2)]
        in \<open>auto split: if_splits\<close>)
next
  case (leaving k result se t ts res rs n)
  then show ?thesis using server_ok_leaving [OF assms(2)] by blast
next
  case (gone k result se)
  then show ?thesis using server_ok_gone [OF assms(2)] by blast
qed

lemma server_new_ok:
  assumes "limits_ok l"
  shows "server_ok (server_new l clock peers)"
proof -
  have "conn_ok (conn_new l)" using assms by (simp add: limits_ok_def conn_new_ok)
  then have "sfu_ok peers (v_sfu (server_new l clock peers))"
    using assms by (simp add: server_new_def sfu_ok_def net_ok_def rooms_new_ok) (simp add: rooms_new_def)
  moreover have "owned_in (rooms_new l) k = {}" for k by (simp add: owned_in_def presence_new)
  ultimately show ?thesis
    by (simp add: server_ok_def server_new_def holder_def hold_def)
qed

lemma server_reach_ok:
  assumes "server_reach ev (server_new l clock peers) v" "limits_ok l" "env_ok ev"
  shows "server_ok v"
  using assms(1) by (induction rule: rtranclp_induct) (auto simp: server_new_ok assms(2) intro: server_step_ok assms(3))

lemma open_connection_limits:
  "open_connection peer k s = (se, dg, s') \<Longrightarrow> f_limits s' = f_limits s"
  by (auto simp: open_connection_def Let_def instant_now_def)

text \<open>The limits never change.\<close>

lemma server_step_limits:
  assumes "server_step ev v v'" "server_ok v" "env_ok ev"
  shows "f_limits (v_sfu v') = f_limits (v_sfu v)"
  using assms(1)
proof cases
  case (session k se body tag se' s')
  then show ?thesis
    using session_frame_moved [OF server_ok_ready [OF assms(2) holder_live] assms(3)] by (fastforce simp: moved_def)
next
  case (lane k se body lane tag rd s')
  then show ?thesis
    using lane_frame_moved [OF server_ok_ready [OF assms(2) holder_live] assms(3)] by (fastforce simp: moved_def)
next
  case (bulk k se body tag code rd s')
  then show ?thesis
    using bulk_frame_moved [OF server_ok_ready [OF assms(2) holder_live]] by (fastforce simp: moved_def)
next
  case (lane_error k se n)
  then show ?thesis using close_protocol_keeps [OF server_ok_sfu [OF assms(2)]] by simp
next
  case (datagram k se b dg b' s')
  then show ?thesis
    using datagram_turn_keeps [OF server_ok_sfu [OF assms(2)] server_ok_dgs [OF assms(2)]] by fastforce
next
  case (gone k result se)
  then show ?thesis using end_connection_keeps [OF server_ok_sfu [OF assms(2)]] by simp
next
  case (publishing t payload h k lane recipient)
  have "length (topic_bytes t) = 32" "len_ok (deliver_new (topic_bytes t) payload)"
    using publishing(2,3) by (simp_all add: wf_topic_def deliver_small)
  then show ?thesis using publish_send_keeps [OF server_ok_sfu [OF assms(2)]] publishing(1) by simp
next
  case (sending dg k)
  then show ?thesis using send_datagram_keeps [OF server_ok_sfu [OF assms(2)]] by simp
next
  case (token k se n ok rd s')
  then show ?thesis by (auto simp: take_publish_def instant_now_def split: prod.splits)
qed (use open_connection_limits in auto)

lemma server_reach_limits:
  assumes "server_reach ev (server_new l clock peers) v" "limits_ok l" "env_ok ev"
  shows "f_limits (v_sfu v) = l"
  using assms(1)
proof (induction rule: rtranclp_induct)
  case base
  show ?case by (simp add: server_new_def)
next
  case (step v v')
  then show ?case using server_step_limits server_reach_ok assms(2,3) by metis
qed

lemma server_reach_caps:
  assumes "server_reach ev (server_new l clock peers) v" "limits_ok l" "env_ok ev"
  shows "card (dom (presence (f_rooms (v_sfu v)) t)) \<le> max (max_members_per_topic l) 1
    \<and> (\<forall>i c b. presence (f_rooms (v_sfu v)) t i = Some (c, b) \<longrightarrow> length b \<le> MAX_ANNOUNCE_LEN)
    \<and> (\<forall>se. holder v k = Some se \<longrightarrow> distinct (se_subscribed se)
        \<and> length (se_subscribed se) \<le> max_topics_per_connection l)
    \<and> conn_ok (n_conns (f_net (v_sfu v)) k)"
proof (intro conjI allI impI)
  have ok: "server_ok v" using server_reach_ok [OF assms] .
  have l: "f_limits (v_sfu v) = l" using server_reach_limits [OF assms] .
  have rok: "rooms_ok (v_peer v) (f_rooms (v_sfu v))"
    and cap: "r_max_members (f_rooms (v_sfu v)) = max (max_members_per_topic l) 1"
    using server_ok_sfu [OF ok] l by (auto simp: sfu_ok_def)
  have "length (room_of (f_rooms (v_sfu v)) t) \<le> max (max_members_per_topic l) 1"
    using room_of_ok [OF rok, of t] cap by (auto simp: room_ok_def)
  then show "card (dom (presence (f_rooms (v_sfu v)) t)) \<le> max (max_members_per_topic l) 1"
    using card_view [OF room_of_wf [OF rok]] by (simp add: presence_def)
  show "length b \<le> MAX_ANNOUNCE_LEN" if "presence (f_rooms (v_sfu v)) t i = Some (c, b)" for i c b
    using presence_owner [OF rok that] by simp
  show "distinct (se_subscribed se)" "length (se_subscribed se) \<le> max_topics_per_connection l"
    if "holder v k = Some se" for se
    using ready_session [OF server_ok_ready [OF ok that]] l by (simp_all add: session_ok_def)
  show "conn_ok (n_conns (f_net (v_sfu v)) k)"
    using server_ok_sfu [OF ok] by (simp add: sfu_ok_def net_ok_def)
qed

section \<open>Properties\<close>

text \<open>C1: no member outlives its connection. In every reachable state, under any interleaving, each
  slot of each room is held by a connection of that endpoint which has not finished and which lists
  the topic among its subscriptions; the reserved zero topic has no members.\<close>

theorem server_no_ghosts:
  assumes "server_reach ev (server_new l clock peers) v" "limits_ok l" "env_ok ev"
    and "presence (f_rooms (v_sfu v)) t i = Some (k, b)"
  shows "\<exists>se. holder v k = Some se \<and> t \<in> set (se_subscribed se) \<and> v_peer v k = i \<and> \<not> is_zero t"
proof -
  have ok: "server_ok v" using server_reach_ok [OF assms(1-3)] .
  have own: "t \<in> owned_in (f_rooms (v_sfu v)) k" using assms(4) by (auto simp: owned_in_def)
  then obtain se where h: "holder v k = Some se" using ok by (cases "holder v k") (auto simp: server_ok_def)
  note r = server_ok_ready [OF ok h]
  have "t \<in> set (se_subscribed se)" using ready_owned [OF r] own by blast
  moreover have "v_peer v k = i"
    using presence_owner [OF _ assms(4)] server_ok_sfu [OF ok] by (auto simp: sfu_ok_def)
  ultimately show ?thesis
    using h ready_session [OF r] by (auto simp: session_ok_def)
qed

text \<open>C2: the caps hold in every reachable state: no room exceeds the member cap, no connection the
  topic cap, every blob the announce limit, and every connection's queues are within their budgets
  and accounted for byte by byte.\<close>

theorem server_caps:
  assumes "server_reach ev (server_new l clock peers) v" "limits_ok l" "env_ok ev"
  shows "card (dom (presence (f_rooms (v_sfu v)) t)) \<le> max (max_members_per_topic l) 1
    \<and> (\<forall>i c b. presence (f_rooms (v_sfu v)) t i = Some (c, b) \<longrightarrow> length b \<le> MAX_ANNOUNCE_LEN)
    \<and> (\<forall>se. holder v k = Some se \<longrightarrow> distinct (se_subscribed se)
        \<and> length (se_subscribed se) \<le> max_topics_per_connection l)
    \<and> conn_ok (n_conns (f_net (v_sfu v)) k)"
  by (rule server_reach_caps [OF assms])

text \<open>A run: one client connects and subscribes.\<close>

definition start_state :: server where
  "start_state = server_new limits_default (\<lambda>_. 0) (\<lambda>_. peer_of 0)"

definition sample_session :: session where
  "sample_session = \<lparr>se_readers = \<lparr>rd_handle = handle_of 1, rd_rate = bucket_new default_publish_rate 0\<rparr>,
     se_subscribed = [], se_join = bucket_new default_join_rate 0\<rparr>"

lemma limits_default_ok: "limits_ok limits_default"
  by (simp add: limits_ok_def limits_default_def MIB_def MAX_MEMBERS_PER_TOPIC_def wf_rate_def
      default_publish_rate_def default_join_rate_def default_datagram_rate_def rate_frames_def
      f64_of_nat_exact MAX_TOPICS_PER_CONNECTION_def)

lemma sample_env_ok: "env_ok sample_env"
  by (simp add: env_ok_def sample_env_def)

lemma connected_run:
  "\<exists>v. server_reach sample_env start_state v \<and> v_live v 1 = Some sample_session \<and> f_rooms (v_sfu v) = rooms_new limits_default
     \<and> f_limits (v_sfu v) = limits_default \<and> f_clock (v_sfu v) = (\<lambda>_. 0)
     \<and> n_conns (f_net (v_sfu v)) 1 = conn_new limits_default"
proof -
  have lims: "publish_rate limits_default = default_publish_rate" "join_rate limits_default = default_join_rate"
    by (simp_all add: limits_default_def)
  obtain se dg s' where op: "open_connection (peer_of 1) 1 (v_sfu start_state) = (se, dg, s')"
    by (metis prod_cases3)
  have se: "se = sample_session" "f_rooms s' = rooms_new limits_default" "f_limits s' = limits_default"
    "f_clock s' = (\<lambda>_. 0)" "n_conns (f_net s') 1 = conn_new limits_default"
    using op by (auto simp: open_connection_def Let_def instant_now_def on_net_def start_state_def server_new_def
        sample_session_def handle_of_def lims)
  have "server_step sample_env start_state (start_state\<lparr>v_sfu := s', v_live := (v_live start_state)(1 \<mapsto> se),
      v_dgs := (v_dgs start_state)(1 \<mapsto> dg), v_peer := (v_peer start_state)(1 := peer_of 1),
      v_next := Suc (v_next start_state)\<rparr>)"
    by (rule server_step.connect [OF _ _ _ op]) (simp_all add: start_state_def server_new_def peer_of_def wf_id_def sample_env_def)
  then have "server_reach sample_env start_state (start_state\<lparr>v_sfu := s', v_live := (v_live start_state)(1 \<mapsto> se),
      v_dgs := (v_dgs start_state)(1 \<mapsto> dg), v_peer := (v_peer start_state)(1 := peer_of 1),
      v_next := Suc (v_next start_state)\<rparr>)" by (rule r_into_rtranclp)
  then show ?thesis using se by (intro exI conjI) auto
qed

lemma join_token: "fst (try_take 0 0 (bucket_new default_join_rate 0))"
  by (rule new_bucket_passes [of _ 600 50])
    (simp_all add: default_join_rate_def rate_frames_def f64_of_nat_exact MAX_TOPICS_PER_CONNECTION_def)

lemma subscribed_run:
  "\<exists>v. server_reach sample_env start_state v
     \<and> presence (f_rooms (v_sfu v)) sample_topic (peer_of 1) = Some (1, [])"
proof -
  obtain v where v: "server_reach sample_env start_state v" "v_live v 1 = Some sample_session"
    "f_rooms (v_sfu v) = rooms_new limits_default" "f_limits (v_sfu v) = limits_default" "f_clock (v_sfu v) = (\<lambda>_. 0)"
    using connected_run by blast
  obtain ok b where tk: "try_take 0 0 (bucket_new default_join_rate 0) = (ok, b)" by fastforce
  have tr: ok using join_token tk by simp
  let ?s = "v_sfu v" and ?j = "join sample_topic (handle_of 1) (rooms_new limits_default) (f_net (v_sfu v))"
  have cap: "card (dom (presence (rooms_new limits_default) sample_topic)) < r_max_members (rooms_new limits_default)"
  proof -
    have "r_max_members (rooms_new limits_default) = 1024"
      by (simp add: rooms_new_def limits_default_def MAX_MEMBERS_PER_TOPIC_def)
    then show ?thesis by (simp add: presence_new)
  qed
  note jr = join_with_room [OF rooms_new_ok [of peer_of] _ cap, of "handle_of 1" "f_net (v_sfu v)"]
  have "client_decode (ev_valid_key sample_env) SUBSCRIBE (topic_bytes sample_topic) = Inr (Subscribe sample_topic)"
    by (simp add: client_decode_def take_topic_def sample_topic_def ensure_def)
  moreover have "\<not> is_zero sample_topic" by (simp add: is_zero_def ZERO_def sample_topic_def)
  ultimately have "fst (snd ?j) = f_rooms (snd (session_frame sample_env SUBSCRIBE (topic_bytes sample_topic) sample_session ?s))"
    using v tk tr
    by (auto simp: session_frame_def handle_frame_def Let_def instant_now_def sample_session_def limits_default_def
        MAX_TOPICS_PER_CONNECTION_def send_error_def split: prod.splits option.splits)
  moreover have "presence (fst (snd ?j)) sample_topic (peer_of 1) = Some (1, [])" using jr by simp
  moreover have "server_step sample_env v (v\<lparr>v_sfu := snd (session_frame sample_env SUBSCRIBE (topic_bytes sample_topic) sample_session ?s),
      v_live := (v_live v)(1 \<mapsto> fst (session_frame sample_env SUBSCRIBE (topic_bytes sample_topic) sample_session ?s))\<rparr>)"
    by (rule server_step.session [OF v(2), where body = "topic_bytes sample_topic" and tag = SUBSCRIBE])
      (simp_all add: sample_topic_def MAX_FRAME_LEN_value)
  ultimately show ?thesis
    using v(1) rtranclp.rtrancl_into_rtrancl by (intro exI conjI) (assumption, simp_all)
qed

theorem server_no_ghosts_witness:
  "\<exists>v se. holder v 1 = Some se \<and> sample_topic \<in> set (se_subscribed se)
     \<and> presence (f_rooms (v_sfu v)) sample_topic (peer_of 1) = Some (1, [])"
proof -
  obtain v where v: "server_reach sample_env start_state v"
    "presence (f_rooms (v_sfu v)) sample_topic (peer_of 1) = Some (1, [])" using subscribed_run by blast
  from server_no_ghosts [OF v(1) [unfolded start_state_def] limits_default_ok sample_env_ok v(2)] v(2)
  show ?thesis by blast
qed

theorem server_caps_witness:
  "card (dom (presence (f_rooms (v_sfu start_state)) sample_topic)) \<le> 1024 \<and> conn_ok (n_conns (f_net (v_sfu start_state)) 3)"
  using server_caps [OF _ limits_default_ok sample_env_ok, of "\<lambda>_. 0" "\<lambda>_. peer_of 0" start_state sample_topic 3]
  by (simp add: start_state_def limits_default_def MAX_MEMBERS_PER_TOPIC_def)

end
