(* ===== verification/Writers.thy ===== *)
theory Writers
  imports Outbound
begin

text \<open>
  The tasks that write one connection's streams, from \<open>src/src/server.rs\<close>: \<open>write_chunks\<close>,
  \<open>session_writer\<close>, \<open>lane_writer\<close>, \<open>open_lane\<close>, \<open>stalled\<close>, \<open>bulk_dispatcher\<close> and \<open>send_bulk\<close>.

  The QUIC stream is not part of the repository. Its answers are arguments: the outcome of each
  awaited write under its timeout (so many bytes taken, an error, or no progress in time), of
  opening a stream, of waiting for the acknowledgement, and whether the connection has a close
  reason. What a stream was made to carry is the record \<open>send_stream\<close>. A script of outcomes that
  ends in the middle of a write is a task that is still waiting.

  The runs interleave a writer with everything else that may happen to the connection's queues;
  they carry a record of the items the queue accepted, so that what is on the wire can be compared
  with it.
\<close>

section \<open>Streams and writes\<close>

record send_stream =
  ss_written :: bytes
  ss_priority :: int
  ss_finished :: bool
  ss_reset :: "stream_error option"

definition stream_new :: send_stream where
  "stream_new = \<lparr>ss_written = [], ss_priority = 0, ss_finished = False, ss_reset = None\<rparr>"

definition ss_put :: "bytes \<Rightarrow> send_stream \<Rightarrow> send_stream" where
  "ss_put bs s = s\<lparr>ss_written := ss_written s @ bs\<rparr>"

definition ss_finish :: "send_stream \<Rightarrow> send_stream" where
  "ss_finish s = s\<lparr>ss_finished := True\<rparr>"

definition ss_abort :: "stream_error \<Rightarrow> send_stream \<Rightarrow> send_stream" where
  "ss_abort e s = s\<lparr>ss_reset := Some e\<rparr>"

datatype write_failure = WriteClosed | WriteStalled

datatype write_outcome = Wrote nat | WriteError | WriteTimeout

datatype open_outcome = Opened | OpenError | OpenTimeout

text \<open>A write of several chunks that took \<open>n\<close> bytes leaves each chunk without the bytes taken.\<close>

fun advance :: "nat \<Rightarrow> bytes list \<Rightarrow> bytes list" where
  "advance n [] = []"
| "advance n (c # cs) = drop n c # advance (n - length c) cs"

definition skip_empty :: "bytes list \<Rightarrow> bytes list" where
  "skip_empty cs = dropWhile (\<lambda>c. c = []) cs"

fun write_chunks :: "write_outcome list \<Rightarrow> bytes list \<Rightarrow> send_stream
    \<Rightarrow> (write_failure + unit) option \<times> send_stream" where
  "write_chunks os chunks s =
     (let rest = skip_empty chunks
      in if rest = [] then (Some (Inr ()), s)
         else case os of
                [] \<Rightarrow> (None, s)
              | Wrote n # os' \<Rightarrow> write_chunks os' (advance n rest) (ss_put (take n (concat rest)) s)
              | WriteError # _ \<Rightarrow> (Some (Inl WriteClosed), s)
              | WriteTimeout # _ \<Rightarrow> (Some (Inl WriteStalled), s))"

declare write_chunks.simps [simp del]

lemma concat_advance: "concat (advance n cs) = drop n (concat cs)"
  by (induction cs arbitrary: n) auto

lemma concat_skip_empty: "concat (skip_empty cs) = concat cs"
  by (induction cs) (auto simp: skip_empty_def)

lemma skip_empty_Nil: "skip_empty cs = [] \<longleftrightarrow> concat cs = []"
  by (simp add: skip_empty_def dropWhile_eq_Nil_conv)

text \<open>The loop, pass by pass.\<close>

lemma write_chunks_done: "concat chunks = [] \<Longrightarrow> write_chunks os chunks s = (Some (Inr ()), s)"
  by (simp add: write_chunks.simps [of os] skip_empty_Nil [THEN iffD2] del: concat_eq_Nil_conv)

lemma write_chunks_pass:
  assumes "concat chunks \<noteq> []"
  shows "write_chunks [] chunks s = (None, s)"
    and "write_chunks (Wrote n # os) chunks s =
      write_chunks os (advance n (skip_empty chunks)) (ss_put (take n (concat chunks)) s)"
    and "write_chunks (WriteError # os) chunks s = (Some (Inl WriteClosed), s)"
    and "write_chunks (WriteTimeout # os) chunks s = (Some (Inl WriteStalled), s)"
  using assms
  by (simp_all add: write_chunks.simps [of "[]"] write_chunks.simps [of "x # xs" for x xs] Let_def
      skip_empty_Nil concat_skip_empty del: concat_eq_Nil_conv)

lemma ss_put_put [simp]: "ss_put ys (ss_put xs s) = ss_put (xs @ ys) s"
  and ss_put_Nil [simp]: "ss_put [] s = s"
  and ss_written_put [simp]: "ss_written (ss_put xs s) = ss_written s @ xs"
  by (simp_all add: ss_put_def)

text \<open>Whatever the stream answers, what was written is a prefix of the chunks, and a write that
  returns \<open>Ok\<close> has written all of them.\<close>

lemma write_chunks_prefix:
  assumes "write_chunks os chunks s = (r, s')"
  obtains p where "prefix p (concat chunks)" "s' = ss_put p s" "r = Some (Inr ()) \<longrightarrow> p = concat chunks"
proof -
  have "\<exists>p. prefix p (concat chunks) \<and> s' = ss_put p s \<and> (r = Some (Inr ()) \<longrightarrow> p = concat chunks)"
    using assms
  proof (induction os arbitrary: chunks s)
    case Nil
    then show ?case
      by (cases "concat chunks = []")
        (auto simp: write_chunks_done write_chunks_pass simp del: concat_eq_Nil_conv intro!: exI [of _ "[]"])
  next
    case (Cons out os)
    consider "concat chunks = []" | n where "concat chunks \<noteq> []" "out = Wrote n"
      | "concat chunks \<noteq> []" "\<forall>n. out \<noteq> Wrote n" by blast
    then show ?case
    proof cases
      case 2
      with Cons obtain p where p: "prefix p (drop n (concat chunks))" "s' = ss_put (take n (concat chunks) @ p) s"
        "r = Some (Inr ()) \<longrightarrow> p = drop n (concat chunks)"
        by (metis concat_advance concat_skip_empty ss_put_put write_chunks_pass(2))
      moreover have "prefix (take n (concat chunks) @ p) (concat chunks)"
        using p(1) by (metis append_take_drop_id same_prefix_prefix)
      ultimately show ?thesis by (intro exI [of _ "take n (concat chunks) @ p"]) simp
    qed (use Cons.prems in \<open>cases out; fastforce simp: write_chunks_done write_chunks_pass simp del: concat_eq_Nil_conv intro!: exI [of _ "[]"]\<close>)+
  qed
  then show thesis using that by blast
qed

lemma write_chunks_Ok:
  "write_chunks os chunks s = (Some (Inr ()), s') \<Longrightarrow> s' = ss_put (concat chunks) s"
  by (metis write_chunks_prefix)

text \<open>Progress: a stream that keeps taking at least one byte per write takes everything.\<close>

lemma write_chunks_progress:
  assumes "length (concat chunks) \<le> length os" "\<forall>out \<in> set os. \<exists>n. out = Wrote (Suc n)"
  shows "write_chunks os chunks s = (Some (Inr ()), ss_put (concat chunks) s)"
  using assms
proof (induction os arbitrary: chunks s)
  case Nil
  then show ?case by (simp add: write_chunks_done del: concat_eq_Nil_conv)
next
  case (Cons out os)
  from Cons.prems(2) obtain n where n: "out = Wrote (Suc n)" by auto
  show ?case
  proof (cases "concat chunks = []")
    case False
    have "length (concat (advance (Suc n) (skip_empty chunks))) \<le> length os"
      using Cons.prems(1) by (simp add: concat_advance concat_skip_empty)
    from Cons.IH [OF this] Cons.prems(2) show ?thesis
      by (simp add: write_chunks_pass [OF False] n concat_advance concat_skip_empty)
  qed (simp add: write_chunks_done del: concat_eq_Nil_conv)
qed

section \<open>The session writer\<close>

text \<open>What the loops of the writers do after a pass: go on, or return.\<close>

datatype flow = Continue | Return

definition stalled :: "u64 \<Rightarrow> net \<Rightarrow> net" where
  "stalled k n = on_conn (conn_close CloseStalled (ascii ''stalled'')) k
     (n\<lparr>n_stats := bump st_stalled_update (n_stats n)\<rparr>)"

definition item_chunks :: "limits \<Rightarrow> session_item \<Rightarrow> bytes list" where
  "item_chunks limits item =
     (case item of
        FrameItem frame \<Rightarrow> [frame]
      | SnapshotItem topic members \<Rightarrow>
          encode_snapshot topic members (snapshot_chunk_entries limits) (snapshot_chunk_bytes limits))"

text \<open>One pass of the loop, after \<open>recv\<close>: write the item, release its bytes, and look at how the
  write went.\<close>

definition session_writer_pass :: "limits \<Rightarrow> write_outcome list \<Rightarrow> u64 \<Rightarrow> session_item queued
    \<Rightarrow> send_stream \<Rightarrow> net \<Rightarrow> flow option \<times> send_stream \<times> net" where
  "session_writer_pass limits os k q send n =
     (case write_chunks os (item_chunks limits (q_item q)) send of
        (None, send1) \<Rightarrow> (None, send1, n)
      | (Some written, send1) \<Rightarrow>
          let n1 = on_conn (writer_release (q_size q)) k n
          in (case written of
                Inr _ \<Rightarrow> (Some Continue, send1, n1)
              | Inl WriteClosed \<Rightarrow> (Some Return, send1, n1)
              | Inl WriteStalled \<Rightarrow> (Some Return, send1, stalled k n1)))"

text \<open>The task: waiting in \<open>recv\<close>, in a pass, or ended (by the end of the queue, or by a failure).\<close>

datatype 'a task = Waiting | Writing "'a queued" | Ended

record session_run =
  sr_net :: net
  sr_send :: send_stream
  sr_task :: "session_item task"
  sr_log :: "session_item list"

text \<open>Steps of the session writer of connection \<open>k\<close> and of everything around it. \<open>sr_log\<close> is what
  the session queue accepted, in order. \<open>recv\<close> returns \<open>None\<close> once the queue is empty and every
  sender is gone; a writer that returns drops its receiver.\<close>

definition session_accepted :: "conn \<Rightarrow> conn \<Rightarrow> session_item list" where
  "session_accepted c c' = map q_item (drop (length (ch_items (c_session c))) (ch_items (c_session c')))"

definition session_run_new :: "limits \<Rightarrow> net \<Rightarrow> u64 \<Rightarrow> session_run" where
  "session_run_new limits n k =
     \<lparr>sr_net = on_conn (\<lambda>_. conn_new limits) k n, sr_send = stream_new, sr_task = Waiting, sr_log = []\<rparr>"

inductive session_step :: "limits \<Rightarrow> u64 \<Rightarrow> session_run \<Rightarrow> session_run \<Rightarrow> bool" for limits k where
  push: "size_ok m \<Longrightarrow> n' = on_conn (push_session item m) k (sr_net r)
    \<Longrightarrow> session_step limits k r (r\<lparr>sr_net := n',
          sr_log := sr_log r @ session_accepted (n_conns (sr_net r) k) (n_conns n' k)\<rparr>)"
| other: "conn_step (n_conns (sr_net r) k) c' \<Longrightarrow> c_session c' = c_session (n_conns (sr_net r) k)
    \<Longrightarrow> (\<forall>q. sr_task r = Writing q \<longrightarrow> q_size q \<in> set (c_hand c'))
    \<Longrightarrow> session_step limits k r (r\<lparr>sr_net := on_conn (\<lambda>_. c') k (sr_net r)\<rparr>)"
| elsewhere: "n_conns n' k = n_conns (sr_net r) k \<Longrightarrow> session_step limits k r (r\<lparr>sr_net := n'\<rparr>)"
| recv: "sr_task r = Waiting \<Longrightarrow> session_recv (n_conns (sr_net r) k) = Some (q, c')
    \<Longrightarrow> session_step limits k r (r\<lparr>sr_net := on_conn (\<lambda>_. c') k (sr_net r), sr_task := Writing q\<rparr>)"
| written: "sr_task r = Writing q
    \<Longrightarrow> session_writer_pass limits os k q (sr_send r) (sr_net r) = (Some Continue, send', n')
    \<Longrightarrow> session_step limits k r (r\<lparr>sr_net := n', sr_send := send', sr_task := Waiting\<rparr>)"
| failed: "sr_task r = Writing q
    \<Longrightarrow> session_writer_pass limits os k q (sr_send r) (sr_net r) = (Some Return, send', n')
    \<Longrightarrow> session_step limits k r (r\<lparr>sr_net := on_conn session_rx_drop k n', sr_send := send', sr_task := Ended\<rparr>)"
| finish: "sr_task r = Waiting \<Longrightarrow> ch_items (c_session (n_conns (sr_net r) k)) = []
    \<Longrightarrow> session_step limits k r (r\<lparr>sr_net := on_conn session_rx_drop k (sr_net r),
          sr_send := ss_finish (sr_send r), sr_task := Ended\<rparr>)"

abbreviation item_bytes :: "limits \<Rightarrow> session_item \<Rightarrow> bytes" where
  "item_bytes limits item \<equiv> concat (item_chunks limits item)"

abbreviation log_bytes :: "limits \<Rightarrow> session_item list \<Rightarrow> bytes" where
  "log_bytes limits items \<equiv> concat (map (item_bytes limits) items)"

definition session_inv :: "limits \<Rightarrow> conn \<Rightarrow> send_stream \<Rightarrow> session_item task \<Rightarrow> session_item list \<Rightarrow> bool" where
  "session_inv l c send task acc \<longleftrightarrow> conn_ok c \<and>
     (case task of
        Waiting \<Rightarrow> \<not> ss_finished send \<and>
          (\<exists>sent. acc = sent @ map q_item (ch_items (c_session c)) \<and> ss_written send = log_bytes l sent)
      | Writing q \<Rightarrow> \<not> ss_finished send \<and> q_size q \<in> set (c_hand c) \<and>
          (\<exists>sent. acc = sent @ q_item q # map q_item (ch_items (c_session c)) \<and> ss_written send = log_bytes l sent)
      | Ended \<Rightarrow> \<not> ch_rx (c_session c) \<and> prefix (ss_written send) (log_bytes l acc)
          \<and> (ss_finished send \<longrightarrow> ss_written send = log_bytes l acc))"

lemma on_conn_same [simp]: "n_conns (on_conn f k n) k = f (n_conns n k)"
  by (simp add: on_conn_def)

lemma push_session_log:
  assumes "conn_ok c" "size_ok m" "c' = push_session item m c"
  shows "map q_item (ch_items (c_session c')) = map q_item (ch_items (c_session c)) @ session_accepted c c'"
    and "ch_rx (c_session c') = ch_rx (c_session c)" "c_hand c' = c_hand c"
    and "\<not> ch_rx (c_session c) \<Longrightarrow> session_accepted c c' = []"
  using assms(1,2)
  by (cases rule: push_session_cases [where item = item]; simp add: assms(3) session_accepted_def)+

text \<open>A pass writes the whole item or a prefix of it, and does to its connection what the step
  relation of the queues allows.\<close>

lemma session_writer_pass_cases:
  assumes "session_writer_pass l os k q send n = (Some fl, send', n')"
  obtains (ok) "fl = Continue" "send' = ss_put (item_bytes l (q_item q)) send"
      "n_conns n' k = writer_release (q_size q) (n_conns n k)"
  | (fail) p where "fl = Return" "prefix p (item_bytes l (q_item q))" "send' = ss_put p send"
      "n_conns n' k = writer_release (q_size q) (n_conns n k)
         \<or> n_conns n' k = conn_close CloseStalled (ascii ''stalled'') (writer_release (q_size q) (n_conns n k))"
proof -
  obtain r where w: "write_chunks os (item_chunks l (q_item q)) send = (Some r, send')"
    using assms by (auto simp: session_writer_pass_def Let_def split: prod.splits option.splits sum.splits
        write_failure.splits unit.splits)
  from write_chunks_prefix [OF w] obtain p where p: "prefix p (item_bytes l (q_item q))" "send' = ss_put p send"
    "Some r = Some (Inr ()) \<longrightarrow> p = item_bytes l (q_item q)" .
  show thesis
  proof (cases r)
    case (Inr u)
    then show thesis
      using assms w p ok by (auto simp: session_writer_pass_def)
  next
    case (Inl f)
    then show thesis
      using assms w p fail
      by (cases f) (auto simp: session_writer_pass_def stalled_def Let_def on_conn_def)
  qed
qed

lemma rx_drop_ok: "conn_ok c \<Longrightarrow> conn_ok (session_rx_drop c)"
  and lane_rx_drop_ok: "conn_ok c \<Longrightarrow> lane \<noteq> Bulk \<Longrightarrow> conn_ok (lane_rx_drop lane c)"
  and stalled_close_ok: "conn_ok c \<Longrightarrow> conn_ok (conn_close CloseStalled msg c)"
  by (auto intro: conn_step_ok conn_step.intros)

lemma session_step_inv:
  assumes "session_step l k r r'"
    and "session_inv l (n_conns (sr_net r) k) (sr_send r) (sr_task r) (sr_log r)"
  shows "session_inv l (n_conns (sr_net r') k) (sr_send r') (sr_task r') (sr_log r')"
  using assms
proof cases
  case (push m n' item)
  let ?c = "n_conns (sr_net r) k"
  have ok: "conn_ok ?c" using assms(2) by (simp add: session_inv_def)
  have c': "n_conns n' k = push_session item m ?c" by (simp add: push)
  note lg = push_session_log [OF ok push(2) c']
  have "conn_ok (n_conns n' k)" unfolding c' using conn_step_ok [OF conn_step.push_session ok] push(2) .
  then show ?thesis using assms(2) lg push(1) by (auto simp: session_inv_def split: task.splits)
next
  case (other c')
  then show ?thesis
    using assms(2) conn_step_ok by (auto simp: session_inv_def split: task.splits)
next
  case (elsewhere n')
  then show ?thesis using assms(2) by simp
next
  case (recv q c')
  let ?c = "n_conns (sr_net r) k"
  obtain qs where qs: "ch_items (c_session ?c) = q # qs" "ch_items (c_session c') = qs" "c_hand c' = c_hand ?c @ [q_size q]"
    using recv(3) by (auto simp: session_recv_def split: list.splits)
  have "conn_ok c'" using assms(2) conn_step_ok [OF conn_step.session_recv [OF recv(3)]] by (simp add: session_inv_def)
  then show ?thesis using assms(2) recv qs by (auto simp: session_inv_def)
next
  case (written q os send' n')
  let ?c = "n_conns (sr_net r) k"
  have "conn_ok (writer_release (q_size q) ?c)"
    using assms(2) written(2) writer_release_ok by (simp add: session_inv_def)
  moreover have "c_session (writer_release (q_size q) ?c) = c_session ?c"
    by (simp add: writer_release_def conn_release_def)
  ultimately show ?thesis
    using assms(2) written
    by (auto elim!: session_writer_pass_cases simp: session_inv_def ss_put_def intro!: exI [of _ "_ @ [q_item q]"])
next
  case (failed q os send' n')
  let ?c = "n_conns (sr_net r) k"
  have "conn_ok (writer_release (q_size q) ?c)"
    using assms(2) failed(2) writer_release_ok by (simp add: session_inv_def)
  then have "conn_ok (session_rx_drop (n_conns n' k))"
    using failed(3) by (auto elim!: session_writer_pass_cases intro!: rx_drop_ok stalled_close_ok)
  then show ?thesis
    using assms(2) failed
    by (auto elim!: session_writer_pass_cases simp: session_inv_def ss_put_def session_rx_drop_def prefix_append
        intro: prefix_prefix)
next
  case finish
  have "conn_ok (session_rx_drop (n_conns (sr_net r) k))"
    using assms(2) rx_drop_ok by (simp add: session_inv_def)
  then show ?thesis using assms(2) finish by (auto simp: session_inv_def session_rx_drop_def ss_finish_def)
qed

lemma session_reach_inv:
  assumes "(session_step l k)\<^sup>*\<^sup>* (session_run_new l n k) r" "outbox_bytes l < 2 ^ 63" "bulk_outbox_bytes l < 2 ^ 63"
  shows "session_inv l (n_conns (sr_net r) k) (sr_send r) (sr_task r) (sr_log r)"
  using assms(1)
proof (induction rule: rtranclp_induct)
  case base
  show ?case
    using conn_new_ok [OF assms(2,3)]
    by (simp add: session_run_new_def session_inv_def stream_new_def conn_new_def chan_new_def)
qed (rule session_step_inv)

section \<open>The lane writers\<close>

definition open_lane :: "open_outcome \<Rightarrow> lane \<Rightarrow> write_failure + send_stream" where
  "open_lane oo lane =
     (case oo of
        Opened \<Rightarrow> Inr (stream_new\<lparr>ss_priority := lane_priority lane\<rparr>)
      | OpenError \<Rightarrow> Inl WriteClosed
      | OpenTimeout \<Rightarrow> Inl WriteStalled)"

text \<open>The write of one delivery, on the lane's stream or on a new one that starts with the lane byte.\<close>

definition lane_write :: "open_outcome \<Rightarrow> write_outcome list \<Rightarrow> lane \<Rightarrow> deliver \<Rightarrow> send_stream option
    \<Rightarrow> (write_failure + unit) option \<times> send_stream option" where
  "lane_write oo os lane item stream =
     (case stream of
        Some send \<Rightarrow> (case write_chunks os (deliver_chunks item) send of (w, send1) \<Rightarrow> (w, Some send1))
      | None \<Rightarrow>
          (case open_lane oo lane of
             Inr send \<Rightarrow>
               (case write_chunks os (lane_prefix lane # deliver_chunks item) send of (w, send1) \<Rightarrow> (w, Some send1))
           | Inl failure \<Rightarrow> (Some (Inl failure), None)))"

text \<open>One pass after \<open>recv\<close>; \<open>gone\<close> says whether the connection has a close reason. A stream the
  client stopped is set aside (here: added to \<open>past\<close>) and replaced on the next delivery.\<close>

definition lane_writer_pass :: "open_outcome \<Rightarrow> write_outcome list \<Rightarrow> bool \<Rightarrow> lane \<Rightarrow> u64 \<Rightarrow> deliver queued
    \<Rightarrow> send_stream option \<Rightarrow> send_stream list \<Rightarrow> net
    \<Rightarrow> flow option \<times> send_stream option \<times> send_stream list \<times> net" where
  "lane_writer_pass oo os gone lane k q stream past n =
     (case lane_write oo os lane (q_item q) stream of
        (None, stream1) \<Rightarrow> (None, stream1, past, n)
      | (Some written, stream1) \<Rightarrow>
          let n1 = on_conn (writer_release (q_size q)) k n
          in (case written of
                Inr _ \<Rightarrow> (Some Continue, stream1, past, n1)
              | Inl WriteClosed \<Rightarrow>
                  if \<not> gone
                  then (Some Continue, None, past @ (case stream1 of None \<Rightarrow> [] | Some s \<Rightarrow> [s]), n1)
                  else (Some Return, stream1, past, n1)
              | Inl WriteStalled \<Rightarrow> (Some Return, stream1, past, stalled k n1)))"

record lane_run =
  lr_net :: net
  lr_cur :: "send_stream option"
  lr_past :: "send_stream list"
  lr_task :: "deliver task"
  lr_log :: "deliver list"
  lr_replaced :: nat

definition lane_items :: "lane \<Rightarrow> conn \<Rightarrow> deliver queued list" where
  "lane_items lane c = ch_items (c_lanes c ! lane_index lane)"

definition lane_accepted :: "lane \<Rightarrow> conn \<Rightarrow> conn \<Rightarrow> deliver list" where
  "lane_accepted lane c c' = map q_item (drop (length (lane_items lane c)) (lane_items lane c'))"

definition lane_run_new :: "limits \<Rightarrow> net \<Rightarrow> u64 \<Rightarrow> lane_run" where
  "lane_run_new limits n k =
     \<lparr>lr_net = on_conn (\<lambda>_. conn_new limits) k n, lr_cur = None, lr_past = [], lr_task = Waiting,
      lr_log = [], lr_replaced = 0\<rparr>"

text \<open>The runs of the writer of \<open>lane\<close>. \<open>lr_log\<close> is what its queue accepted, \<open>lr_replaced\<close> how often a
  delivery was lost with a stream that failed while the connection stayed open.\<close>

inductive lane_step :: "lane \<Rightarrow> u64 \<Rightarrow> lane_run \<Rightarrow> lane_run \<Rightarrow> bool" for lane k where
  push: "len_ok d \<Longrightarrow> n' = on_conn (\<lambda>c. snd (deliver lane d c)) k (lr_net r)
    \<Longrightarrow> lane_step lane k r (r\<lparr>lr_net := n',
          lr_log := lr_log r @ lane_accepted lane (n_conns (lr_net r) k) (n_conns n' k)\<rparr>)"
| other: "conn_step (n_conns (lr_net r) k) c'
    \<Longrightarrow> c_lanes c' ! lane_index lane = c_lanes (n_conns (lr_net r) k) ! lane_index lane
    \<Longrightarrow> (\<forall>q. lr_task r = Writing q \<longrightarrow> q_size q \<in> set (c_hand c'))
    \<Longrightarrow> lane_step lane k r (r\<lparr>lr_net := on_conn (\<lambda>_. c') k (lr_net r)\<rparr>)"
| elsewhere: "n_conns n' k = n_conns (lr_net r) k \<Longrightarrow> lane_step lane k r (r\<lparr>lr_net := n'\<rparr>)"
| recv: "lr_task r = Waiting \<Longrightarrow> lane_recv lane (n_conns (lr_net r) k) = Some (q, c')
    \<Longrightarrow> lane_step lane k r (r\<lparr>lr_net := on_conn (\<lambda>_. c') k (lr_net r), lr_task := Writing q\<rparr>)"
| written: "lr_task r = Writing q
    \<Longrightarrow> lane_writer_pass oo os gone lane k q (lr_cur r) (lr_past r) (lr_net r) = (Some Continue, cur', past', n')
    \<Longrightarrow> lane_step lane k r (r\<lparr>lr_net := n', lr_cur := cur', lr_past := past', lr_task := Waiting,
          lr_replaced := lr_replaced r + (if cur' = None then 1 else 0)\<rparr>)"
| failed: "lr_task r = Writing q
    \<Longrightarrow> lane_writer_pass oo os gone lane k q (lr_cur r) (lr_past r) (lr_net r) = (Some Return, cur', past', n')
    \<Longrightarrow> lane_step lane k r (r\<lparr>lr_net := on_conn (lane_rx_drop lane) k n', lr_cur := cur', lr_past := past',
          lr_task := Ended\<rparr>)"
| finish: "lr_task r = Waiting \<Longrightarrow> lane_items lane (n_conns (lr_net r) k) = []
    \<Longrightarrow> lane_step lane k r (r\<lparr>lr_net := on_conn (lane_rx_drop lane) k (lr_net r),
          lr_cur := map_option ss_finish (lr_cur r), lr_task := Ended\<rparr>)"

abbreviation deliver_bytes :: "deliver \<Rightarrow> bytes" where
  "deliver_bytes d \<equiv> concat (deliver_chunks d)"

definition lane_bytes :: "lane \<Rightarrow> deliver list \<Rightarrow> bytes" where
  "lane_bytes lane ds = lane_prefix lane @ concat (map deliver_bytes ds)"

text \<open>\<open>carries lane s ds\<close>: the stream holds the lane byte and the deliveries \<open>ds\<close>, of which only the
  last one may be cut short.\<close>

definition carries :: "lane \<Rightarrow> send_stream \<Rightarrow> deliver list \<Rightarrow> bool" where
  "carries lane s ds \<longleftrightarrow> prefix (ss_written s) (lane_bytes lane ds)
     \<and> (tl ds \<noteq> [] \<longrightarrow> prefix (lane_bytes lane (butlast ds)) (ss_written s))"

definition whole :: "lane \<Rightarrow> send_stream option \<Rightarrow> deliver list \<Rightarrow> bool" where
  "whole lane cur ds \<longleftrightarrow>
     (case cur of None \<Rightarrow> ds = [] | Some s \<Rightarrow> ds \<noteq> [] \<and> ss_written s = lane_bytes lane ds)"

lemma lane_bytes_snoc: "lane_bytes lane (ds @ [d]) = lane_bytes lane ds @ deliver_bytes d"
  by (simp add: lane_bytes_def)

lemma carries_whole: "ss_written s = lane_bytes lane ds \<Longrightarrow> carries lane s ds"
proof -
  assume "ss_written s = lane_bytes lane ds"
  moreover have "prefix (lane_bytes lane (butlast ds)) (lane_bytes lane ds)"
    by (cases ds rule: rev_cases) (simp_all add: lane_bytes_snoc)
  ultimately show ?thesis by (simp add: carries_def)
qed

text \<open>A pass: the delivery is on the stream in full, or cut short on a stream set aside or left, or
  on none because none could be opened.\<close>

lemma lane_write_cases:
  assumes "lane_write oo os lane d cur = (Some w, cur')" "whole lane cur ds"
  obtains (ok) u where "w = Inr u" "cur' \<noteq> None" "whole lane cur' (ds @ [d])"
  | (cut) f s where "w = Inl f" "cur' = Some s" "carries lane s (ds @ [d])"
  | (none) f where "w = Inl f" "cur' = None" "cur = None"
proof (cases cur)
  case (Some s)
  with assms obtain s' where w: "write_chunks os (deliver_chunks d) s = (Some w, s')" "cur' = Some s'"
    by (auto simp: lane_write_def split: prod.splits)
  from write_chunks_prefix [OF w(1)] obtain p where p: "prefix p (deliver_bytes d)" "s' = ss_put p s"
    "Some w = Some (Inr ()) \<longrightarrow> p = deliver_bytes d" .
  have s: "ss_written s = lane_bytes lane ds" using assms(2) Some by (simp add: whole_def)
  show thesis
  proof (cases w)
    case (Inl f)
    moreover have "carries lane s' (ds @ [d])" using p s by (simp add: carries_def lane_bytes_snoc)
    ultimately show thesis using cut w(2) by blast
  next
    case (Inr u)
    then show thesis using ok w(2) p s by (auto simp: whole_def lane_bytes_snoc)
  qed
next
  case None
  show thesis
  proof (cases "open_lane oo lane")
    case (Inl f)
    then show thesis using none assms None by (auto simp: lane_write_def)
  next
    case (Inr s)
    then have s: "ss_written s = []" by (auto simp: open_lane_def stream_new_def split: open_outcome.splits)
    from Inr None assms obtain s' where w: "write_chunks os (lane_prefix lane # deliver_chunks d) s = (Some w, s')"
        "cur' = Some s'"
      by (auto simp: lane_write_def split: prod.splits)
    from write_chunks_prefix [OF w(1)] obtain p where p: "prefix p (lane_bytes lane [d])" "s' = ss_put p s"
      "Some w = Some (Inr ()) \<longrightarrow> p = lane_bytes lane [d]" by (auto simp: lane_bytes_def)
    have ds: "ds = []" using assms(2) None by (simp add: whole_def)
    show thesis
    proof (cases w)
      case (Inl f)
      then show thesis using cut w(2) p s ds by (auto simp: carries_def)
    next
      case (Inr u)
      then show thesis using ok w(2) p s ds by (auto simp: whole_def)
    qed
  qed
qed

definition lane_inv :: "lane \<Rightarrow> conn \<Rightarrow> send_stream option \<Rightarrow> send_stream list \<Rightarrow> deliver task \<Rightarrow> deliver list
    \<Rightarrow> nat \<Rightarrow> bool" where
  "lane_inv lane c cur past task acc replaced \<longleftrightarrow> conn_ok c \<and>
     (\<exists>segs. list_all2 (carries lane) past segs \<and>
       (case task of
          Ended \<Rightarrow> \<not> ch_rx (c_lanes c ! lane_index lane) \<and>
            (\<exists>ds. (case cur of None \<Rightarrow> ds = [] | Some s \<Rightarrow> carries lane s ds) \<and> subseq (concat segs @ ds) acc)
        | _ \<Rightarrow> (\<exists>taken ds. whole lane cur ds \<and> subseq (concat segs @ ds) taken
            \<and> (replaced = 0 \<longrightarrow> past = [] \<and> ds = taken)
            \<and> (case task of
                 Writing q \<Rightarrow> q_size q \<in> set (c_hand c) \<and> acc = taken @ q_item q # map q_item (lane_items lane c)
               | _ \<Rightarrow> acc = taken @ map q_item (lane_items lane c)))))"

lemma deliver_log:
  assumes "conn_ok c" "len_ok d" "lane \<noteq> Bulk" "c' = snd (deliver lane d c)"
  shows "map q_item (lane_items lane c') = map q_item (lane_items lane c) @ lane_accepted lane c c'"
    and "ch_rx (c_lanes c' ! lane_index lane) = ch_rx (c_lanes c ! lane_index lane)" "c_hand c' = c_hand c"
    and "\<not> ch_rx (c_lanes c ! lane_index lane) \<Longrightarrow> lane_accepted lane c c' = []"
proof -
  have i: "lane_index lane < length (c_lanes c)"
    using assms(1,3) by (cases lane) (auto simp: conn_ok_def)
  show "map q_item (lane_items lane c') = map q_item (lane_items lane c) @ lane_accepted lane c c'"
    using assms(1,2,3)
    by (cases rule: deliver_cases) (simp_all add: assms(4) lane_accepted_def lane_items_def i)
  show "ch_rx (c_lanes c' ! lane_index lane) = ch_rx (c_lanes c ! lane_index lane)"
    using assms(1,2,3) by (cases rule: deliver_cases) (simp_all add: assms(4) i)
  show "c_hand c' = c_hand c"
    using assms(1,2,3) by (cases rule: deliver_cases) (simp_all add: assms(4))
  show "lane_accepted lane c c' = []" if "\<not> ch_rx (c_lanes c ! lane_index lane)"
    using assms(1,2,3)
    by (cases rule: deliver_cases) (use that in \<open>simp_all add: assms(4) lane_accepted_def lane_items_def\<close>)
qed

lemma lane_writer_pass_cases:
  assumes "lane_writer_pass oo os gone lane k q cur past n = (Some fl, cur', past', n')" "whole lane cur ds"
  obtains (ok) "fl = Continue" "cur' \<noteq> None" "whole lane cur' (ds @ [q_item q])" "past' = past"
      "n_conns n' k = writer_release (q_size q) (n_conns n k)"
  | (replaced) s where "fl = Continue" "cur' = None" "past' = past @ [s]" "carries lane s (ds @ [q_item q])"
      "n_conns n' k = writer_release (q_size q) (n_conns n k)"
  | (unopened) "fl = Continue" "cur' = None" "past' = past" "ds = []"
      "n_conns n' k = writer_release (q_size q) (n_conns n k)"
  | (fail) "fl = Return" "past' = past"
      "case cur' of None \<Rightarrow> ds = [] | Some s \<Rightarrow> carries lane s (ds @ [q_item q])"
      "n_conns n' k = writer_release (q_size q) (n_conns n k)
         \<or> n_conns n' k = conn_close CloseStalled (ascii ''stalled'') (writer_release (q_size q) (n_conns n k))"
proof -
  obtain w cur1 where w: "lane_write oo os lane (q_item q) cur = (Some w, cur1)"
    using assms(1) by (auto simp: lane_writer_pass_def split: prod.splits option.splits)
  note d = assms(1) [unfolded lane_writer_pass_def w Let_def prod.case option.case]
  have ds: "ds = []" if "cur = None" using that assms(2) by (simp add: whole_def)
  from w assms(2) show thesis
  proof (cases rule: lane_write_cases)
    case (ok u)
    then show thesis using d that(1) by auto
  next
    case (cut f s)
    then show thesis using d that(2,4) by (cases f; cases gone) (auto simp: stalled_def on_conn_def)
  next
    case (none f)
    then show thesis using d that(3,4) ds by (cases f; cases gone) (auto simp: stalled_def on_conn_def)
  qed
qed

lemma lane_inv_conn: "lane_inv lane c cur past task acc m \<Longrightarrow> conn_ok c"
  by (simp add: lane_inv_def)

text \<open>Only the connection and the log matter to the invariant when the task does not move.\<close>

lemma lane_inv_same:
  assumes "lane_inv lane c cur past task acc m" "conn_ok c'"
    and "map q_item (lane_items lane c') = map q_item (lane_items lane c) @ fresh"
    and "ch_rx (c_lanes c' ! lane_index lane) = ch_rx (c_lanes c ! lane_index lane)"
    and "\<not> ch_rx (c_lanes c ! lane_index lane) \<Longrightarrow> fresh = []"
    and "\<And>q. task = Writing q \<Longrightarrow> q_size q \<in> set (c_hand c')"
  shows "lane_inv lane c' cur past task (acc @ fresh) m"
  using assms by (cases task) (auto simp: lane_inv_def)

lemma lane_inv_writing:
  assumes "lane_inv lane c cur past (Writing q) acc m"
  obtains segs taken ds where "conn_ok c" "conn_ok (writer_release (q_size q) c)"
    "lane_items lane (writer_release (q_size q) c) = lane_items lane c"
    "list_all2 (carries lane) past segs" "whole lane cur ds" "subseq (concat segs @ ds) taken"
    "m = 0 \<longrightarrow> past = [] \<and> ds = taken" "acc = taken @ q_item q # map q_item (lane_items lane c)"
    "subseq (concat segs @ ds @ [q_item q]) (taken @ [q_item q])"
proof -
  from assms obtain segs taken ds where inv: "conn_ok c" "list_all2 (carries lane) past segs" "whole lane cur ds"
      "subseq (concat segs @ ds) taken" "m = 0 \<longrightarrow> past = [] \<and> ds = taken" "q_size q \<in> set (c_hand c)"
      "acc = taken @ q_item q # map q_item (lane_items lane c)"
    by (auto simp: lane_inv_def)
  moreover have "subseq (concat segs @ ds @ [q_item q]) (taken @ [q_item q])"
    using inv(4) by (metis append.assoc list_emb_append_mono subseq_order.order_refl)
  moreover have "lane_items lane (writer_release (q_size q) c) = lane_items lane c"
    by (simp add: writer_release_def conn_release_def lane_items_def)
  ultimately show thesis
    using writer_release_ok [OF inv(1,6)] by (intro that [OF inv(1) _ _ inv(2-5) inv(7)])
qed

lemma lane_pass_continue:
  assumes "lane_inv lane (n_conns n k) cur past (Writing q) acc m"
    and "lane_writer_pass oo os gone lane k q cur past n = (Some Continue, cur', past', n')"
  shows "lane_inv lane (n_conns n' k) cur' past' Waiting acc (m + (if cur' = None then 1 else 0))"
proof -
  from lane_inv_writing [OF assms(1)] obtain segs taken ds where
    inv: "conn_ok (n_conns n k)" "conn_ok (writer_release (q_size q) (n_conns n k))"
    "lane_items lane (writer_release (q_size q) (n_conns n k)) = lane_items lane (n_conns n k)"
    "list_all2 (carries lane) past segs" "whole lane cur ds" "subseq (concat segs @ ds) taken"
    "m = 0 \<longrightarrow> past = [] \<and> ds = taken" "acc = taken @ q_item q # map q_item (lane_items lane (n_conns n k))"
    "subseq (concat segs @ ds @ [q_item q]) (taken @ [q_item q])" .
  from assms(2) inv(5) show ?thesis
  proof (cases rule: lane_writer_pass_cases)
    case ok
    then show ?thesis
      using inv
      by (auto simp: lane_inv_def intro!: exI [of _ segs] exI [of _ "taken @ [q_item q]"] exI [of _ "ds @ [q_item q]"])
  next
    case (replaced s)
    then show ?thesis
      using inv
      by (auto simp: lane_inv_def whole_def intro!: list_all2_appendI exI [of _ "segs @ [ds @ [q_item q]]"]
          exI [of _ "taken @ [q_item q]"])
  next
    case unopened
    then show ?thesis
      using inv
      by (auto simp: lane_inv_def whole_def intro!: exI [of _ segs] exI [of _ "taken @ [q_item q]"] intro: list_emb_append2)
  qed simp
qed

lemma lane_pass_return:
  assumes "lane_inv lane (n_conns n k) cur past (Writing q) acc m" "lane \<noteq> Bulk"
    and "lane_writer_pass oo os gone lane k q cur past n = (Some Return, cur', past', n')"
  shows "lane_inv lane (lane_rx_drop lane (n_conns n' k)) cur' past' Ended acc m"
proof -
  from lane_inv_writing [OF assms(1)] obtain segs taken ds where
    inv: "conn_ok (n_conns n k)" "conn_ok (writer_release (q_size q) (n_conns n k))"
    "lane_items lane (writer_release (q_size q) (n_conns n k)) = lane_items lane (n_conns n k)"
    "list_all2 (carries lane) past segs" "whole lane cur ds" "subseq (concat segs @ ds) taken"
    "m = 0 \<longrightarrow> past = [] \<and> ds = taken" "acc = taken @ q_item q # map q_item (lane_items lane (n_conns n k))"
    "subseq (concat segs @ ds @ [q_item q]) (taken @ [q_item q])" .
  have sub: "subseq (concat segs @ ds @ [q_item q]) acc" "subseq (concat segs @ ds) acc"
    using list_emb_prefix [OF inv(9), of "map q_item (lane_items lane (n_conns n k))"] list_emb_prefix [OF inv(6)]
    by (simp_all add: inv(8))
  from assms(3) inv(5) show ?thesis
  proof (cases rule: lane_writer_pass_cases)
    case fail
    have ok: "conn_ok (n_conns n' k)" using fail inv(2) stalled_close_ok by auto
    have rx: "\<not> ch_rx (c_lanes (lane_rx_drop lane (n_conns n' k)) ! lane_index lane)"
      using ok assms(2) by (cases lane) (auto simp: lane_rx_drop_def conn_ok_def)
    show ?thesis
    proof (cases cur')
      case None
      then show ?thesis
        using fail inv(4) sub rx lane_rx_drop_ok [OF ok assms(2)] by (auto simp: lane_inv_def)
    next
      case (Some s)
      then show ?thesis
        using fail inv(4) sub rx lane_rx_drop_ok [OF ok assms(2)]
        by (auto simp: lane_inv_def intro!: exI [of _ segs] exI [of _ "ds @ [q_item q]"])
    qed
  qed simp_all
qed

lemma lane_finish_inv:
  assumes "lane_inv lane c cur past Waiting acc m" "lane \<noteq> Bulk" "lane_items lane c = []"
  shows "lane_inv lane (lane_rx_drop lane c) (map_option ss_finish cur) past Ended acc m"
proof -
  have ok: "conn_ok c" using lane_inv_conn assms(1) .
  have "\<not> ch_rx (c_lanes (lane_rx_drop lane c) ! lane_index lane)"
    using ok assms(2) by (cases lane) (auto simp: lane_rx_drop_def conn_ok_def)
  moreover have "carries lane (ss_finish s) ds = carries lane s ds" for s ds by (simp add: carries_def ss_finish_def)
  ultimately show ?thesis
    using assms lane_rx_drop_ok [OF ok assms(2)] carries_whole
    by (cases cur) (fastforce simp: lane_inv_def whole_def)+
qed

lemma lane_step_inv:
  assumes "lane_step lane k r r'" "lane \<noteq> Bulk"
    and "lane_inv lane (n_conns (lr_net r) k) (lr_cur r) (lr_past r) (lr_task r) (lr_log r) (lr_replaced r)"
  shows "lane_inv lane (n_conns (lr_net r') k) (lr_cur r') (lr_past r') (lr_task r') (lr_log r') (lr_replaced r')"
  using assms(1)
proof cases
  case (push d n')
  have ok: "conn_ok (n_conns (lr_net r) k)" using lane_inv_conn assms(3) .
  have c': "n_conns n' k = snd (deliver lane d (n_conns (lr_net r) k))" by (simp add: push)
  have ok': "conn_ok (n_conns n' k)" unfolding c' using conn_step_ok [OF conn_step.deliver ok] push(2) .
  have "lane_inv lane (n_conns n' k) (lr_cur r) (lr_past r) (lr_task r)
      (lr_log r @ lane_accepted lane (n_conns (lr_net r) k) (n_conns n' k)) (lr_replaced r)"
    using deliver_log [OF ok push(2) assms(2) c'] assms(3)
    by (intro lane_inv_same [OF assms(3) ok']) (auto simp: lane_inv_def)
  then show ?thesis using push(1) by simp
next
  case (other c')
  have "conn_ok c'" using conn_step_ok other lane_inv_conn assms(3) by blast
  then show ?thesis
    using other lane_inv_same [OF assms(3), of c' "[]"] by (simp add: lane_items_def)
next
  case (elsewhere n')
  then show ?thesis using assms(3) by simp
next
  case (recv q c')
  have ok: "conn_ok c'"
    using conn_step_ok [OF conn_step.lane_recv [OF assms(2) recv(3)]] lane_inv_conn assms(3) by blast
  have i: "lane_index lane < length (c_lanes (n_conns (lr_net r) k))"
    using lane_inv_conn [OF assms(3)] assms(2) by (cases lane) (auto simp: conn_ok_def)
  obtain qs where "lane_items lane (n_conns (lr_net r) k) = q # qs" "lane_items lane c' = qs"
      "c_hand c' = c_hand (n_conns (lr_net r) k) @ [q_size q]"
    using recv(3) i by (auto simp: lane_recv_def lane_items_def split: list.splits)
  then show ?thesis using assms(3) recv ok by (auto simp: lane_inv_def)
next
  case (written q oo os gone cur' past' n')
  then show ?thesis using lane_pass_continue [OF assms(3) [unfolded written(2)] written(3)] by simp
next
  case (failed q oo os gone cur' past' n')
  then show ?thesis using lane_pass_return [OF assms(3) [unfolded failed(2)] assms(2) failed(3)] by simp
next
  case finish
  then show ?thesis using lane_finish_inv [OF assms(3) [unfolded finish(2)] assms(2) finish(3)] by simp
qed

lemma lane_reach_inv:
  assumes "(lane_step lane k)\<^sup>*\<^sup>* (lane_run_new l n k) r" "lane \<noteq> Bulk"
    and "outbox_bytes l < 2 ^ 63" "bulk_outbox_bytes l < 2 ^ 63"
  shows "lane_inv lane (n_conns (lr_net r) k) (lr_cur r) (lr_past r) (lr_task r) (lr_log r) (lr_replaced r)"
  using assms(1)
proof (induction rule: rtranclp_induct)
  case base
  have "lane_items lane (conn_new l) = []"
    using assms(2) by (cases lane) (simp_all add: lane_items_def conn_new_def chan_new_def)
  then show ?case
    using conn_new_ok [OF assms(3,4)] by (simp add: lane_run_new_def lane_inv_def whole_def)
qed (rule lane_step_inv [OF _ assms(2)])

section \<open>Bulk deliveries\<close>

text \<open>\<open>ack\<close>: the client acknowledged (or stopped) the stream before the timeout. \<open>None\<close> is a delivery
  still being written; a delivery for which no stream could be opened has none.\<close>

definition send_bulk :: "open_outcome \<Rightarrow> write_outcome list \<Rightarrow> bool \<Rightarrow> deliver \<Rightarrow> stats
    \<Rightarrow> (send_stream option \<times> stats) option" where
  "send_bulk oo os ack frame st =
     (case open_lane oo Bulk of
        Inl WriteClosed \<Rightarrow> Some (None, st)
      | Inl WriteStalled \<Rightarrow> Some (None, bump st_bulk_stalled_update st)
      | Inr send \<Rightarrow>
          (case write_chunks os (lane_prefix Bulk # deliver_chunks frame) send of
             (None, _) \<Rightarrow> None
           | (Some (Inr _), send1) \<Rightarrow>
               let send2 = ss_finish send1
               in if ack then Some (Some send2, st)
                  else Some (Some (ss_abort StreamStalled send2), bump st_bulk_stalled_update st)
           | (Some (Inl WriteClosed), send1) \<Rightarrow> Some (Some send1, st)
           | (Some (Inl WriteStalled), send1) \<Rightarrow>
               Some (Some (ss_abort StreamStalled send1), bump st_bulk_stalled_update st)))"

record dispatcher =
  bd_net :: net
  bd_free :: nat
  bd_holding :: bool
  bd_running :: bool
  bd_flight :: "deliver list"
  bd_sent :: "(deliver \<times> send_stream option) list"

definition dispatcher_new :: "limits \<Rightarrow> net \<Rightarrow> u64 \<Rightarrow> dispatcher" where
  "dispatcher_new limits n k =
     \<lparr>bd_net = on_conn (\<lambda>_. conn_new limits) k n, bd_free = max (max_bulk_streams limits) 1, bd_holding = False,
      bd_running = True, bd_flight = [], bd_sent = []\<rparr>"

text \<open>The dispatcher of connection \<open>k\<close>: take a stream slot, then a delivery, and spawn its task; the
  task sends, gives the bytes back and drops the slot. The loop ends when the queue is closed and
  empty; the tasks still in flight are then joined.\<close>

inductive dispatcher_step :: "u64 \<Rightarrow> dispatcher \<Rightarrow> dispatcher \<Rightarrow> bool" for k where
  acquire: "bd_running d \<Longrightarrow> \<not> bd_holding d \<Longrightarrow> bd_free d > 0
    \<Longrightarrow> dispatcher_step k d (d\<lparr>bd_free := bd_free d - 1, bd_holding := True\<rparr>)"
| spawn: "bd_running d \<Longrightarrow> bd_holding d \<Longrightarrow> dispatch_next (n_conns (bd_net d) k) = Some (f, c')
    \<Longrightarrow> dispatcher_step k d (d\<lparr>bd_net := on_conn (\<lambda>_. c') k (bd_net d), bd_holding := False,
          bd_flight := bd_flight d @ [f]\<rparr>)"
| break: "bd_running d \<Longrightarrow> bd_holding d \<Longrightarrow> fst (bulk_next (c_bulk (n_conns (bd_net d) k))) = NextNone
    \<Longrightarrow> dispatcher_step k d (d\<lparr>bd_running := False, bd_holding := False, bd_free := Suc (bd_free d)\<rparr>)"
| sent: "f \<in> set (bd_flight d) \<Longrightarrow> send_bulk oo os ack f (n_stats (bd_net d)) = Some (stream, st')
    \<Longrightarrow> dispatcher_step k d (d\<lparr>bd_net := on_conn (dispatch_done (deliver_len f)) k (bd_net d\<lparr>n_stats := st'\<rparr>),
          bd_flight := remove1 f (bd_flight d), bd_free := Suc (bd_free d),
          bd_sent := bd_sent d @ [(f, stream)]\<rparr>)"
| other: "conn_step (n_conns (bd_net d) k) c' \<Longrightarrow> c_bulk_on c' = c_bulk_on (n_conns (bd_net d) k)
    \<Longrightarrow> n_conns n' k = c' \<Longrightarrow> dispatcher_step k d (d\<lparr>bd_net := n'\<rparr>)"

lemma send_bulk_carries:
  assumes "send_bulk oo os ack f st = Some (Some s, st')"
  shows "carries Bulk s [f]" "ss_finished s \<longrightarrow> ss_written s = lane_bytes Bulk [f]" "ss_priority s = lane_priority Bulk"
    and "ss_reset s = (if st' = st then None else Some StreamStalled)"
    and "st' = st \<or> st' = bump st_bulk_stalled_update st"
proof -
  obtain w s1 where w: "write_chunks os (lane_prefix Bulk # deliver_chunks f) (stream_new\<lparr>ss_priority := lane_priority Bulk\<rparr>) = (w, s1)"
    by fastforce
  from write_chunks_prefix [OF w] obtain p where p: "prefix p (lane_bytes Bulk [f])"
      "s1 = ss_put p (stream_new\<lparr>ss_priority := lane_priority Bulk\<rparr>)" "w = Some (Inr ()) \<longrightarrow> p = lane_bytes Bulk [f]"
    by (auto simp: lane_bytes_def)
  have "st_bulk_stalled (bump st_bulk_stalled_update st) = st_bulk_stalled st + 1" by (simp add: bump_def)
  then have b: "bump st_bulk_stalled_update st \<noteq> st" by auto
  note d = assms [unfolded send_bulk_def]
  show "carries Bulk s [f]" "ss_finished s \<longrightarrow> ss_written s = lane_bytes Bulk [f]" "ss_priority s = lane_priority Bulk"
    "ss_reset s = (if st' = st then None else Some StreamStalled)" "st' = st \<or> st' = bump st_bulk_stalled_update st"
    using d w p b
    by (auto simp: open_lane_def carries_def ss_put_def ss_finish_def ss_abort_def stream_new_def Let_def
        split: open_outcome.splits option.splits sum.splits write_failure.splits if_splits)
qed

definition dispatcher_inv :: "nat \<Rightarrow> u64 \<Rightarrow> dispatcher \<Rightarrow> bool" where
  "dispatcher_inv m k d \<longleftrightarrow> conn_ok (n_conns (bd_net d) k)
     \<and> bd_free d + (if bd_holding d then 1 else 0) + length (bd_flight d) = m
     \<and> mset (c_bulk_on (n_conns (bd_net d) k)) = mset (map deliver_len (bd_flight d))
     \<and> (\<forall>(f, stream) \<in> set (bd_sent d). \<forall>s. stream = Some s \<longrightarrow>
          carries Bulk s [f] \<and> (ss_finished s \<longrightarrow> ss_written s = lane_bytes Bulk [f]))"

lemma dispatcher_step_inv:
  assumes "dispatcher_step k d d'" "dispatcher_inv m k d"
  shows "dispatcher_inv m k d'"
  using assms(1)
proof cases
  case acquire
  then show ?thesis using assms(2) by (simp add: dispatcher_inv_def)
next
  case (spawn f c')
  have "conn_ok c'" using conn_step_ok [OF conn_step.dispatch_next [OF spawn(4)]] assms(2) by (simp add: dispatcher_inv_def)
  moreover have "c_bulk_on c' = c_bulk_on (n_conns (bd_net d) k) @ [deliver_len f]"
    using spawn(4) by (auto simp: dispatch_next_def split: prod.splits next_result.splits)
  ultimately show ?thesis using assms(2) spawn by (simp add: dispatcher_inv_def)
next
  case break
  then show ?thesis using assms(2) by (simp add: dispatcher_inv_def)
next
  case (sent f oo os ack stream st')
  let ?c = "n_conns (bd_net d) k"
  have on: "mset (c_bulk_on ?c) = mset (map deliver_len (bd_flight d))" using assms(2) by (simp add: dispatcher_inv_def)
  have mem: "deliver_len f \<in> set (c_bulk_on ?c)"
  proof -
    have "set (c_bulk_on ?c) = set (map deliver_len (bd_flight d))" using mset_eq_setD [OF on] .
    then show ?thesis using sent(2) by simp
  qed
  have "conn_ok (dispatch_done (deliver_len f) ?c)"
    using conn_step_ok [OF conn_step.dispatch_done [OF mem]] assms(2) by (simp add: dispatcher_inv_def)
  moreover have "mset (c_bulk_on (dispatch_done (deliver_len f) ?c)) = mset (map deliver_len (remove1 f (bd_flight d)))"
    using on sent(2) by (simp add: dispatch_done_def image_mset_Diff)
  moreover have "length (remove1 f (bd_flight d)) + 1 = length (bd_flight d)"
    using sent(2) length_pos_if_in_set by (fastforce simp: length_remove1)
  ultimately show ?thesis
    using assms(2) sent(1) send_bulk_carries sent(3) by (auto simp: dispatcher_inv_def)
next
  case (other c' n')
  then show ?thesis using assms(2) conn_step_ok by (auto simp: dispatcher_inv_def)
qed

lemma dispatcher_reach_inv:
  assumes "(dispatcher_step k)\<^sup>*\<^sup>* (dispatcher_new l n k) d" "outbox_bytes l < 2 ^ 63" "bulk_outbox_bytes l < 2 ^ 63"
  shows "dispatcher_inv (max (max_bulk_streams l) 1) k d"
  using assms(1)
proof (induction rule: rtranclp_induct)
  case base
  show ?case
    using conn_new_ok [OF assms(2,3)] by (simp add: dispatcher_inv_def dispatcher_new_def conn_new_def)
qed (rule dispatcher_step_inv)

lemma lane_inv_streams:
  assumes "lane_inv lane c cur past task acc m"
  shows "\<exists>segs. list_all2 (carries lane) (past @ (case cur of None \<Rightarrow> [] | Some s \<Rightarrow> [s])) segs
    \<and> subseq (concat segs) acc"
proof -
  have "\<exists>segs ds. list_all2 (carries lane) past segs \<and> subseq (concat segs @ ds) acc
      \<and> (case cur of None \<Rightarrow> ds = [] | Some s \<Rightarrow> carries lane s ds)"
  proof (cases "task = Ended")
    case True
    then show ?thesis using assms by (auto simp: lane_inv_def)
  next
    case False
    then obtain segs taken ds rest where *: "list_all2 (carries lane) past segs" "whole lane cur ds"
        "subseq (concat segs @ ds) taken" "acc = taken @ rest"
      using assms by (cases task; simp add: lane_inv_def; blast)
    have "subseq (concat segs @ ds) acc" using *(3,4) list_emb_prefix by blast
    moreover have "case cur of None \<Rightarrow> ds = [] | Some s \<Rightarrow> carries lane s ds"
      using *(2) carries_whole by (cases cur) (auto simp: whole_def)
    ultimately show ?thesis using *(1) by blast
  qed
  then obtain segs ds where "list_all2 (carries lane) past segs" "subseq (concat segs @ ds) acc"
      "case cur of None \<Rightarrow> ds = [] | Some s \<Rightarrow> carries lane s ds" by blast
  then show ?thesis
    by (intro exI [of _ "segs @ (case cur of None \<Rightarrow> [] | Some _ \<Rightarrow> [ds])"]; cases cur)
      (auto intro!: list_all2_appendI)
qed

section \<open>Properties\<close>

text \<open>The session stream carries exactly what its queue accepted, in order. In every run, with
  handles queueing while the writer writes and whatever the stream answers, the bytes written are a
  prefix of the concatenated items; between passes they are whole items, the rest still waiting; a
  stream that was finished carries every item; and the byte budget stays accounted for.\<close>

theorem session_stream_in_order:
  assumes "(session_step l k)\<^sup>*\<^sup>* (session_run_new l n k) r" "outbox_bytes l < 2 ^ 63" "bulk_outbox_bytes l < 2 ^ 63"
  shows "prefix (ss_written (sr_send r)) (log_bytes l (sr_log r))
    \<and> (sr_task r = Waiting \<longrightarrow>
        ss_written (sr_send r) @ log_bytes l (map q_item (ch_items (c_session (n_conns (sr_net r) k)))) = log_bytes l (sr_log r))
    \<and> (ss_finished (sr_send r) \<longrightarrow> ss_written (sr_send r) = log_bytes l (sr_log r))
    \<and> conn_ok (n_conns (sr_net r) k)"
  using session_reach_inv [OF assms] by (auto simp: session_inv_def split: task.splits)

text \<open>A lane's streams carry its deliveries in order. Every stream the writer opened starts with
  the lane byte and holds whole DELIVER frames, only the last one possibly cut; together they are
  in the order in which the queue accepted them, none twice. While no stream had to be replaced
  there is at most one, and it holds every delivery taken from the queue.\<close>

theorem lane_streams_in_order:
  assumes "(lane_step lane k)\<^sup>*\<^sup>* (lane_run_new l n k) r" "lane \<noteq> Bulk"
    and "outbox_bytes l < 2 ^ 63" "bulk_outbox_bytes l < 2 ^ 63"
  shows "(\<exists>segs. list_all2 (carries lane) (lr_past r @ (case lr_cur r of None \<Rightarrow> [] | Some s \<Rightarrow> [s])) segs
      \<and> subseq (concat segs) (lr_log r))
    \<and> (lr_task r = Waiting \<longrightarrow> lr_replaced r = 0 \<longrightarrow> lr_past r = [] \<and>
      (\<exists>taken. lr_log r = taken @ map q_item (lane_items lane (n_conns (lr_net r) k)) \<and> whole lane (lr_cur r) taken))
    \<and> conn_ok (n_conns (lr_net r) k)"
proof (intro conjI)
  note inv = lane_reach_inv [OF assms]
  show "\<exists>segs. list_all2 (carries lane) (lr_past r @ (case lr_cur r of None \<Rightarrow> [] | Some s \<Rightarrow> [s])) segs
      \<and> subseq (concat segs) (lr_log r)" using lane_inv_streams [OF inv] .
  show "lr_task r = Waiting \<longrightarrow> lr_replaced r = 0 \<longrightarrow> lr_past r = [] \<and>
      (\<exists>taken. lr_log r = taken @ map q_item (lane_items lane (n_conns (lr_net r) k)) \<and> whole lane (lr_cur r) taken)"
    using inv by (auto simp: lane_inv_def)
  show "conn_ok (n_conns (lr_net r) k)" using lane_inv_conn [OF inv] .
qed

text \<open>C19: at most \<open>max_bulk_streams\<close> bulk deliveries are on streams at a time, their bytes are exactly
  what the bulk queue counts beyond what waits, and each stream holds the lane byte and a prefix of
  its one DELIVER, all of it when it was finished.\<close>

theorem bulk_streams_bounded:
  assumes "(dispatcher_step k)\<^sup>*\<^sup>* (dispatcher_new l n k) d" "outbox_bytes l < 2 ^ 63" "bulk_outbox_bytes l < 2 ^ 63"
  shows "length (bd_flight d) \<le> max (max_bulk_streams l) 1
    \<and> bq_bytes (c_bulk (n_conns (bd_net d) k)) =
        total_len (bq_waiting (c_bulk (n_conns (bd_net d) k))) + total_len (bd_flight d)
    \<and> (\<forall>f s. (f, Some s) \<in> set (bd_sent d) \<longrightarrow>
        carries Bulk s [f] \<and> (ss_finished s \<longrightarrow> ss_written s = lane_bytes Bulk [f]))"
proof (intro conjI allI impI)
  note inv = dispatcher_reach_inv [OF assms]
  let ?c = "n_conns (bd_net d) k"
  show "length (bd_flight d) \<le> max (max_bulk_streams l) 1" using inv by (simp add: dispatcher_inv_def)
  have "sum_list (c_bulk_on ?c) = total_len (bd_flight d)"
    using inv by (metis dispatcher_inv_def sum_mset_sum_list)
  then show "bq_bytes (c_bulk ?c) = total_len (bq_waiting (c_bulk ?c)) + total_len (bd_flight d)"
    using inv by (simp add: dispatcher_inv_def conn_ok_def bulk_ok_def)
  show "carries Bulk s [f]" "ss_finished s \<Longrightarrow> ss_written s = lane_bytes Bulk [f]" if "(f, Some s) \<in> set (bd_sent d)" for f s
    using inv that by (auto simp: dispatcher_inv_def)
qed

text \<open>Runs: one frame queued, taken and written in two writes; one delivery on a new lane stream;
  one bulk delivery on a stream.\<close>

definition no_net :: net where
  "no_net = \<lparr>n_conns = \<lambda>_. conn_new limits_default, n_stats = stats_default\<rparr>"

lemmas sample_conn_simps = no_net_def session_run_new_def lane_run_new_def on_conn_def conn_new_def chan_new_def
  budget_new_def limits_default_def MIB_def stream_new_def

lemma outbox_default: "outbox_bytes limits_default < 2 ^ 63" "bulk_outbox_bytes limits_default < 2 ^ 63"
  by (simp_all add: limits_default_def MIB_def)

lemma three_steps: "R a b \<Longrightarrow> R b c \<Longrightarrow> R c d \<Longrightarrow> R\<^sup>*\<^sup>* a d"
  by (meson converse_rtranclp_into_rtranclp r_into_rtranclp)

lemma sample_session_run:
  assumes "0 < length b" "length b \<le> 1000"
  shows "\<exists>r. (session_step limits_default 1)\<^sup>*\<^sup>* (session_run_new limits_default no_net 1) r \<and> sr_task r = Waiting
     \<and> sr_log r = [FrameItem b] \<and> ch_items (c_session (n_conns (sr_net r) 1)) = []"
proof -
  let ?r0 = "session_run_new limits_default no_net 1"
  let ?n1 = "on_conn (push_session (FrameItem b) (length b)) 1 (sr_net ?r0)"
  let ?r1 = "?r0\<lparr>sr_net := ?n1, sr_log := sr_log ?r0 @ session_accepted (n_conns (sr_net ?r0) 1) (n_conns ?n1 1)\<rparr>"
  let ?q = "\<lparr>q_item = FrameItem b, q_size = length b\<rparr>" and ?os = "replicate (length b) (Wrote (Suc 0))"
  have s1: "session_step limits_default 1 ?r0 ?r1"
    by (rule session_step.push) (use assms in \<open>simp_all add: size_ok_def\<close>)
  have push: "n_conns (sr_net ?r1) 1 = (conn_new limits_default)\<lparr>c_budget := (budget_new (outbox_bytes limits_default))\<lparr>b_queued := length b\<rparr>,
      c_session := \<lparr>ch_items = [?q], ch_rx = True\<rparr>\<rparr>"
    using assms by (simp add: push_session_def reserve_def sample_conn_simps chan_send_def usize_add_def)
  obtain c2 where c2: "session_recv (n_conns (sr_net ?r1) 1) = Some (?q, c2)" "ch_items (c_session c2) = []"
    unfolding push by (simp add: session_recv_def)
  let ?r2 = "?r1\<lparr>sr_net := on_conn (\<lambda>_. c2) 1 (sr_net ?r1), sr_task := Writing ?q\<rparr>"
  have s2: "session_step limits_default 1 ?r1 ?r2"
    by (rule session_step.recv [OF _ c2(1)]) (simp add: session_run_new_def)
  have w: "write_chunks ?os [b] s = (Some (Inr ()), ss_put (concat [b]) s)" for s
    by (rule write_chunks_progress) auto
  obtain send n3 where p: "session_writer_pass limits_default ?os 1 ?q (sr_send ?r2) (sr_net ?r2) = (Some Continue, send, n3)"
      "n_conns n3 1 = writer_release (length b) c2"
    by (simp add: session_writer_pass_def item_chunks_def Let_def w)
  have s3: "session_step limits_default 1 ?r2 (?r2\<lparr>sr_net := n3, sr_send := send, sr_task := Waiting\<rparr>)"
    by (rule session_step.written [OF _ p(1)]) simp
  have "sr_log ?r1 = [FrameItem b]"
    using push by (simp add: session_accepted_def session_run_new_def conn_new_def chan_new_def)
  then show ?thesis
    using three_steps [of "session_step limits_default 1", OF s1 s2 s3] p(2) c2(2)
    by (intro exI conjI) (assumption, simp_all add: writer_release_def conn_release_def)
qed

lemma sample_session_finished:
  assumes "0 < length b" "length b \<le> 1000"
  shows "\<exists>r. (session_step limits_default 1)\<^sup>*\<^sup>* (session_run_new limits_default no_net 1) r
     \<and> sr_log r = [FrameItem b] \<and> ss_finished (sr_send r)"
proof -
  from sample_session_run [OF assms] obtain r where
    r: "(session_step limits_default 1)\<^sup>*\<^sup>* (session_run_new limits_default no_net 1) r" "sr_task r = Waiting"
      "sr_log r = [FrameItem b]" "ch_items (c_session (n_conns (sr_net r) 1)) = []" by blast
  from rtranclp.rtrancl_into_rtrancl [OF r(1) session_step.finish [OF r(2,4)]] r(3) show ?thesis
    by (intro exI conjI) (assumption, simp_all add: ss_finish_def)
qed

theorem session_stream_in_order_witness:
  "\<exists>r :: session_run. sr_log r = [FrameItem [7, 8]] \<and> ss_written (sr_send r) = [7, 8] \<and> conn_ok (n_conns (sr_net r) 1)"
proof -
  obtain r where r: "(session_step limits_default 1)\<^sup>*\<^sup>* (session_run_new limits_default no_net 1) r" "sr_task r = Waiting"
      "sr_log r = [FrameItem [7, 8]]" "ch_items (c_session (n_conns (sr_net r) 1)) = []"
    using sample_session_run [of "[7, 8]"] by auto
  from session_stream_in_order [OF r(1) outbox_default] r(2-4) show ?thesis
    by - (rule exI [of _ r], simp add: item_chunks_def)
qed

lemma payload_of_ok: "len_ok (payload_of 2)"
  by (simp add: len_ok_def payload_of_len)

lemma sample_lane_run:
  "\<exists>r. (lane_step Control 1)\<^sup>*\<^sup>* (lane_run_new limits_default no_net 1) r \<and> lr_task r = Waiting
     \<and> lr_log r = [payload_of 2] \<and> lr_replaced r = 0 \<and> lane_items Control (n_conns (lr_net r) 1) = []"
proof -
  let ?d = "payload_of 2" and ?r0 = "lane_run_new limits_default no_net 1"
  let ?n1 = "on_conn (\<lambda>c. snd (deliver Control ?d c)) 1 (lr_net ?r0)"
  let ?r1 = "?r0\<lparr>lr_net := ?n1, lr_log := lr_log ?r0 @ lane_accepted Control (n_conns (lr_net ?r0) 1) (n_conns ?n1 1)\<rparr>"
  let ?q = "\<lparr>q_item = ?d, q_size = 39\<rparr>"
  have s1: "lane_step Control 1 ?r0 ?r1" by (rule lane_step.push) (simp_all add: payload_of_ok)
  have push: "n_conns (lr_net ?r1) 1 = (conn_new limits_default)\<lparr>c_budget := (budget_new (outbox_bytes limits_default))\<lparr>b_queued := 39\<rparr>,
      c_lanes := [\<lparr>ch_items = [?q], ch_rx = True\<rparr>, chan_new]\<rparr>"
    by (simp add: deliver_def payload_of_len reserve_def sample_conn_simps chan_send_def usize_add_def)
  obtain c2 where c2: "lane_recv Control (n_conns (lr_net ?r1) 1) = Some (?q, c2)" "lane_items Control c2 = []"
    unfolding push by (simp add: lane_recv_def lane_items_def)
  let ?r2 = "?r1\<lparr>lr_net := on_conn (\<lambda>_. c2) 1 (lr_net ?r1), lr_task := Writing ?q\<rparr>"
  have s2: "lane_step Control 1 ?r1 ?r2"
    by (rule lane_step.recv [OF _ c2(1)]) (simp add: lane_run_new_def)
  obtain cur past n3 where p: "lane_writer_pass Opened (replicate 40 (Wrote 1)) False Control 1 ?q (lr_cur ?r2) (lr_past ?r2) (lr_net ?r2)
        = (Some Continue, Some cur, past, n3)" "n_conns n3 1 = writer_release 39 c2"
  proof -
    have len: "length (concat (lane_prefix Control # deliver_chunks ?d)) \<le> length (replicate 40 (Wrote 1))"
      using deliver_len_chunks [of ?d] by (simp add: payload_of_len lane_prefix_byte)
    have "write_chunks (replicate 40 (Wrote 1)) (lane_prefix Control # deliver_chunks ?d) s =
        (Some (Inr ()), ss_put (concat (lane_prefix Control # deliver_chunks ?d)) s)" for s
      by (rule write_chunks_progress [OF len]) simp
    then show thesis
      by (intro that) (simp add: lane_writer_pass_def lane_write_def open_lane_def lane_run_new_def Let_def, simp)
  qed
  have s3: "lane_step Control 1 ?r2 (?r2\<lparr>lr_net := n3, lr_cur := Some cur, lr_past := past, lr_task := Waiting,
      lr_replaced := lr_replaced ?r2 + (if Some cur = None then 1 else 0)\<rparr>)"
    by (rule lane_step.written [OF _ p(1)]) simp
  have "lr_log ?r1 = [?d]"
    using push by (simp add: lane_accepted_def lane_items_def lane_run_new_def conn_new_def chan_new_def)
  then show ?thesis
    using three_steps [of "lane_step Control 1", OF s1 s2 s3] p(2) c2(2)
    by (intro exI conjI) (assumption, simp_all add: writer_release_def conn_release_def lane_items_def lane_run_new_def)
qed

theorem lane_streams_in_order_witness:
  "\<exists>r :: lane_run. lr_past r = [] \<and> whole Control (lr_cur r) [payload_of 2] \<and> lr_log r = [payload_of 2]"
proof -
  obtain r where r: "(lane_step Control 1)\<^sup>*\<^sup>* (lane_run_new limits_default no_net 1) r" "lr_task r = Waiting"
      "lr_log r = [payload_of 2]" "lr_replaced r = 0" "lane_items Control (n_conns (lr_net r) 1) = []"
    using sample_lane_run by blast
  from lane_streams_in_order [OF r(1) _ outbox_default] r(2-5) show ?thesis by - (rule exI [of _ r], auto)
qed

lemma sample_dispatch:
  "\<exists>d. (dispatcher_step 1)\<^sup>*\<^sup>* (dispatcher_new limits_default no_net 1) d \<and> bd_flight d = [payload_of 2]"
proof -
  let ?f = "payload_of 2" and ?d0 = "dispatcher_new limits_default no_net 1"
  let ?d1 = "?d0\<lparr>bd_free := bd_free ?d0 - 1, bd_holding := True\<rparr>"
  have s1: "dispatcher_step 1 ?d0 ?d1"
    by (rule dispatcher_step.acquire) (simp_all add: dispatcher_new_def)
  let ?c1 = "n_conns (bd_net ?d1) 1" and ?n2 = "on_conn (\<lambda>c. snd (deliver Bulk ?f c)) 1 (bd_net ?d1)"
  let ?d2 = "?d1\<lparr>bd_net := ?n2\<rparr>"
  have s2: "dispatcher_step 1 ?d1 ?d2"
    by (rule dispatcher_step.other [OF conn_step.deliver [OF payload_of_ok, of ?c1 Bulk]])
      (simp_all add: deliver_def bulk_push_def split: prod.splits)
  have "bq_waiting (c_bulk (n_conns ?n2 1)) = [?f]"
    by (simp add: deliver_def bulk_push_def payload_of_len dispatcher_new_def sample_conn_simps bulk_new_def Let_def
        usize_sub_def)
  then obtain c3 where c3: "dispatch_next (n_conns (bd_net ?d2) 1) = Some (?f, c3)"
    by (simp add: dispatch_next_def bulk_next_def)
  have s3: "dispatcher_step 1 ?d2 (?d2\<lparr>bd_net := on_conn (\<lambda>_. c3) 1 (bd_net ?d2), bd_holding := False,
      bd_flight := bd_flight ?d2 @ [?f]\<rparr>)"
    by (rule dispatcher_step.spawn [OF _ _ c3]) (simp_all add: dispatcher_new_def)
  show ?thesis
    using three_steps [of "dispatcher_step 1", OF s1 s2 s3]
    by (intro exI conjI) (assumption, simp add: dispatcher_new_def)
qed

lemma sample_bulk_sent:
  "\<exists>d s. (dispatcher_step 1)\<^sup>*\<^sup>* (dispatcher_new limits_default no_net 1) d
     \<and> (payload_of 2, Some s) \<in> set (bd_sent d) \<and> ss_finished s"
proof -
  obtain d where d: "(dispatcher_step 1)\<^sup>*\<^sup>* (dispatcher_new limits_default no_net 1) d" "bd_flight d = [payload_of 2]"
    using sample_dispatch by blast
  have "write_chunks (replicate 40 (Wrote 1)) (lane_prefix Bulk # deliver_chunks (payload_of 2)) s =
      (Some (Inr ()), ss_put (concat (lane_prefix Bulk # deliver_chunks (payload_of 2))) s)" for s
    using deliver_len_chunks [of "payload_of 2"]
    by (intro write_chunks_progress) (simp_all add: payload_of_len lane_prefix_byte)
  then obtain s where s: "send_bulk Opened (replicate 40 (Wrote 1)) True (payload_of 2) (n_stats (bd_net d))
      = Some (Some s, n_stats (bd_net d))" "ss_finished s"
    by (simp add: send_bulk_def open_lane_def Let_def ss_finish_def)
  have "payload_of 2 \<in> set (bd_flight d)" using d(2) by simp
  from rtranclp.rtrancl_into_rtrancl [OF d(1) dispatcher_step.sent [OF this s(1)]] s(2) show ?thesis
    by (intro exI conjI) (assumption, simp_all)
qed

theorem bulk_streams_bounded_witness:
  "\<exists>d :: dispatcher. bd_flight d = [payload_of 2]
     \<and> bq_bytes (c_bulk (n_conns (bd_net d) 1)) = total_len (bq_waiting (c_bulk (n_conns (bd_net d) 1))) + 39"
proof -
  obtain d where d: "(dispatcher_step 1)\<^sup>*\<^sup>* (dispatcher_new limits_default no_net 1) d" "bd_flight d = [payload_of 2]"
    using sample_dispatch by blast
  from bulk_streams_bounded [OF d(1) outbox_default] d(2) show ?thesis
    by - (rule exI [of _ d], simp add: payload_of_len)
qed

end
