(* ===== verification/Client.thy ===== *)
theory Client
  imports Writers
begin

text \<open>
  The client library, \<open>src/src/client.rs\<close>: sending on the session stream and on the lanes
  (\<open>send_session\<close>, \<open>send_lane\<close>, datagrams) and the two pumps that turn what the server sends into
  frames and deliveries. The QUIC connection's answers are arguments, as for the server's writers;
  an \<open>mpsc\<close> receiver is the list of what it was handed and how much more it takes before it is
  dropped.

  With the server's writers this closes the loop: what a client takes out of its inbox is compared
  with what the server queued for it.
\<close>

section \<open>The pumps\<close>

text \<open>The sending half of an \<open>mpsc\<close> channel: what the receiver was handed, and how many more it
  takes before it goes away (\<open>None\<close>: it stays).\<close>

record 'a outlet =
  o_got :: "'a list"
  o_takes :: "nat option"

definition tx_send :: "'a \<Rightarrow> 'a outlet \<Rightarrow> bool \<times> 'a outlet" where
  "tx_send x t =
     (case o_takes t of
        None \<Rightarrow> (True, t\<lparr>o_got := o_got t @ [x]\<rparr>)
      | Some 0 \<Rightarrow> (False, t)
      | Some (Suc n) \<Rightarrow> (True, t\<lparr>o_got := o_got t @ [x], o_takes := Some n\<rparr>))"

record pump =
  p_partial :: "(topic, member list) hash_map"
  p_tx :: "server_frame outlet"
  p_skipped :: u64

definition pump_new :: pump where
  "pump_new = \<lparr>p_partial = [], p_tx = \<lparr>o_got = [], o_takes = None\<rparr>, p_skipped = 0\<rparr>"

definition skip :: "pump \<Rightarrow> pump" where
  "skip p = p\<lparr>p_skipped := p_skipped p + 1\<rparr>"

text \<open>One decoded frame: \<open>None\<close> for \<open>continue\<close>, \<open>Some\<close> the frame to hand out.\<close>

definition pump_decoded :: "server_frame \<Rightarrow> pump \<Rightarrow> server_frame option \<times> pump" where
  "pump_decoded frame p =
     (case frame of
        Snapshot topic has_more members \<Rightarrow>
          let pending = (case hm_get (p_partial p) topic of None \<Rightarrow> [] | Some ms \<Rightarrow> ms) @ members;
              p1 = p\<lparr>p_partial := hm_insert topic pending (p_partial p)\<rparr>
          in if length pending > 2 * MAX_MEMBERS_PER_TOPIC
             then (None, skip (p1\<lparr>p_partial := hm_remove topic (p_partial p1)\<rparr>))
             else if has_more then (None, p1)
             else (Some (Snapshot topic False pending), p1\<lparr>p_partial := hm_remove topic (p_partial p1)\<rparr>)
      | Deliver _ _ \<Rightarrow> (None, skip p)
      | _ \<Rightarrow> (Some frame, p))"

definition pump_frame :: "(bytes \<Rightarrow> bool) \<Rightarrow> byte \<Rightarrow> bytes \<Rightarrow> pump \<Rightarrow> bool \<times> pump" where
  "pump_frame vk tag body p =
     (case server_decode vk tag body of
        Inl _ \<Rightarrow> (True, skip p)
      | Inr frame \<Rightarrow>
          (case pump_decoded frame p of
             (None, p1) \<Rightarrow> (True, p1)
           | (Some out, p1) \<Rightarrow> (case tx_send out (p_tx p1) of (ok, tx) \<Rightarrow> (ok, p1\<lparr>p_tx := tx\<rparr>))))"

definition pump_frames :: "(bytes \<Rightarrow> bool) \<Rightarrow> reader \<Rightarrow> pump \<Rightarrow> pump" where
  "pump_frames vk r p = fst (snd (read_loop (pump_frame vk) r p))"

record delivery =
  dl_lane :: lane
  dl_topic :: topic
  dl_payload :: bytes

record lane_pump =
  lp_tx :: "delivery outlet"
  lp_skipped :: u64

definition lane_pump_new :: lane_pump where
  "lane_pump_new = \<lparr>lp_tx = \<lparr>o_got = [], o_takes = None\<rparr>, lp_skipped = 0\<rparr>"

definition lane_skip :: "lane_pump \<Rightarrow> lane_pump" where
  "lane_skip p = p\<lparr>lp_skipped := lp_skipped p + 1\<rparr>"

definition pump_lane_frame :: "(bytes \<Rightarrow> bool) \<Rightarrow> lane \<Rightarrow> byte \<Rightarrow> bytes \<Rightarrow> lane_pump \<Rightarrow> bool \<times> lane_pump" where
  "pump_lane_frame vk lane tag body p =
     (let (go, p1) =
        (case server_decode vk tag body of
           Inr (Deliver topic payload) \<Rightarrow>
             (case tx_send \<lparr>dl_lane = lane, dl_topic = topic, dl_payload = payload\<rparr> (lp_tx p) of
                (ok, tx) \<Rightarrow> (ok, p\<lparr>lp_tx := tx\<rparr>))
         | _ \<Rightarrow> (True, lane_skip p))
      in (go \<and> lane \<noteq> Bulk, p1))"

definition pump_lane :: "(bytes \<Rightarrow> bool) \<Rightarrow> reader \<Rightarrow> lane_pump \<Rightarrow> lane_pump" where
  "pump_lane vk r p =
     (case read_lane_byte r of
        (Inr (Some byte), r1) \<Rightarrow>
          (case lane_from_byte byte of
             Some lane \<Rightarrow> fst (snd (read_loop (pump_lane_frame vk lane) r1 p))
           | None \<Rightarrow> lane_skip p)
      | _ \<Rightarrow> p)"

section \<open>Sending\<close>

text \<open>Writing all of a buffer: it succeeds, or fails after so many bytes.\<close>

definition write_all :: "nat option \<Rightarrow> bytes \<Rightarrow> send_stream \<Rightarrow> bool \<times> send_stream" where
  "write_all failure bs s =
     (case failure of None \<Rightarrow> (True, ss_put bs s) | Some n \<Rightarrow> (False, ss_put (take n bs) s))"

datatype client_error = ConnectionClosed | OpenStream | WriteStream

record sfu_client =
  cl_session :: send_stream
  cl_lanes :: "send_stream option list"
  cl_dropped :: "send_stream list"
  cl_bulk :: "send_stream list"
  cl_datagrams :: "bytes list"

text \<open>The client as \<open>connect\<close> returns it.\<close>

definition client_new :: sfu_client where
  "client_new = \<lparr>cl_session = stream_new\<lparr>ss_priority := priority_SESSION\<rparr>, cl_lanes = [None, None],
     cl_dropped = [], cl_bulk = [], cl_datagrams = []\<rparr>"

text \<open>\<open>bind_client\<close>: what is asked of iroh, by an options struct whose unset fields keep iroh's defaults. \<open>'m\<close>: relay
  maps, \<open>'t\<close>: trust anchors, \<open>'k\<close>: secret keys, \<open>'q\<close>: transport settings, \<open>'e\<close>: endpoints. \<open>bind\<close> is iroh's.\<close>

record ('m, 't, 'k, 'q) client_options =
  co_relay_map :: 'm
  co_ca :: "'t option"
  co_alpns :: "bytes list"
  co_secret_key :: "'k option"
  co_relay_only :: bool
  co_transport :: "'q option"

record ('m, 't, 'k, 'q) client_builder =
  cb_relay_map :: 'm
  cb_alpns :: "bytes list"
  cb_ca :: "'t option"
  cb_secret_key :: "'k option"
  cb_ip_transports :: bool
  cb_transport :: "'q option"

definition bind_client :: "(('m, 't, 'k, 'q) client_builder \<Rightarrow> 'e option) \<Rightarrow> ('m, 't, 'k, 'q) client_options \<Rightarrow> 'e option" where
  "bind_client bind options =
     (let b1 = \<lparr>cb_relay_map = co_relay_map options, cb_alpns = co_alpns options, cb_ca = None, cb_secret_key = None,
                cb_ip_transports = True, cb_transport = None\<rparr>;
          b2 = (case co_ca options of None \<Rightarrow> b1 | Some ca \<Rightarrow> b1\<lparr>cb_ca := Some ca\<rparr>);
          b3 = (case co_secret_key options of None \<Rightarrow> b2 | Some key \<Rightarrow> b2\<lparr>cb_secret_key := Some key\<rparr>);
          b4 = (if co_relay_only options then b3\<lparr>cb_ip_transports := False\<rparr> else b3);
          b5 = (case co_transport options of None \<Rightarrow> b4 | Some q \<Rightarrow> b4\<lparr>cb_transport := Some q\<rparr>)
      in bind b5)"

datatype connect_error = DialFailed | SessionStreamFailed

text \<open>\<open>connect\<close>: \<open>dial\<close> is the endpoint's, for an address and a protocol; \<open>can_open\<close> says whether the session
  stream can be opened.\<close>

definition client_connect :: "('a \<Rightarrow> bytes \<Rightarrow> 'c option) \<Rightarrow> ('c \<Rightarrow> bool) \<Rightarrow> 'a \<Rightarrow> connect_error + ('c \<times> sfu_client)" where
  "client_connect dial can_open addr =
     (case dial addr SFU_ALPN of
        None \<Rightarrow> Inl DialFailed
      | Some conn \<Rightarrow> if can_open conn then Inr (conn, client_new) else Inl SessionStreamFailed)"

definition ensure_open :: "bool \<Rightarrow> client_error + unit" where
  "ensure_open closed_conn = (if closed_conn then Inl ConnectionClosed else Inr ())"

definition write_frame :: "nat option \<Rightarrow> bytes \<Rightarrow> send_stream \<Rightarrow> bool \<times> send_stream" where
  "write_frame failure frame send = write_all failure frame send"

definition send_session :: "bool \<Rightarrow> nat option \<Rightarrow> client_frame \<Rightarrow> sfu_client \<Rightarrow> (client_error + unit) \<times> sfu_client" where
  "send_session closed_conn failure frame c =
     (case ensure_open closed_conn of
        Inl e \<Rightarrow> (Inl e, c)
      | Inr _ \<Rightarrow>
          (case write_frame failure (client_encode frame) (cl_session c) of
             (ok, send) \<Rightarrow> (if ok then Inr () else Inl WriteStream, c\<lparr>cl_session := send\<rparr>)))"

text \<open>\<open>send_lane\<close>: \<open>can_open\<close> says whether \<open>open_uni\<close> succeeds. A lane stream on which a write failed
  is dropped (\<open>cl_dropped\<close> keeps what it carried).\<close>

definition send_lane :: "bool \<Rightarrow> bool \<Rightarrow> nat option \<Rightarrow> lane \<Rightarrow> client_frame \<Rightarrow> sfu_client
    \<Rightarrow> (client_error + unit) \<times> sfu_client" where
  "send_lane closed_conn can_open failure lane frame c =
     (case ensure_open closed_conn of
        Inl e \<Rightarrow> (Inl e, c)
      | Inr _ \<Rightarrow>
          let bs = client_encode frame; fresh = stream_new\<lparr>ss_priority := lane_priority lane\<rparr>
          in if lane = Bulk then
               if \<not> can_open then (Inl OpenStream, c)
               else (case write_all failure (lane_prefix lane @ bs) fresh of
                       (True, send) \<Rightarrow> (Inr (), c\<lparr>cl_bulk := cl_bulk c @ [ss_finish send]\<rparr>)
                     | (False, send) \<Rightarrow> (Inl WriteStream, c\<lparr>cl_bulk := cl_bulk c @ [send]\<rparr>))
             else
               (case (case cl_lanes c ! lane_index lane of
                        Some send \<Rightarrow> Inr (write_all failure bs send)
                      | None \<Rightarrow> if \<not> can_open then Inl OpenStream
                                else Inr (write_all failure (lane_prefix lane @ bs) fresh)) of
                  Inl e \<Rightarrow> (Inl e, c)
                | Inr (True, send) \<Rightarrow> (Inr (), c\<lparr>cl_lanes := (cl_lanes c)[lane_index lane := Some send]\<rparr>)
                | Inr (False, send) \<Rightarrow>
                    (Inl WriteStream, c\<lparr>cl_lanes := (cl_lanes c)[lane_index lane := None],
                                        cl_dropped := cl_dropped c @ [send]\<rparr>)))"

definition client_subscribe :: "bool \<Rightarrow> nat option \<Rightarrow> topic \<Rightarrow> sfu_client \<Rightarrow> (client_error + unit) \<times> sfu_client" where
  "client_subscribe closed_conn failure topic = send_session closed_conn failure (Subscribe topic)"

definition client_unsubscribe :: "bool \<Rightarrow> nat option \<Rightarrow> topic \<Rightarrow> sfu_client \<Rightarrow> (client_error + unit) \<times> sfu_client" where
  "client_unsubscribe closed_conn failure topic = send_session closed_conn failure (Unsubscribe topic)"

definition client_announce :: "bool \<Rightarrow> nat option \<Rightarrow> topic \<Rightarrow> bytes \<Rightarrow> sfu_client
    \<Rightarrow> (client_error + unit) \<times> sfu_client" where
  "client_announce closed_conn failure topic blob = send_session closed_conn failure (Announce topic blob)"

definition client_publish :: "bool \<Rightarrow> bool \<Rightarrow> nat option \<Rightarrow> lane \<Rightarrow> topic \<Rightarrow> bytes \<Rightarrow> sfu_client
    \<Rightarrow> (client_error + unit) \<times> sfu_client" where
  "client_publish closed_conn can_open failure lane topic payload =
     send_lane closed_conn can_open failure lane (Publish topic payload)"

definition client_publish_to :: "bool \<Rightarrow> bool \<Rightarrow> nat option \<Rightarrow> lane \<Rightarrow> topic \<Rightarrow> endpoint_id \<Rightarrow> bytes \<Rightarrow> sfu_client
    \<Rightarrow> (client_error + unit) \<times> sfu_client" where
  "client_publish_to closed_conn can_open failure lane topic recipient payload =
     send_lane closed_conn can_open failure lane (PublishTo topic recipient payload)"

definition client_send_datagram :: "bool \<Rightarrow> topic \<Rightarrow> bytes \<Rightarrow> sfu_client \<Rightarrow> bool \<times> sfu_client" where
  "client_send_datagram ok topic payload c =
     (if ok then (True, c\<lparr>cl_datagrams := cl_datagrams c @ [datagram topic payload]\<rparr>) else (False, c))"

text \<open>\<open>read_datagram\<close> over the datagrams that arrive: the first that splits, and those after it.\<close>

fun client_read_datagram :: "bytes list \<Rightarrow> (topic \<times> bytes) option \<times> bytes list" where
  "client_read_datagram [] = (None, [])"
| "client_read_datagram (raw # rest) =
     (case split_datagram raw of Some r \<Rightarrow> (Some r, rest) | None \<Rightarrow> client_read_datagram rest)"

section \<open>What the session pump hands out\<close>

definition pump_step :: "server_frame \<Rightarrow> pump \<Rightarrow> pump" where
  "pump_step f p =
     (case pump_decoded f p of
        (None, p1) \<Rightarrow> p1
      | (Some out, p1) \<Rightarrow> p1\<lparr>p_tx := (p_tx p1)\<lparr>o_got := o_got (p_tx p1) @ [out]\<rparr>\<rparr>)"

lemma pump_decoded_tx: "pump_decoded f p = (out, p1) \<Longrightarrow> p_tx p1 = p_tx p"
  by (auto simp: pump_decoded_def Let_def skip_def split: server_frame.splits if_splits)

lemma pump_frame_step:
  assumes "wf_server_frame vk f" "o_takes (p_tx p) = None"
  shows "pump_frame vk (server_tag f) (server_body f) p = (True, pump_step f p) \<and> o_takes (p_tx (pump_step f p)) = None"
  using server_decode_body [OF assms(1)] assms(2)
  by (auto dest: pump_decoded_tx simp: pump_frame_def pump_step_def tx_send_def split: prod.splits option.splits)

lemma pump_step_grows: "prefix (o_got (p_tx p)) (o_got (p_tx (pump_step f p)))"
  by (auto dest: pump_decoded_tx simp: pump_step_def split: prod.splits option.splits)

lemma pump_fold_grows: "prefix (o_got (p_tx p)) (o_got (p_tx (fold pump_step fs p)))"
  by (induction fs arbitrary: p) (auto intro: prefix_order.order_trans pump_step_grows)

text \<open>\<open>says vk item f\<close>: the queued item stands for the frame \<open>f\<close>, a snapshot for the whole of it.\<close>

definition says :: "(bytes \<Rightarrow> bool) \<Rightarrow> session_item \<Rightarrow> server_frame \<Rightarrow> bool" where
  "says vk item f =
     (case item of
        FrameItem b \<Rightarrow> b = server_encode f \<and> wf_server_frame vk f
          \<and> (case f of Snapshot _ _ _ \<Rightarrow> False | Deliver _ _ \<Rightarrow> False | _ \<Rightarrow> True)
      | SnapshotItem t ms \<Rightarrow> f = Snapshot t False ms \<and> wf_topic t \<and> length ms \<le> 2 * MAX_MEMBERS_PER_TOPIC
          \<and> (\<forall>m \<in> set ms. wf_member vk m \<and> length (m_blob m) \<le> MAX_ANNOUNCE_LEN))"

definition item_wire :: "limits \<Rightarrow> session_item \<Rightarrow> server_frame \<Rightarrow> server_frame list" where
  "item_wire l item f =
     (case item of
        FrameItem _ \<Rightarrow> [f]
      | SnapshotItem t ms \<Rightarrow>
          map (\<lambda>(h, c). Snapshot t h c) (snapshot_plan ms (snapshot_chunk_entries l) (snapshot_chunk_bytes l) 0))"

lemma item_wire_bytes:
  assumes "says vk item f" "snapshot_chunk_bytes l < MAX_FRAME_LEN"
  shows "item_bytes l item = concat (map server_encode (item_wire l item f))"
    and "\<forall>g \<in> set (item_wire l item f). wf_server_frame vk g"
proof -
  have plan: "item_bytes l item = concat (map server_encode (item_wire l item f)) \<and> (\<forall>g \<in> set (item_wire l item f). wf_server_frame vk g)"
  proof (cases item)
    case (FrameItem b)
    then show ?thesis using assms(1) by (simp add: says_def item_chunks_def item_wire_def)
  next
    case (SnapshotItem t ms)
    let ?plan = "snapshot_plan ms (snapshot_chunk_entries l) (snapshot_chunk_bytes l) 0"
    have wf: "wf_server_frame vk (Snapshot t h c)" if "(h, c) \<in> set ?plan" for h c
      using chunk_wf [OF _ _ assms(2) that, of t vk] assms(1) SnapshotItem by (simp add: says_def)
    have "item_bytes l item = concat (map (\<lambda>(h, c). encode_snapshot_chunk t h c) ?plan)"
      by (simp add: SnapshotItem item_chunks_def encode_snapshot_def encode_snapshot_plan)
    also have "\<dots> = concat (map (\<lambda>(h, c). server_encode (Snapshot t h c)) ?plan)"
      using wf by (intro arg_cong [where f = concat] map_cong) auto
    finally show ?thesis using wf by (auto simp: SnapshotItem item_wire_def comp_def split_def)
  qed
  then show "item_bytes l item = concat (map server_encode (item_wire l item f))"
    "\<forall>g \<in> set (item_wire l item f). wf_server_frame vk g" by blast+
qed

text \<open>The chunks of a snapshot leave the pump as one frame, in place.\<close>

lemma pump_fold_chunks:
  assumes "map fst plan = replicate (length plan - 1) True @ [False]" "plan \<noteq> []"
    and "length pre + length (concat (map snd plan)) \<le> 2 * MAX_MEMBERS_PER_TOPIC"
    and "p_partial p = (if first then [] else [(t, pre)])" "first \<Longrightarrow> pre = []"
  shows "fold pump_step (map (\<lambda>(h, c). Snapshot t h c) plan) p =
    p\<lparr>p_partial := [], p_tx := (p_tx p)\<lparr>o_got := o_got (p_tx p) @ [Snapshot t False (pre @ concat (map snd plan))]\<rparr>\<rparr>"
  using assms
proof (induction plan arbitrary: p pre first)
  case Nil
  then show ?case by simp
next
  case (Cons hc plan)
  obtain h c where hc: "hc = (h, c)" by fastforce
  have pend: "(case hm_get (p_partial p) t of None \<Rightarrow> [] | Some ms \<Rightarrow> ms) @ c = pre @ c"
    using Cons.prems(4,5) by (cases first) auto
  have ins: "hm_insert t (pre @ c) (p_partial p) = [(t, pre @ c)]"
    using Cons.prems(4) by (cases first) (simp_all add: hm_insert_def)
  have len: "length (pre @ c) \<le> 2 * MAX_MEMBERS_PER_TOPIC" using Cons.prems(3) hc by simp
  show ?case
  proof (cases "plan = []")
    case True
    then have "h = False" using Cons.prems(1) hc by simp
    with True hc pend ins len show ?thesis
      by (simp add: pump_step_def pump_decoded_def Let_def hm_remove_def del: append_assoc)
  next
    case False
    then obtain m where m: "length plan = Suc m" by (cases plan) auto
    then have h: h and rest: "map fst plan = replicate (length plan - 1) True @ [False]"
      using Cons.prems(1) hc by simp_all
    have "pump_step (Snapshot t h c) p = p\<lparr>p_partial := [(t, pre @ c)]\<rparr>"
      using h pend ins len by (simp add: pump_step_def pump_decoded_def Let_def del: append_assoc)
    with hc Cons.IH [OF rest False, of "pre @ c" "p\<lparr>p_partial := [(t, pre @ c)]\<rparr>" False] Cons.prems(3)
    show ?thesis by simp
  qed
qed

lemma pump_fold_item:
  assumes "says vk item f" "p_partial p = []"
  shows "fold pump_step (item_wire l item f) p =
    p\<lparr>p_tx := (p_tx p)\<lparr>o_got := o_got (p_tx p) @ [f]\<rparr>\<rparr>"
proof (cases item)
  case (FrameItem b)
  then show ?thesis
    using assms by (cases f) (simp_all add: says_def item_wire_def pump_step_def pump_decoded_def)
next
  case (SnapshotItem t ms)
  let ?plan = "snapshot_plan ms (snapshot_chunk_entries l) (snapshot_chunk_bytes l) 0"
  have "concat (map snd ?plan) = ms" using snapshot_plan_union [of 0 ms] by simp
  moreover have "f = Snapshot t False ms" "length ms \<le> 2 * MAX_MEMBERS_PER_TOPIC"
    using assms(1) SnapshotItem by (simp_all add: says_def)
  ultimately show ?thesis
    using pump_fold_chunks [OF snapshot_plan_more snapshot_plan_nonempty, of "[]" ms _ _ 0 p True t] assms(2)
    by (simp add: SnapshotItem item_wire_def)
qed

lemma pump_fold_log:
  assumes "list_all2 (says vk) items fs" "p_partial p = []"
  shows "fold pump_step (concat (map2 (item_wire l) items fs)) p =
    p\<lparr>p_tx := (p_tx p)\<lparr>o_got := o_got (p_tx p) @ fs\<rparr>\<rparr>"
  using assms
proof (induction arbitrary: p rule: list_all2_induct)
  case (Cons item items f fs)
  then show ?case using pump_fold_item [OF Cons(1) Cons.prems] by simp
qed simp

lemma log_wire:
  assumes "list_all2 (says vk) items fs" "snapshot_chunk_bytes l < MAX_FRAME_LEN"
  shows "log_bytes l items = concat (map server_encode (concat (map2 (item_wire l) items fs)))"
    and "\<forall>g \<in> set (concat (map2 (item_wire l) items fs)). wf_server_frame vk g"
  using assms(1) item_wire_bytes [OF _ assms(2)]
  by (induction rule: list_all2_induct) auto

lemma pump_frames_cut:
  assumes "list_all2 (says vk) items fs" "snapshot_chunk_bytes l < MAX_FRAME_LEN"
    and "prefix (stream_bytes rd) (log_bytes l items)" "p_partial p = []" "o_takes (p_tx p) = None"
  shows "prefix (o_got (p_tx (pump_frames vk rd p))) (o_got (p_tx p) @ fs)"
    and "stream_bytes rd = log_bytes l items \<Longrightarrow> pump_frames vk rd p = p\<lparr>p_tx := (p_tx p)\<lparr>o_got := o_got (p_tx p) @ fs\<rparr>\<rparr>"
proof -
  let ?gs = "concat (map2 (item_wire l) items fs)"
  have wf: "\<forall>g \<in> set ?gs. wf_server_frame vk g" using log_wire [OF assms(1,2)] by blast
  have pre: "prefix (stream_bytes rd) (concat (map server_encode ?gs))"
    using assms(3) log_wire(1) [OF assms(1,2)] by simp
  obtain m e r' where m: "read_loop (pump_frame vk) rd p = (e, fold pump_step (take m ?gs) p, r')"
    "\<forall>k. prefix (concat (map server_encode (take k ?gs))) (stream_bytes rd) \<longrightarrow> k \<le> m \<or> length ?gs \<le> m"
    using server.read_loop_cut [of ?gs vk "\<lambda>p. o_takes (p_tx p) = None" "pump_frame vk" pump_step, OF wf _ pre assms(5)]
      pump_frame_step wf by blast
  have all: "fold pump_step ?gs p = p\<lparr>p_tx := (p_tx p)\<lparr>o_got := o_got (p_tx p) @ fs\<rparr>\<rparr>"
    using pump_fold_log [OF assms(1,4)] .
  have "fold pump_step ?gs p = fold pump_step (drop m ?gs) (fold pump_step (take m ?gs) p)"
    by (metis append_take_drop_id comp_apply fold_append)
  with pump_fold_grows [of "fold pump_step (take m ?gs) p" "drop m ?gs"] all m(1)
  show "prefix (o_got (p_tx (pump_frames vk rd p))) (o_got (p_tx p) @ fs)"
    by (simp add: pump_frames_def)
  assume "stream_bytes rd = log_bytes l items"
  then have "length ?gs \<le> m"
    using m(2) [rule_format, of "length ?gs"] log_wire(1) [OF assms(1,2)] by simp
  then show "pump_frames vk rd p = p\<lparr>p_tx := (p_tx p)\<lparr>o_got := o_got (p_tx p) @ fs\<rparr>\<rparr>"
    using m(1) all by (simp add: pump_frames_def)
qed

section \<open>What a lane pump hands out\<close>

definition lane_pump_step :: "lane \<Rightarrow> server_frame \<Rightarrow> lane_pump \<Rightarrow> lane_pump" where
  "lane_pump_step lane f p =
     (case f of
        Deliver t b \<Rightarrow> p\<lparr>lp_tx := (lp_tx p)\<lparr>o_got := o_got (lp_tx p) @ [\<lparr>dl_lane = lane, dl_topic = t, dl_payload = b\<rparr>]\<rparr>\<rparr>
      | _ \<Rightarrow> lane_skip p)"

lemma pump_lane_frame_step:
  assumes "wf_server_frame vk f" "o_takes (lp_tx p) = None"
  shows "pump_lane_frame vk lane (server_tag f) (server_body f) p = (lane \<noteq> Bulk, lane_pump_step lane f p)
    \<and> o_takes (lp_tx (lane_pump_step lane f p)) = None"
  using server_decode_body [OF assms(1)] assms(2)
  by (cases f) (auto simp: pump_lane_frame_def lane_pump_step_def tx_send_def lane_skip_def)

text \<open>A delivery queued for a topic and payload.\<close>

definition says_deliver :: "deliver \<Rightarrow> topic \<times> bytes \<Rightarrow> bool" where
  "says_deliver d tp \<longleftrightarrow> d = deliver_new (topic_bytes (fst tp)) (snd tp) \<and> wf_topic (fst tp)
     \<and> 33 + length (snd tp) \<le> MAX_FRAME_LEN"

definition delivery_of :: "lane \<Rightarrow> topic \<times> bytes \<Rightarrow> delivery" where
  "delivery_of lane tp = \<lparr>dl_lane = lane, dl_topic = fst tp, dl_payload = snd tp\<rparr>"

abbreviation deliver_frame :: "topic \<times> bytes \<Rightarrow> server_frame" where
  "deliver_frame tp \<equiv> Deliver (fst tp) (snd tp)"

lemma says_deliver_frame:
  assumes "says_deliver d tp"
  shows "deliver_bytes d = server_encode (deliver_frame tp)" "wf_server_frame vk (deliver_frame tp)"
  using assms deliver_new_bytes by (simp_all add: says_deliver_def)

lemma lane_bytes_frames:
  assumes "list_all2 says_deliver ds tps"
  shows "lane_bytes lane ds = lane_byte lane # concat (map server_encode (map deliver_frame tps))"
    and "\<forall>f \<in> set (map deliver_frame tps). wf_server_frame vk f"
proof -
  have "concat (map deliver_bytes ds) = concat (map server_encode (map deliver_frame tps))"
    using assms by (induction rule: list_all2_induct) (simp_all add: says_deliver_frame(1))
  then show "lane_bytes lane ds = lane_byte lane # concat (map server_encode (map deliver_frame tps))"
    by (simp add: lane_bytes_def lane_prefix_byte)
  show "\<forall>f \<in> set (map deliver_frame tps). wf_server_frame vk f"
    using assms says_deliver_frame(2) by (induction rule: list_all2_induct) (simp_all add: says_deliver_def)
qed

lemma lane_pump_fold:
  "fold (lane_pump_step lane) (map deliver_frame tps) p =
     p\<lparr>lp_tx := (lp_tx p)\<lparr>o_got := o_got (lp_tx p) @ map (delivery_of lane) tps\<rparr>\<rparr>"
  by (induction tps arbitrary: p) (simp_all add: lane_pump_step_def delivery_of_def)

lemma pump_lane_long:
  assumes "list_all2 says_deliver ds tps" "lane \<noteq> Bulk" "prefix (stream_bytes rd) (lane_bytes lane ds)"
    and "o_takes (lp_tx p) = None" "stream_bytes rd \<noteq> []"
  obtains m where "pump_lane vk rd p = p\<lparr>lp_tx := (lp_tx p)\<lparr>o_got := o_got (lp_tx p) @ map (delivery_of lane) (take m tps)\<rparr>\<rparr>"
    "\<And>k. prefix (lane_bytes lane (take k ds)) (stream_bytes rd) \<Longrightarrow> k \<le> m \<or> length tps \<le> m"
proof -
  let ?fs = "map deliver_frame tps"
  note lb = lane_bytes_frames(1) [OF assms(1), of lane] and wf = lane_bytes_frames(2) [OF assms(1), of vk]
  from assms(3,5) obtain bs where bs: "stream_bytes rd = lane_byte lane # bs" "prefix bs (concat (map server_encode ?fs))"
    unfolding lb by (cases "stream_bytes rd") auto
  from read_lane_byte_Cons [OF bs(1)] obtain r1 where r1: "read_lane_byte rd = (Inr (Some (lane_byte lane)), r1)" "stream_bytes r1 = bs"
    by blast
  have step: "pump_lane_frame vk lane (server_tag f) (server_body f) s = (True, lane_pump_step lane f s)
      \<and> o_takes (lp_tx (lane_pump_step lane f s)) = None" if "f \<in> set ?fs" "o_takes (lp_tx s) = None" for f s
    using pump_lane_frame_step [OF bspec [OF wf that(1)] that(2), of lane] assms(2) by simp
  obtain m e r' where m: "read_loop (pump_lane_frame vk lane) r1 p = (e, fold (lane_pump_step lane) (take m ?fs) p, r')"
    "\<forall>k. prefix (concat (map server_encode (take k ?fs))) bs \<longrightarrow> k \<le> m \<or> length ?fs \<le> m"
    using server.read_loop_cut [of ?fs vk "\<lambda>p. o_takes (lp_tx p) = None" "pump_lane_frame vk lane" "lane_pump_step lane" r1 p,
        OF wf step] bs(2) r1(2) assms(4) by auto
  show thesis
  proof (rule that)
    show "pump_lane vk rd p = p\<lparr>lp_tx := (lp_tx p)\<lparr>o_got := o_got (lp_tx p) @ map (delivery_of lane) (take m tps)\<rparr>\<rparr>"
      using m(1) r1(1) lane_pump_fold [of lane "take m tps" p] by (simp add: pump_lane_def take_map)
    show "k \<le> m \<or> length tps \<le> m" if "prefix (lane_bytes lane (take k ds)) (stream_bytes rd)" for k
    proof -
      have "list_all2 says_deliver (take k ds) (take k tps)" using assms(1) by (rule list_all2_takeI)
      from lane_bytes_frames(1) [OF this, of lane] that m(2) bs(1) show ?thesis by (simp add: take_map)
    qed
  qed
qed

lemma pump_lane_bulk:
  assumes "says_deliver d tp" "stream_bytes rd = lane_bytes Bulk [d] @ rest" "o_takes (lp_tx p) = None"
  shows "pump_lane vk rd p = p\<lparr>lp_tx := (lp_tx p)\<lparr>o_got := o_got (lp_tx p) @ [delivery_of Bulk tp]\<rparr>\<rparr>"
proof -
  have "stream_bytes rd = lane_byte Bulk # server_encode (deliver_frame tp) @ rest"
    using assms(2) says_deliver_frame(1) [OF assms(1)] by (simp add: lane_bytes_def lane_prefix_byte)
  from read_lane_byte_Cons [OF this] obtain r1 where r1: "read_lane_byte rd = (Inr (Some (lane_byte Bulk)), r1)"
      "stream_bytes r1 = server_encode (deliver_frame tp) @ rest" by blast
  note wf = says_deliver_frame(2) [OF assms(1), of vk]
  from server.read_frame_enc [OF wf r1(2)] obtain r2 where
    "read_frame r1 = (Inr (Some (server_tag (deliver_frame tp), server_body (deliver_frame tp))), r2)" by blast
  then show ?thesis
    using r1(1) pump_lane_frame_step [OF wf assms(3), of Bulk]
    by (simp add: pump_lane_def read_loop.simps [of _ r1] lane_pump_step_def delivery_of_def
        del: lane_byte.simps)
qed

lemma list_all2_subseq:
  assumes "list_all2 P ys zs" "subseq xs ys"
  shows "\<exists>ws. list_all2 P xs ws \<and> subseq ws zs"
  using assms(2,1)
proof (induction arbitrary: zs rule: list_emb.induct)
  case (list_emb_Nil ys)
  show ?case by (intro exI [of _ "[]"]) simp
next
  case (list_emb_Cons xs ys y)
  then obtain z zs' where z: "zs = z # zs'" "list_all2 P ys zs'" by (auto simp: list_all2_Cons1)
  from list_emb_Cons.IH [OF z(2)] z(1) show ?case by auto
next
  case (list_emb_Cons2 x y xs ys)
  then obtain z zs' where z: "zs = z # zs'" "P x z" "list_all2 P ys zs'" by (auto simp: list_all2_Cons1)
  from list_emb_Cons2.IH [OF z(3)] obtain ws where "list_all2 P xs ws" "subseq ws zs'" by blast
  with z show ?case by (intro exI [of _ "z # ws"]) auto
qed

lemma subseq_concat: "xs \<in> set xss \<Longrightarrow> subseq xs (concat xss)"
  by (auto dest!: split_list intro: list_emb_append2 list_emb_prefix)

lemma pump_lane_whole:
  assumes "whole lane (Some s) ds" "lane \<noteq> Bulk" "list_all2 says_deliver ds tps" "stream_bytes rd = ss_written s"
  shows "pump_lane vk rd lane_pump_new = lane_pump_new\<lparr>lp_tx := (lp_tx lane_pump_new)\<lparr>o_got := map (delivery_of lane) tps\<rparr>\<rparr>"
proof -
  have w: "stream_bytes rd = lane_bytes lane ds" "stream_bytes rd \<noteq> []"
    using assms(1,4) by (auto simp: whole_def lane_bytes_def lane_prefix_byte)
  from pump_lane_long [OF assms(3,2) _ _ w(2), of lane_pump_new vk] obtain m where
    m: "pump_lane vk rd lane_pump_new = lane_pump_new\<lparr>lp_tx := (lp_tx lane_pump_new)\<lparr>o_got := o_got (lp_tx lane_pump_new)
        @ map (delivery_of lane) (take m tps)\<rparr>\<rparr>"
    "\<And>k. prefix (lane_bytes lane (take k ds)) (stream_bytes rd) \<Longrightarrow> k \<le> m \<or> length tps \<le> m"
    using w(1) by (auto simp: lane_pump_new_def)
  have "length tps \<le> m" using m(2) [of "length ds"] w(1) list_all2_lengthD [OF assms(3)] by simp
  with m(1) show ?thesis by (simp add: lane_pump_new_def)
qed

lemma pump_lane_carried:
  assumes "carries lane s ds" "lane \<noteq> Bulk" "list_all2 says_deliver ds tps" "stream_bytes rd = ss_written s"
  shows "subseq (o_got (lp_tx (pump_lane vk rd lane_pump_new))) (map (delivery_of lane) tps)"
proof (cases "stream_bytes rd = []")
  case True
  from read_lane_byte_Nil [OF this] show ?thesis
    by (cases "read_lane_byte rd") (auto simp: pump_lane_def lane_pump_new_def split: sum.splits option.splits)
next
  case False
  have "prefix (stream_bytes rd) (lane_bytes lane ds)" using assms(1,4) by (simp add: carries_def)
  from pump_lane_long [OF assms(3,2) this _ False, of lane_pump_new vk] obtain m where
    "pump_lane vk rd lane_pump_new = lane_pump_new\<lparr>lp_tx := (lp_tx lane_pump_new)\<lparr>o_got := o_got (lp_tx lane_pump_new)
        @ map (delivery_of lane) (take m tps)\<rparr>\<rparr>" by (auto simp: lane_pump_new_def)
  moreover have "subseq (take m tps) tps" by (metis append_take_drop_id list_emb_prefix subseq_order.order_refl)
  ultimately show ?thesis by (simp add: lane_pump_new_def subseq_map)
qed

section \<open>Properties\<close>

text \<open>C8: the session, end to end. Whatever the handles of a connection queue while its session
  writer runs, and however the stream answers, a client that reads the stream takes out of its
  inbox a prefix of exactly those frames, in order, each snapshot whole; once the stream is finished
  it has taken out all of them and skipped nothing.\<close>

theorem session_end_to_end:
  assumes "(session_step l k)\<^sup>*\<^sup>* (session_run_new l n k) r" "outbox_bytes l < 2 ^ 63" "bulk_outbox_bytes l < 2 ^ 63"
    and "snapshot_chunk_bytes l < MAX_FRAME_LEN" "list_all2 (says vk) (sr_log r) fs"
    and "stream_bytes rd = ss_written (sr_send r)"
  shows "prefix (o_got (p_tx (pump_frames vk rd pump_new))) fs
    \<and> (ss_finished (sr_send r) \<longrightarrow>
         o_got (p_tx (pump_frames vk rd pump_new)) = fs \<and> p_skipped (pump_frames vk rd pump_new) = 0)"
proof -
  have inv: "prefix (stream_bytes rd) (log_bytes l (sr_log r))"
      "ss_finished (sr_send r) \<longrightarrow> stream_bytes rd = log_bytes l (sr_log r)"
    using session_reach_inv [OF assms(1-3)] by (auto simp: assms(6) session_inv_def split: task.splits)
  show ?thesis using pump_frames_cut [OF assms(5,4) inv(1), of pump_new] inv(2) by (auto simp: pump_new_def)
qed

text \<open>C9: the lanes, end to end. From every stream a lane writer opened, a client takes out
  deliveries that the lane's queue accepted, in that order, tagged with the lane; while no stream
  was replaced, the one stream gives every delivery taken from the queue so far, and nothing is
  skipped.\<close>

theorem lane_end_to_end:
  assumes "(lane_step lane k)\<^sup>*\<^sup>* (lane_run_new l n k) r" "lane \<noteq> Bulk"
    and "outbox_bytes l < 2 ^ 63" "bulk_outbox_bytes l < 2 ^ 63"
    and "list_all2 says_deliver (lr_log r) tps"
    and "s \<in> set (lr_past r) \<or> lr_cur r = Some s" "stream_bytes rd = ss_written s"
  shows "subseq (o_got (lp_tx (pump_lane vk rd lane_pump_new))) (map (delivery_of lane) tps)
    \<and> (lr_task r = Waiting \<and> lr_replaced r = 0 \<longrightarrow>
        o_got (lp_tx (pump_lane vk rd lane_pump_new)) =
          map (delivery_of lane) (take (length tps - length (lane_items lane (n_conns (lr_net r) k))) tps)
        \<and> lp_skipped (pump_lane vk rd lane_pump_new) = 0)"
proof (intro conjI impI)
  note inv = lane_reach_inv [OF assms(1-4)]
  show "subseq (o_got (lp_tx (pump_lane vk rd lane_pump_new))) (map (delivery_of lane) tps)"
  proof -
    obtain segs where segs: "list_all2 (carries lane) (lr_past r @ (case lr_cur r of None \<Rightarrow> [] | Some s \<Rightarrow> [s])) segs"
        "subseq (concat segs) (lr_log r)" using lane_inv_streams [OF inv] by blast
    have "s \<in> set (lr_past r @ (case lr_cur r of None \<Rightarrow> [] | Some s \<Rightarrow> [s]))" using assms(6) by auto
    with segs(1) obtain seg where seg: "seg \<in> set segs" "carries lane s seg"
      by (metis in_set_conv_nth list_all2_conv_all_nth)
    have "subseq seg (lr_log r)" using subseq_concat [OF seg(1)] segs(2) subseq_order.order_trans by blast
    from list_all2_subseq [OF assms(5) this] obtain ws where "list_all2 says_deliver seg ws" "subseq ws tps" by blast
    with pump_lane_carried [OF seg(2) assms(2) _ assms(7), of ws vk] show ?thesis
      using subseq_map subseq_order.order_trans by blast
  qed
  assume w: "lr_task r = Waiting \<and> lr_replaced r = 0"
  obtain taken where t: "lr_past r = []" "lr_log r = taken @ map q_item (lane_items lane (n_conns (lr_net r) k))"
      "whole lane (lr_cur r) taken" using inv w by (auto simp: lane_inv_def)
  with assms(5) obtain tp1 tp2 where tp: "tps = tp1 @ tp2" "list_all2 says_deliver taken tp1"
      "length tp2 = length (lane_items lane (n_conns (lr_net r) k))"
    by (auto simp: list_all2_append1 dest: list_all2_lengthD)
  have "whole lane (Some s) taken" using t assms(6) by auto
  note out = pump_lane_whole [OF this assms(2) tp(2) assms(7), of vk]
  show "o_got (lp_tx (pump_lane vk rd lane_pump_new)) =
      map (delivery_of lane) (take (length tps - length (lane_items lane (n_conns (lr_net r) k))) tps)"
    "lp_skipped (pump_lane vk rd lane_pump_new) = 0"
    unfolding out using tp by (simp_all add: lane_pump_new_def)
qed

text \<open>C28: bulk, end to end. From every bulk stream that was finished the client takes exactly the one
  delivery it was opened for, and whatever else is on a bulk stream is not read.\<close>

theorem bulk_end_to_end:
  assumes "(dispatcher_step k)\<^sup>*\<^sup>* (dispatcher_new l n k) d" "outbox_bytes l < 2 ^ 63" "bulk_outbox_bytes l < 2 ^ 63"
    and "(f, Some s) \<in> set (bd_sent d)" "ss_finished s" "says_deliver f tp" "stream_bytes rd = ss_written s @ rest"
  shows "o_got (lp_tx (pump_lane vk rd lane_pump_new)) = [delivery_of Bulk tp]
    \<and> lp_skipped (pump_lane vk rd lane_pump_new) = 0"
proof -
  have "ss_written s = lane_bytes Bulk [f]"
    using dispatcher_reach_inv [OF assms(1-3)] assms(4,5) by (auto simp: dispatcher_inv_def)
  with pump_lane_bulk [OF assms(6), of rd rest lane_pump_new vk] assms(7) show ?thesis
    by (simp add: lane_pump_new_def)
qed

text \<open>The frames a client wrote on a lane, as the server's reader handles them.\<close>

definition send_frames :: "lane \<Rightarrow> client_frame list \<Rightarrow> sfu_client \<Rightarrow> sfu_client" where
  "send_frames lane fs c = fold (\<lambda>f c. snd (send_lane False True None lane f c)) fs c"

lemma send_frames_stream:
  assumes "lane \<noteq> Bulk" "length (cl_lanes c) = 2" "fs \<noteq> []"
  shows "\<exists>s. cl_lanes (send_frames lane fs c) ! lane_index lane = Some s
    \<and> ss_written s = (case cl_lanes c ! lane_index lane of None \<Rightarrow> [lane_byte lane] | Some s0 \<Rightarrow> ss_written s0)
        @ concat (map client_encode fs)"
  using assms(2,3)
proof (induction fs arbitrary: c)
  case (Cons f fs)
  have i: "lane_index lane < length (cl_lanes c)" using assms(1) Cons.prems(1) by (cases lane) auto
  let ?c = "snd (send_lane False True None lane f c)"
  obtain s where s: "cl_lanes ?c = (cl_lanes c)[lane_index lane := Some s]"
      "ss_written s = (case cl_lanes c ! lane_index lane of None \<Rightarrow> [lane_byte lane] | Some s0 \<Rightarrow> ss_written s0) @ client_encode f"
    using assms(1)
    by (cases "cl_lanes c ! lane_index lane")
      (auto simp: send_lane_def ensure_open_def write_all_def stream_new_def lane_prefix_byte)
  show ?case
  proof (cases "fs = []")
    case True
    then show ?thesis using s i by (simp add: send_frames_def)
  next
    case False
    from Cons.IH [of ?c, OF _ False] s i Cons.prems(1) show ?thesis by (simp add: send_frames_def)
  qed
qed simp

text \<open>C29: an oversized snapshot is dropped in the middle but its last chunk is then handed out as if it
  were the whole room: once a partial snapshot exceeds twice the member cap it is forgotten, and the
  next chunk without MORE comes out as a complete snapshot that holds only its own entries.\<close>

theorem pump_oversized_tail:
  assumes "hm_get (p_partial p) t = Some pending" "2 * MAX_MEMBERS_PER_TOPIC < length pending + length ms"
    and "length rest \<le> 2 * MAX_MEMBERS_PER_TOPIC"
  shows "o_got (p_tx (pump_step (Snapshot t False rest) (pump_step (Snapshot t True ms) p)))
      = o_got (p_tx p) @ [Snapshot t False rest]
    \<and> p_skipped (pump_step (Snapshot t False rest) (pump_step (Snapshot t True ms) p)) = p_skipped p + 1"
  using assms
  by (simp add: pump_step_def pump_decoded_def Let_def skip_def hash_simps)

definition sample_joined :: server_frame where
  "sample_joined = Joined (Topic (replicate 32 5)) (EndpointId (replicate 32 9))"

lemma sample_joined_says: "says (\<lambda>_. True) (FrameItem (server_encode sample_joined)) sample_joined"
  by (simp add: says_def sample_joined_def wf_topic_def wf_id_def)

lemma sample_joined_len: "length (server_encode sample_joined) = 69"
  by (simp add: sample_joined_def encode_def frame_header_def)

lemma chunk_bytes_default: "snapshot_chunk_bytes limits_default < MAX_FRAME_LEN"
  by (simp add: limits_default_def SNAPSHOT_CHUNK_BYTES_def MAX_FRAME_LEN_value)

theorem session_end_to_end_witness:
  "\<exists>r :: session_run. o_got (p_tx (pump_frames (\<lambda>_. True) \<lparr>segs = [ss_written (sr_send r)], tail = Eof\<rparr> pump_new)) = [sample_joined]"
proof -
  obtain r where r: "(session_step limits_default 1)\<^sup>*\<^sup>* (session_run_new limits_default no_net 1) r"
      "sr_log r = [FrameItem (server_encode sample_joined)]" "ss_finished (sr_send r)"
    using sample_session_finished [of "server_encode sample_joined"] sample_joined_len by auto
  from session_end_to_end [OF r(1) outbox_default chunk_bytes_default, where vk = "\<lambda>_. True" and fs = "[sample_joined]"
      and rd = "\<lparr>segs = [ss_written (sr_send r)], tail = Eof\<rparr>"] sample_joined_says r(2,3)
  show ?thesis by - (rule exI [of _ r], auto simp: stream_bytes_def)
qed

lemma payload_says: "says_deliver (payload_of 2) (Topic (replicate 32 1), replicate 2 0)"
  by (simp add: says_deliver_def payload_of_def wf_topic_def MAX_FRAME_LEN_value)

theorem lane_end_to_end_witness:
  "\<exists>s :: send_stream. o_got (lp_tx (pump_lane (\<lambda>_. True) \<lparr>segs = [ss_written s], tail = Eof\<rparr> lane_pump_new))
     = [delivery_of Control (Topic (replicate 32 1), replicate 2 0)]"
proof -
  obtain r where r: "(lane_step Control 1)\<^sup>*\<^sup>* (lane_run_new limits_default no_net 1) r" "lr_task r = Waiting"
      "lr_log r = [payload_of 2]" "lr_replaced r = 0" "lane_items Control (n_conns (lr_net r) 1) = []"
    using sample_lane_run by blast
  have "whole Control (lr_cur r) [payload_of 2]"
    using lane_reach_inv [OF r(1) _ outbox_default] r(2-5) by (auto simp: lane_inv_def)
  then obtain s where "lr_cur r = Some s" by (cases "lr_cur r") (auto simp: whole_def)
  with lane_end_to_end [OF r(1) _ outbox_default, where s = s and tps = "[(Topic (replicate 32 1), replicate 2 0)]"
      and rd = "\<lparr>segs = [ss_written s], tail = Eof\<rparr>" and vk = "\<lambda>_. True"] payload_says r(2-5)
  show ?thesis by - (rule exI [of _ s], auto simp: stream_bytes_def)
qed

theorem bulk_end_to_end_witness:
  "\<exists>s :: send_stream. o_got (lp_tx (pump_lane (\<lambda>_. True) \<lparr>segs = [ss_written s @ [1, 2]], tail = Eof\<rparr> lane_pump_new))
     = [delivery_of Bulk (Topic (replicate 32 1), replicate 2 0)]"
proof -
  obtain d s where d: "(dispatcher_step 1)\<^sup>*\<^sup>* (dispatcher_new limits_default no_net 1) d"
      "(payload_of 2, Some s) \<in> set (bd_sent d)" "ss_finished s" using sample_bulk_sent by blast
  from bulk_end_to_end [OF d(1) outbox_default d(2,3) payload_says, where rest = "[1, 2]"
      and rd = "\<lparr>segs = [ss_written s @ [1, 2]], tail = Eof\<rparr>" and vk = "\<lambda>_. True"] show ?thesis
    by - (rule exI [of _ s], auto simp: stream_bytes_def)
qed

theorem pump_oversized_tail_witness:
  "o_got (p_tx (pump_step (Snapshot (Topic []) False []) (pump_step (Snapshot (Topic []) True [\<lparr>m_id = EndpointId [], m_blob = []\<rparr>])
      (pump_new\<lparr>p_partial := [(Topic [], replicate 2048 \<lparr>m_id = EndpointId [], m_blob = []\<rparr>)]\<rparr>))))
    = [Snapshot (Topic []) False []]"
  using pump_oversized_tail [of "pump_new\<lparr>p_partial := [(Topic [], replicate 2048 \<lparr>m_id = EndpointId [], m_blob = []\<rparr>)]\<rparr>"
      "Topic []" "replicate 2048 \<lparr>m_id = EndpointId [], m_blob = []\<rparr>" "[\<lparr>m_id = EndpointId [], m_blob = []\<rparr>]" "[]"]
  by (simp add: pump_new_def MAX_MEMBERS_PER_TOPIC_def)

end
