(* ===== verification/Typing.thy ===== *)
theory Typing
  imports Server Client
begin

text \<open>
  The server speaks the protocol: whatever it queues for a client, on any queue and in any reachable state,
  stands for a well-formed frame that the client decodes. The predicates follow the data (an item, a
  connection's queues, all connections, the members of the rooms); every operation of \<open>src/src/server.rs\<close>
  that queues something keeps them.

  iroh's part is a hypothesis on the environment: its error text for an invalid id is a Rust string, and a
  short one.
\<close>

declare reason_text.simps [simp del]

section \<open>Well-formed queues\<close>

definition item_typed :: "(bytes \<Rightarrow> bool) \<Rightarrow> session_item \<Rightarrow> bool" where
  "item_typed vk item \<longleftrightarrow> (\<exists>f. says vk item f)"

definition deliver_typed :: "deliver \<Rightarrow> bool" where
  "deliver_typed d \<longleftrightarrow> (\<exists>tp. says_deliver d tp)"

definition conn_typed :: "(bytes \<Rightarrow> bool) \<Rightarrow> conn \<Rightarrow> bool" where
  "conn_typed vk c \<longleftrightarrow>
     (\<forall>q \<in> set (ch_items (c_session c)). item_typed vk (q_item q))
     \<and> (\<forall>ch \<in> set (c_lanes c). \<forall>q \<in> set (ch_items ch). deliver_typed (q_item q))
     \<and> (\<forall>d \<in> set (bq_waiting (c_bulk c)). deliver_typed d)"

definition net_typed :: "(bytes \<Rightarrow> bool) \<Rightarrow> net \<Rightarrow> bool" where
  "net_typed vk n \<longleftrightarrow> (\<forall>k. conn_typed vk (n_conns n k))"

text \<open>Who may be a member: endpoints with a valid id.\<close>

definition rooms_typed :: "(bytes \<Rightarrow> bool) \<Rightarrow> rooms \<Rightarrow> bool" where
  "rooms_typed vk rs \<longleftrightarrow> (\<forall>t i e. presence rs t i = Some e \<longrightarrow> wf_id vk i)"

definition env_typed :: "env \<Rightarrow> bool" where
  "env_typed ev \<longleftrightarrow> valid_utf8 (ev_key_error ev) \<and> length (ev_key_error ev) \<le> 1000"

section \<open>The queues of one connection\<close>

lemma conn_typed_new: "conn_typed vk (conn_new l)"
  by (simp add: conn_typed_def conn_new_def chan_new_def bulk_new_def)

lemma conn_typed_cong:
  "c_session c' = c_session c \<Longrightarrow> c_lanes c' = c_lanes c \<Longrightarrow> c_bulk c' = c_bulk c \<Longrightarrow> conn_typed vk c' = conn_typed vk c"
  by (simp add: conn_typed_def)

lemma conn_typed_hand [simp]: "conn_typed vk (c\<lparr>c_hand := hs\<rparr>) = conn_typed vk c"
  by (simp add: conn_typed_def)

lemma reserve_queues [simp]:
  "c_session (snd (reserve n c)) = c_session c" "c_lanes (snd (reserve n c)) = c_lanes c"
  "c_bulk (snd (reserve n c)) = c_bulk c"
  by (simp_all add: reserve_def Let_def conn_release_def conn_close_def)

lemma conn_typed_reserve: "reserve n c = (ok, c1) \<Longrightarrow> conn_typed vk c1 = conn_typed vk c"
  using reserve_queues [of n c] by (intro conn_typed_cong) simp_all

lemma conn_typed_release: "conn_typed vk (conn_release n c) = conn_typed vk c"
  by (intro conn_typed_cong) (simp_all add: conn_release_def)

lemma push_session_typed:
  assumes "conn_typed vk c" "item_typed vk item"
  shows "conn_typed vk (push_session item n c)"
proof -
  obtain ok c1 where r: "reserve n c = (ok, c1)" by fastforce
  then have "conn_typed vk c1" using assms(1) conn_typed_reserve by blast
  then show ?thesis
    using assms(2) r
    by (auto simp: push_session_def conn_release_def chan_send_def conn_typed_def split: if_splits)
qed

lemma drop_oldest_subset: "drop_oldest budget sz ws wb b = (n, ws', wb', b') \<Longrightarrow> set ws' \<subseteq> set ws"
  by (induction budget sz ws wb b arbitrary: n rule: drop_oldest.induct) (auto split: if_splits prod.splits)

lemma bulk_push_typed:
  assumes "\<forall>d \<in> set (bq_waiting q). deliver_typed d" "deliver_typed f"
  shows "\<forall>d \<in> set (bq_waiting (snd (bulk_push f q))). deliver_typed d"
proof -
  obtain n ws wb b where d: "drop_oldest (bq_budget q) (deliver_len f) (bq_waiting q) (bq_waiting_bytes q) (bq_bytes q) = (n, ws, wb, b)"
    by (metis prod_cases4)
  show ?thesis using drop_oldest_subset [OF d] assms d by (auto simp: bulk_push_def Let_def)
qed

lemma conn_typed_lanes:
  assumes "conn_typed vk c" "\<forall>q \<in> set (ch_items ch). deliver_typed (q_item q)"
  shows "conn_typed vk (c\<lparr>c_lanes := (c_lanes c)[i := ch]\<rparr>)"
  using assms set_update_subset_insert [of "c_lanes c" i ch] unfolding conn_typed_def by auto

lemma conn_typed_lane: "conn_typed vk c \<Longrightarrow> i < length (c_lanes c) \<Longrightarrow> \<forall>q \<in> set (ch_items (c_lanes c ! i)). deliver_typed (q_item q)"
  by (auto simp: conn_typed_def)

lemma deliver_keeps_typed:
  assumes "conn_typed vk c" "deliver_typed f" "length (c_lanes c) = 2"
  shows "conn_typed vk (snd (deliver lane f c))"
proof (cases "lane = Bulk")
  case True
  then show ?thesis
    using assms(1) bulk_push_typed [OF _ assms(2), of "c_bulk c"] by (auto simp: deliver_def conn_typed_def split: prod.splits)
next
  case False
  obtain ok c1 where r: "reserve (deliver_len f) c = (ok, c1)" by fastforce
  have c1: "conn_typed vk c1" "length (c_lanes c1) = 2"
    using assms conn_typed_reserve [OF r] reserve_queues(2) [of "deliver_len f" c] r by simp_all
  have i: "lane_index lane < 2" using False by (cases lane) simp_all
  have d: "snd (deliver lane f c) = (let (sent, ch) = chan_send \<lparr>q_item = f, q_size = deliver_len f\<rparr> (c_lanes c1 ! lane_index lane)
      in if \<not> ok then c1 else if sent then c1\<lparr>c_lanes := (c_lanes c1)[lane_index lane := ch]\<rparr> else conn_release (deliver_len f) c1)"
    using False r by (cases lane) (simp_all add: deliver_def split: prod.splits)
  show ?thesis
    using c1 i assms(2) conn_typed_lane [OF c1(1), of "lane_index lane"]
    by (auto simp: d chan_send_def Let_def conn_typed_release intro!: conn_typed_lanes split: if_splits)
qed

text \<open>Whoever takes from the queues leaves what is well formed.\<close>

lemma writer_step_typed: "writer_step c c' \<Longrightarrow> conn_typed vk c \<Longrightarrow> conn_typed vk c'"
proof (induction rule: writer_step.induct)
  case (1 c q c')
  then show ?case by (auto simp: session_recv_def conn_typed_def split: list.splits)
next
  case (2 lane c d c')
  from 2 obtain q qs where q: "ch_items (c_lanes c ! lane_index lane) = q # qs"
      "c' = c\<lparr>c_lanes := (c_lanes c)[lane_index lane := (c_lanes c ! lane_index lane)\<lparr>ch_items := qs\<rparr>], c_hand := c_hand c @ [q_size q]\<rparr>"
    by (auto simp: lane_recv_def split: list.splits)
  show ?case
  proof (cases "lane_index lane < length (c_lanes c)")
    case True
    have "conn_typed vk (c\<lparr>c_lanes := (c_lanes c)[lane_index lane := (c_lanes c ! lane_index lane)\<lparr>ch_items := qs\<rparr>]\<rparr>)"
      by (rule conn_typed_lanes [OF 2(3)]) (use q(1) conn_typed_lane [OF 2(3) True] in simp)
    then show ?thesis by (simp add: q(2))
  next
    case False
    then show ?thesis using 2(3) by (simp add: q(2) list_update_beyond)
  qed
next
  case (5 lane c)
  then show ?case using conn_typed_lanes [OF 5(2), of "\<lparr>ch_items = [], ch_rx = False\<rparr>"] by (simp add: lane_rx_drop_def)
next
  case (6 c f c')
  then show ?case
    by (auto simp: dispatch_next_def bulk_next_def conn_typed_def split: list.splits if_splits prod.splits next_result.splits)
qed (auto simp: writer_release_def conn_release_def session_rx_drop_def dispatch_done_def bulk_done_def conn_close_def conn_typed_def)

section \<open>What the server says\<close>

lemma frame_item_typed:
  assumes "wf_server_frame vk f" "case f of Snapshot _ _ _ \<Rightarrow> False | Deliver _ _ \<Rightarrow> False | _ \<Rightarrow> True"
  shows "item_typed vk (FrameItem (server_encode f))"
  unfolding item_typed_def by (rule exI [of _ f]) (use assms in \<open>simp add: says_def\<close>)

lemma presence_items_typed:
  assumes "wf_topic t" "wf_id vk i"
  shows "item_typed vk (FrameItem (server_encode (Joined t i)))" "item_typed vk (FrameItem (server_encode (Left t i)))"
    "length b \<le> MAX_ANNOUNCE_LEN \<Longrightarrow> item_typed vk (FrameItem (server_encode (Presence t i b)))"
proof -
  show "item_typed vk (FrameItem (server_encode (Joined t i)))" by (rule frame_item_typed) (use assms in simp_all)
  show "item_typed vk (FrameItem (server_encode (Left t i)))" by (rule frame_item_typed) (use assms in simp_all)
  show "item_typed vk (FrameItem (server_encode (Presence t i b)))" if "length b \<le> MAX_ANNOUNCE_LEN"
    by (rule frame_item_typed) (use assms that in \<open>simp_all add: MAX_ANNOUNCE_LEN_def MAX_FRAME_LEN_value\<close>)
qed

text \<open>An ERROR about the reserved topic is one about no topic.\<close>

lemma error_item_typed:
  assumes "case topic of None \<Rightarrow> True | Some t \<Rightarrow> wf_topic t" "valid_utf8 r" "length r \<le> 2000"
  shows "item_typed vk (FrameItem (error_frame topic r))"
proof (cases "topic = None \<or> is_zero (the topic)")
  case True
  then have "error_frame topic r = server_encode (Error None r)"
    by (auto simp: error_frame_def is_zero_def ZERO_def split: option.splits)
  moreover have "item_typed vk (FrameItem (server_encode (Error None r)))"
    by (rule frame_item_typed) (use assms in \<open>simp_all add: MAX_FRAME_LEN_value\<close>)
  ultimately show ?thesis by simp
next
  case False
  then show ?thesis
    unfolding error_frame_def by (intro frame_item_typed) (use assms in \<open>auto simp: MAX_FRAME_LEN_value\<close>)
qed

lemma ascii_literal: "list_all (\<lambda>c. (of_char c :: byte) < 0x80) s \<Longrightarrow> valid_utf8 (ascii s)"
  by (rule ascii_valid) (auto simp: ascii_def list_all_iff)

lemma reason_text_typed: "valid_utf8 (reason_text r)" "length (reason_text r) \<le> 2000"
proof -
  show "valid_utf8 (reason_text r)" by (rule ascii_valid, cases r) (simp_all add: reason_text.simps ascii_def)
  show "length (reason_text r) \<le> 2000" by (cases r) (simp_all add: reason_text.simps ascii_def)
qed

lemma malformed_text_typed:
  assumes "env_typed ev"
  shows "valid_utf8 (malformed_text ev tag e)" "length (malformed_text ev tag e) \<le> 2000"
proof -
  have hex: "valid_utf8 (hex_byte b)" for b
  proof (rule ascii_valid)
    have "unat b div 16 < 16" using unsigned_less [of b] by (simp add: less_mult_imp_div_less)
    then show "\<forall>c \<in> set (hex_byte b). c < 0x80" by (auto simp: hex_byte_def intro!: hex_digit_ascii)
  qed
  have "valid_utf8 (error_text ev e)"
    using assms by (cases e) (auto simp: env_typed_def hex intro!: valid_utf8_append ascii_literal)
  then show "valid_utf8 (malformed_text ev tag e)"
    unfolding malformed_text_def by (intro valid_utf8_append hex ascii_literal) simp_all
  have "length (error_text ev e) \<le> 1100" using assms by (cases e) (simp_all add: env_typed_def ascii_def hex_byte_def)
  then show "length (malformed_text ev tag e) \<le> 2000" by (simp add: malformed_text_def ascii_def hex_byte_def)
qed

lemma deliver_new_typed:
  "wf_topic t \<Longrightarrow> length payload \<le> MAX_PUBLISH_LEN \<Longrightarrow> deliver_typed (deliver_new (topic_bytes t) payload)"
  unfolding deliver_typed_def
  by (rule exI [of _ "(t, payload)"]) (simp add: says_deliver_def MAX_PUBLISH_LEN_def MAX_FRAME_LEN_value)

lemma snapshot_item_typed:
  assumes "rooms_ok P rs" "rooms_typed vk rs" "wf_topic t" "r_max_members rs \<le> 2 * MAX_MEMBERS_PER_TOPIC"
    and "room_ok P (r_max_members rs) r" "r = hm_insert i s (room_of rs t)"
  shows "item_typed vk (SnapshotItem t (other_members r i))"
proof -
  have wf: "hm_wf r" and len: "length r \<le> r_max_members rs" using assms(5) by (simp_all add: room_ok_def)
  have "wf_member vk m \<and> length (m_blob m) \<le> MAX_ANNOUNCE_LEN" if m_in: "m \<in> set (other_members r i)" for m
  proof -
    obtain j k b where m: "m = \<lparr>m_id = j, m_blob = b\<rparr>" "j \<noteq> i" "view r j = Some (k, b)"
      using m_in unfolding other_members_set [OF wf] by blast
    then have p: "presence rs t j = Some (k, b)" by (simp add: assms(6) view_insert presence_def)
    then have "wf_id vk j" "length b \<le> MAX_ANNOUNCE_LEN"
      using assms(2) presence_owner [OF assms(1)] by (auto simp: rooms_typed_def)
    then show ?thesis using m(1) by (simp add: wf_member_def MAX_ANNOUNCE_LEN_def)
  qed
  moreover have "length (other_members r i) \<le> length r" by (simp add: other_members_def)
  ultimately show ?thesis using assms(3,4) len by (auto simp: item_typed_def says_def)
qed

section \<open>All connections\<close>

lemma net_typed_on_conn: "net_typed vk n \<Longrightarrow> (\<And>c. conn_typed vk c \<Longrightarrow> conn_typed vk (f c)) \<Longrightarrow> net_typed vk (on_conn f k n)"
  by (simp add: net_typed_def on_conn_def)

lemma net_typed_stats [simp]: "net_typed vk (n\<lparr>n_stats := st\<rparr>) = net_typed vk n"
  by (simp add: net_typed_def)

lemma net_typed_push_session: "net_typed vk n \<Longrightarrow> item_typed vk item \<Longrightarrow> net_typed vk (handle_push_session h item sz n)"
  by (simp add: handle_push_session_def net_typed_on_conn push_session_typed)

lemma net_typed_push_frame: "net_typed vk n \<Longrightarrow> item_typed vk (FrameItem b) \<Longrightarrow> net_typed vk (handle_push_frame h b n)"
  by (simp add: handle_push_frame_def push_frame_def net_typed_on_conn push_session_typed)

lemma net_typed_fold: "net_typed vk n \<Longrightarrow> (\<And>h n. net_typed vk n \<Longrightarrow> net_typed vk (f h n)) \<Longrightarrow> net_typed vk (fold f hs n)"
  by (induction hs arbitrary: n) auto

lemma net_typed_broadcast: "net_typed vk n \<Longrightarrow> item_typed vk (FrameItem b) \<Longrightarrow> net_typed vk (broadcast r i b n)"
  by (simp add: broadcast_fan net_typed_fold net_typed_push_frame)

lemma net_typed_deliver:
  "net_ok n \<Longrightarrow> net_typed vk n \<Longrightarrow> deliver_typed f \<Longrightarrow> net_typed vk (handle_deliver h lane f n)"
  by (auto simp: net_typed_def net_ok_def deliver_fan.eff_conns conn_ok_def intro!: deliver_keeps_typed)

lemma net_typed_publish:
  assumes "net_ok n" "net_typed vk n" "len_ok d" "deliver_typed d"
  shows "net_typed vk (snd (publish t h lane d rs n))" "net_typed vk (snd (publish_to t h i lane d rs n))"
proof -
  have "net_ok (fold (\<lambda>h. handle_deliver h lane d) hs m) \<and> net_typed vk (fold (\<lambda>h. handle_deliver h lane d) hs m)"
    if "net_ok m" "net_typed vk m" for hs m
    using that assms(3,4) by (induction hs arbitrary: m) (auto simp: net_ok_deliver net_typed_deliver)
  then show "net_typed vk (snd (publish t h lane d rs n))"
    using assms by (auto simp: publish_def publish_fan split: option.splits)
  show "net_typed vk (snd (publish_to t h i lane d rs n))"
    using assms by (auto simp: publish_to_def net_typed_deliver split: option.splits)
qed

lemma net_typed_error:
  "net_typed vk (f_net s) \<Longrightarrow> wf_topic t \<Longrightarrow> net_typed vk (f_net (send_error h (Some t) (reason_text r) s))"
  by (simp add: send_error_def handle_error_def net_typed_push_frame error_item_typed reason_text_typed)

lemma net_typed_stat [simp]: "net_typed vk (f_net (stat f s)) = net_typed vk (f_net s)"
  by (simp add: net_typed_def)

lemma net_typed_malformed:
  "net_typed vk (f_net s) \<Longrightarrow> env_typed ev \<Longrightarrow> net_typed vk (f_net (skip_malformed ev h tag e s))"
  by (simp add: skip_malformed_def send_error_def handle_error_def net_typed_push_frame error_item_typed malformed_text_typed)

section \<open>Room operations\<close>

text \<open>What an operation may assume of the shared state: all queues and members are well formed, and a room
  is small enough for the count of a SNAPSHOT.\<close>

definition sfu_typed :: "(bytes \<Rightarrow> bool) \<Rightarrow> sfu \<Rightarrow> bool" where
  "sfu_typed vk s \<longleftrightarrow> net_typed vk (f_net s) \<and> rooms_typed vk (f_rooms s)
     \<and> r_max_members (f_rooms s) \<le> 2 * MAX_MEMBERS_PER_TOPIC"

lemma sfu_typed_net: "sfu_typed vk s \<Longrightarrow> net_typed vk (f_net s)"
  by (simp add: sfu_typed_def)

lemma sfu_typed_same: "sfu_typed vk s \<Longrightarrow> f_rooms s' = f_rooms s \<Longrightarrow> net_typed vk (f_net s') \<Longrightarrow> sfu_typed vk s'"
  by (simp add: sfu_typed_def)

lemma join_typed:
  assumes ok: "sfu_ok P s" "sfu_typed vk s" and h: "P (h_conn h) = h_peer h" "wf_id vk (h_peer h)" and t: "wf_topic t"
    and j: "join t h (f_rooms s) (f_net s) = (res, rs, n)"
  shows "net_typed vk n"
proof -
  have rok: "rooms_ok P (f_rooms s)" using ok(1) by (simp add: sfu_ok_def)
  show ?thesis
  proof (cases "is_full (f_rooms s) t (h_peer h)")
    case True
    then show ?thesis using join_full [OF rok True j] ok(2) by (simp add: sfu_typed_def)
  next
    case False
    note e = join_enters [OF rok False h(1) j]
    let ?r = "hm_insert (h_peer h) \<lparr>s_handle = h, s_blob = []\<rparr> (room_of (f_rooms s) t)"
    have "item_typed vk (SnapshotItem t (other_members ?r (h_peer h)))"
      by (rule snapshot_item_typed [OF rok]) (use ok(2) t e in \<open>auto simp: sfu_typed_def\<close>)
    then have "net_typed vk (broadcast ?r (h_peer h) (server_encode (Joined t (h_peer h)))
        (handle_push_session h (SnapshotItem t (other_members ?r (h_peer h)))
          (snapshot_wire_len (other_members ?r (h_peer h)) (r_chunk_entries (f_rooms s))) (f_net s)))"
      by (intro net_typed_broadcast net_typed_push_session sfu_typed_net [OF ok(2)] presence_items_typed(1) [OF t h(2)])
    then show ?thesis using e by presburger
  qed
qed

lemma leave_typed:
  "net_typed vk n \<Longrightarrow> wf_id vk (h_peer h) \<Longrightarrow> wf_topic t \<Longrightarrow> leave t h rs n = (res, rs', n') \<Longrightarrow> net_typed vk n'"
  using presence_items_typed(2) [of t vk "h_peer h"]
  by (auto simp: leave_unfold Let_def simp del: server_encode.simps intro!: net_typed_broadcast split: if_splits)

lemma announce_typed:
  "net_typed vk n \<Longrightarrow> wf_id vk (h_peer h) \<Longrightarrow> wf_topic t \<Longrightarrow> length blob \<le> MAX_ANNOUNCE_LEN
     \<Longrightarrow> announce t h blob rs n = (res, rs', n') \<Longrightarrow> net_typed vk n'"
  using presence_items_typed(3) [of t vk "h_peer h" blob]
  by (auto simp: announce_unfold Let_def simp del: server_encode.simps intro!: net_typed_broadcast split: if_splits)

section \<open>Frames\<close>

lemma net_typed_limited:
  "net_typed vk (f_net s) \<Longrightarrow> wf_topic t \<Longrightarrow> net_typed vk (f_net (rate_limited h t s))"
  by (simp add: rate_limited_def net_typed_error)

lemma take_publish_net: "take_publish n rd s = (ok, rd', s') \<Longrightarrow> f_net s' = f_net s \<and> f_rooms s' = f_rooms s"
  by (auto simp: take_publish_def instant_now_def Let_def split: prod.splits)

lemma now_keeps:
  "instant_now s = (now, s') \<Longrightarrow> sfu_typed vk s' = sfu_typed vk s \<and> sfu_ok P s' = sfu_ok P s \<and> f_net s' = f_net s"
  by (auto simp: instant_now_def sfu_typed_def sfu_ok_def)

lemma handle_frame_typed:
  assumes r: "ready P k se s" and ty: "sfu_typed vk s" and i: "wf_id vk (P k)"
    and wf: "wf_client_frame vk frame" and hf: "handle_frame frame n se s = (se', s')"
  shows "net_typed vk (f_net s')"
proof -
  let ?h = "rd_handle (se_readers se)"
  have h: "P (h_conn ?h) = h_peer ?h" "wf_id vk (h_peer ?h)" using ready_handle [OF r] i by simp_all
  note net = sfu_typed_net [OF ty]
  show ?thesis
  proof (cases frame)
    case (Subscribe t)
    have t: "wf_topic t" using wf Subscribe by simp
    obtain now s1 where now: "instant_now s = (now, s1)" by fastforce
    have s1: "sfu_ok P s1" "sfu_typed vk s1" "net_typed vk (f_net s1)"
      using now_keeps [OF now, of vk P] ready_sfu [OF r] ty net by simp_all
    obtain res rs nt where j: "join t ?h (f_rooms s1) (f_net s1) = (res, rs, nt)" by (metis prod_cases3)
    have "net_typed vk nt" using join_typed [OF s1(1,2) h t j] .
    then show ?thesis
      using hf Subscribe now j t net s1(3)
      by (auto simp: handle_frame_def Let_def net_typed_error split: if_splits prod.splits option.splits)
  next
    case (Unsubscribe t)
    obtain res rs nt where l: "leave t ?h (f_rooms s) (f_net s) = (res, rs, nt)" by (metis prod_cases3)
    have "net_typed vk nt" using leave_typed [OF net h(2) _ l] wf Unsubscribe by simp
    then show ?thesis
      using hf Unsubscribe l net by (auto simp: handle_frame_def Let_def set_remove_def split: if_splits)
  next
    case (Announce t blob)
    have t: "wf_topic t" using wf Announce by simp
    obtain ok rd s1 where tk: "take_publish n (se_readers se) s = (ok, rd, s1)" by (metis prod_cases3)
    obtain res rs nt where a: "announce t ?h blob (f_rooms s1) (f_net s1) = (res, rs, nt)" by (metis prod_cases3)
    have s1: "net_typed vk (f_net s1)" using take_publish_net [OF tk] net by simp
    have "length blob \<le> MAX_ANNOUNCE_LEN \<Longrightarrow> net_typed vk nt" using announce_typed [OF s1 h(2) t _ a] .
    then show ?thesis
      using hf Announce tk a t net s1
      by (auto simp: handle_frame_def Let_def net_typed_error net_typed_limited split: if_splits)
  qed (use hf wf net in \<open>auto simp: handle_frame_def Let_def net_typed_error\<close>)
qed

lemma session_frame_typed:
  assumes "ready P k se s" "sfu_typed (ev_valid_key ev) s" "wf_id (ev_valid_key ev) (P k)" "env_typed ev"
    and "1 + length body \<le> MAX_FRAME_LEN" "session_frame ev tag body se s = (se', s')"
  shows "net_typed (ev_valid_key ev) (f_net s')"
proof (cases "client_decode (ev_valid_key ev) tag body")
  case (Inl e)
  then show ?thesis using assms by (auto simp: session_frame_def net_typed_malformed sfu_typed_net)
next
  case (Inr frame)
  then show ?thesis
    using handle_frame_typed [OF assms(1-3) client_decode_wf [OF Inr assms(5)]] assms(6) by (simp add: session_frame_def)
qed

lemma publish_send_typed:
  assumes "net_ok (f_net s)" "net_typed vk (f_net s)" "wf_topic t" "length payload \<le> MAX_PUBLISH_LEN"
  shows "net_typed vk (f_net (publish_send lane t recipient (deliver_new (topic_bytes t) payload) h s))"
proof -
  let ?d = "deliver_new (topic_bytes t) payload"
  have "len_ok ?d" "deliver_typed ?d" using deliver_small deliver_new_typed assms(3,4) by (simp_all add: wf_topic_def)
  note pub = net_typed_publish [OF assms(1,2) this]
  obtain res nt where p: "(case recipient of None \<Rightarrow> publish t h lane ?d (f_rooms s) (f_net s)
      | Some i \<Rightarrow> publish_to t h i lane ?d (f_rooms s) (f_net s)) = (res, nt)" by fastforce
  then have "net_typed vk nt"
    using pub by (cases recipient) (metis option.simps(4) snd_conv, metis option.simps(5) snd_conv)
  then show ?thesis
    using assms(3) p by (auto simp: publish_send_def Let_def net_typed_error split: sum.splits refusal.splits)
qed

lemma publish_parts_typed:
  assumes "net_ok (f_net s)" "net_typed vk (f_net s)" "wf_topic t" "tp = topic_bytes t"
    and "publish_parts lane t recipient payload tp n rd s = (rd', s')"
  shows "net_typed vk (f_net s')"
proof -
  obtain ok rd1 s1 where tk: "take_publish n rd s = (ok, rd1, s1)" by (metis prod_cases3)
  note s1 = take_publish_net [OF tk]
  have "net_ok (f_net s1)" "net_typed vk (f_net s1)" using s1 assms(1,2) by simp_all
  note sent = publish_send_typed [OF this assms(3)]
  show ?thesis
    using assms(2-5) tk s1 sent
    by (auto simp: publish_parts_def Let_def net_typed_error net_typed_limited split: if_splits)
qed

lemma readers_publish_typed:
  assumes "net_ok (f_net s)" "net_typed vk (f_net s)" "decode_lane_frame ev tag body = Inr (frame, tp)"
    and "1 + length body \<le> MAX_FRAME_LEN" "readers_publish lane frame tp n rd s = Some (rd', s')"
  shows "net_typed vk (f_net s')"
proof -
  note d = decode_lane_frame_Inr [OF assms(3)]
  have "wf_client_frame (ev_valid_key ev) frame" using client_decode_wf [OF d(1) assms(4)] .
  then show ?thesis
    using assms(5) d publish_parts_typed [OF assms(1,2)] by (cases frame) (auto simp: readers_publish_def)
qed

lemma lane_frame_typed:
  assumes "net_ok (f_net s)" "net_typed vk (f_net s)" "env_typed ev" "1 + length body \<le> MAX_FRAME_LEN"
    and "lane_frame ev lane tag body rd s = Some (rd', s')"
  shows "net_typed vk (f_net s')"
  using assms readers_publish_typed [OF assms(1,2) _ assms(4)]
  by (auto simp: lane_frame_def net_typed_malformed split: sum.splits)

lemma bulk_frame_typed:
  assumes "net_ok (f_net s)" "net_typed vk (f_net s)" "1 + length body \<le> MAX_FRAME_LEN"
    and "bulk_frame ev tag body rd s = (code, Some (rd', s'))"
  shows "net_typed vk (f_net s')"
  using assms readers_publish_typed [OF assms(1,2) _ assms(3)]
  by (auto simp: bulk_frame_def split: sum.splits)

section \<open>The other tasks\<close>

lemma net_typed_close: "net_typed vk (f_net s) \<Longrightarrow> net_typed vk (f_net (close_protocol h n s))"
  by (auto simp: close_protocol_def conn_close_def conn_typed_def intro!: net_typed_on_conn)

lemma send_datagram_typed: "net_typed vk (f_net s) \<Longrightarrow> net_typed vk (f_net (send_datagram ev dg k s))"
  by (auto simp: send_datagram_def conn_typed_def intro!: net_typed_on_conn)

lemma datagram_turn_typed:
  assumes "net_typed vk (f_net s)" "datagram_turn ev dg h b s = (b', s')"
  shows "net_typed vk (f_net s')"
proof -
  have "net_typed vk (f_net (fold (send_datagram ev dg) ks s0))" if "net_typed vk (f_net s0)" for ks s0
    using that by (induction ks arbitrary: s0) (simp_all add: send_datagram_typed)
  then show ?thesis
    using assms by (auto simp: datagram_turn_def Let_def split_beta split: option.splits)
qed

lemma end_connection_typed:
  assumes "net_typed vk (f_net s)" "se_subscribed se = []"
  shows "net_typed vk (f_net (end_connection result se s))"
proof -
  have "net_typed vk (f_net (on_net (on_conn outbound_drop k) s))" for k
    using assms(1) by (auto simp: outbound_drop_def bulk_close_def conn_typed_def intro!: net_typed_on_conn)
  then show ?thesis
    using assms(2) net_typed_close
    by (auto simp: end_connection_def leave_all_def Let_def split: option.splits read_error.splits)
qed

lemma open_connection_typed:
  "net_typed vk (f_net s) \<Longrightarrow> open_connection peer k s = (se, dg, s') \<Longrightarrow> net_typed vk (f_net s')"
  by (auto simp: open_connection_def Let_def instant_now_def net_typed_def conn_typed_new)

section \<open>The running server\<close>

definition server_typed :: "(bytes \<Rightarrow> bool) \<Rightarrow> server \<Rightarrow> bool" where
  "server_typed vk v \<longleftrightarrow> net_typed vk (f_net (v_sfu v))
     \<and> (\<forall>k se. holder v k = Some se \<longrightarrow> wf_id vk (v_peer v k))
     \<and> max_members_per_topic (f_limits (v_sfu v)) \<le> 2 * MAX_MEMBERS_PER_TOPIC"

lemma server_typed_peer: "server_typed vk v \<Longrightarrow> holder v k = Some se \<Longrightarrow> wf_id vk (v_peer v k)"
  and server_typed_net: "server_typed vk v \<Longrightarrow> net_typed vk (f_net (v_sfu v))"
  by (simp_all add: server_typed_def)

text \<open>Members are connections that have not ended, and those have valid ids.\<close>

lemma server_sfu_typed:
  assumes "server_ok v" "server_typed vk v"
  shows "sfu_typed vk (v_sfu v)"
proof -
  have ok: "sfu_ok (v_peer v) (v_sfu v)" using server_ok_sfu [OF assms(1)] .
  have "wf_id vk i" if p: "presence (f_rooms (v_sfu v)) t i = Some (k, b)" for t i k b
  proof -
    have "t \<in> owned_in (f_rooms (v_sfu v)) k" using p by (auto simp: owned_in_def)
    then obtain se where "holder v k = Some se" using assms(1) by (cases "holder v k") (auto simp: server_ok_def)
    moreover have "v_peer v k = i" using presence_owner [OF _ p] ok by (auto simp: sfu_ok_def)
    ultimately show ?thesis using server_typed_peer [OF assms(2)] by blast
  qed
  then have "rooms_typed vk (f_rooms (v_sfu v))" by (auto simp: rooms_typed_def)
  then show ?thesis
    using assms(2) ok by (simp add: sfu_typed_def server_typed_def sfu_ok_def MAX_MEMBERS_PER_TOPIC_def)
qed

text \<open>A connection has the id it was accepted with for as long as it is there.\<close>

lemma server_step_peers:
  assumes "server_step ev v v'" "server_ok v" "\<forall>k se. holder v k = Some se \<longrightarrow> wf_id (ev_valid_key ev) (v_peer v k)"
  shows "\<forall>k se. holder v' k = Some se \<longrightarrow> wf_id (ev_valid_key ev) (v_peer v' k)"
proof -
  have one: "v_live v k = None \<or> v_closing v k = None" for k using server_ok_one [OF assms(2)] .
  show ?thesis
    using assms(1)
  proof cases
    case (leaving k result se t ts res rs n)
    then have "holder v' = (holder v)(k \<mapsto> se\<lparr>se_subscribed := ts\<rparr>)" "holder v k = Some se" "v_peer v' = v_peer v"
      using one [of k] hold_upd(2) [of "v_live v" k] holder_closing [OF _ assms(2)] by (auto simp: holder_def)
    then show ?thesis using assms(3) by simp
  next
    case (ended k se result)
    then have "holder v' = holder v" "v_peer v' = v_peer v"
      using one [of k] hold_upd(3) [of "v_live v" k se "v_closing v" result] by (simp_all add: holder_def)
    then show ?thesis using assms(3) by simp
  qed (use assms(3) in \<open>auto simp: holder_def hold_def split: option.splits if_splits\<close>)
qed

lemma server_step_net_typed:
  assumes st: "server_step ev v v'" and ok: "server_ok v" and ev: "env_typed ev"
    and ty: "server_typed (ev_valid_key ev) v"
  shows "net_typed (ev_valid_key ev) (f_net (v_sfu v'))"
proof -
  note sty = server_sfu_typed [OF ok ty] and net = server_typed_net [OF ty]
  have nok: "net_ok (f_net (v_sfu v))" using server_ok_sfu [OF ok] by (simp add: sfu_ok_def)
  show ?thesis
    using st
  proof cases
    case (connect peer k se dg s')
    then show ?thesis using open_connection_typed [OF net] by simp
  next
    case (session k se body tag se' s')
    note h = holder_live [OF session(2)]
    show ?thesis
      using session_frame_typed [OF server_ok_ready [OF ok h] sty server_typed_peer [OF ty h] ev session(3,4)] session(1)
      by simp
  next
    case (lane k se body lane tag rd s')
    then show ?thesis using lane_frame_typed [OF nok net ev lane(3)] by simp
  next
    case (bulk k se body tag code rd s')
    then show ?thesis using bulk_frame_typed [OF nok net bulk(3)] by simp
  next
    case (lane_error k se n)
    then show ?thesis using net_typed_close [OF net] by simp
  next
    case (datagram k se b dg b' s')
    then show ?thesis using datagram_turn_typed [OF net] by simp
  next
    case (leaving k result se t ts res rs n)
    have h: "holder v k = Some se" using holder_closing [OF leaving(2) ok] .
    note r = server_ok_ready [OF ok h]
    have "wf_topic t" using ready_session [OF r] leaving(3) by (simp add: session_ok_def wf_topic_def)
    moreover have "wf_id (ev_valid_key ev) (h_peer (rd_handle (se_readers se)))"
      using server_typed_peer [OF ty h] ready_handle [OF r] by simp
    ultimately show ?thesis using leave_typed [OF net _ _ leaving(4)] leaving(1) by simp
  next
    case (gone k result se)
    then show ?thesis using end_connection_typed [OF net] by simp
  next
    case (token k se n ok rd s')
    then show ?thesis using net take_publish_net [OF token(4)] by simp
  next
    case (announcing k se t blob res rs n)
    note r = server_ok_ready [OF ok holder_live [OF announcing(2)]]
    have "wf_topic t" using ready_session [OF r] announcing(3) by (simp add: session_ok_def wf_topic_def)
    moreover have "wf_id (ev_valid_key ev) (h_peer (rd_handle (se_readers se)))"
      using server_typed_peer [OF ty holder_live [OF announcing(2)]] ready_handle [OF r] by simp
    ultimately show ?thesis using announce_typed [OF net _ _ announcing(4,5)] announcing(1) by simp
  next
    case (publishing t payload h k lane recipient)
    then show ?thesis using publish_send_typed [OF nok net] by simp
  next
    case (sending dg k)
    then show ?thesis using send_datagram_typed [OF net] by simp
  next
    case (writer k c')
    then show ?thesis using net writer_step_typed [OF writer(2)] by (auto simp: net_typed_def on_conn_def)
  qed (use net in simp_all)
qed

lemma server_reach_typed:
  assumes "server_reach ev (server_new l clock peers) v" "limits_ok l" "env_ok ev" "env_typed ev"
    and "max_members_per_topic l \<le> 2 * MAX_MEMBERS_PER_TOPIC"
  shows "server_typed (ev_valid_key ev) v"
  using assms(1)
proof (induction rule: rtranclp_induct)
  case base
  show ?case
    using assms(5) by (simp add: server_typed_def server_new_def net_typed_def conn_typed_new holder_def hold_def)
next
  case (step v v')
  have ok: "server_ok v" using server_reach_ok [OF step(1) assms(2,3)] .
  show ?case
    using server_step_net_typed [OF step(2) ok assms(4) step(3)] server_step_peers [OF step(2) ok]
      server_step_limits [OF step(2) ok assms(3)] step(3)
    by (simp add: server_typed_def)
qed

section \<open>Properties\<close>

text \<open>C3: the server speaks the protocol. In every reachable state, under any interleaving, each item queued
  for the session stream of any connection stands for a well-formed server frame, and each delivery queued
  on its lanes or for its bulk streams for a well-formed DELIVER: ids are valid, topics have 32 bytes, texts
  are UTF-8, sizes are within the limits the client checks, and a SNAPSHOT is not larger than the client
  accepts.\<close>

theorem server_speaks_protocol:
  assumes "server_reach ev (server_new l clock peers) v" "limits_ok l" "env_ok ev" "env_typed ev"
    and "max_members_per_topic l \<le> 2 * MAX_MEMBERS_PER_TOPIC"
  shows "(\<forall>q \<in> set (ch_items (c_session (n_conns (f_net (v_sfu v)) k))). \<exists>f. says (ev_valid_key ev) (q_item q) f)
    \<and> (\<forall>ch \<in> set (c_lanes (n_conns (f_net (v_sfu v)) k)). \<forall>q \<in> set (ch_items ch). \<exists>tp. says_deliver (q_item q) tp)
    \<and> (\<forall>d \<in> set (bq_waiting (c_bulk (n_conns (f_net (v_sfu v)) k))). \<exists>tp. says_deliver d tp)"
  using server_typed_net [OF server_reach_typed [OF assms]]
  by (simp add: net_typed_def conn_typed_def item_typed_def deliver_typed_def)


text \<open>A client that has connected sends a frame with a tag nobody knows: the ERROR queued for it is well formed.\<close>

lemma refused_run:
  "\<exists>v q. server_reach sample_env start_state v \<and> ch_items (c_session (n_conns (f_net (v_sfu v)) 1)) = [q]"
proof -
  obtain v where v: "server_reach sample_env start_state v" "v_live v 1 = Some sample_session"
    "n_conns (f_net (v_sfu v)) 1 = conn_new limits_default"
    using connected_run by blast
  let ?r = "session_frame sample_env 0xff [] sample_session (v_sfu v)"
  have "server_step sample_env v (v\<lparr>v_sfu := snd ?r, v_live := (v_live v)(1 \<mapsto> fst ?r)\<rparr>)"
    by (rule server_step.session [OF v(2), where body = "[]" and tag = "0xff"]) (simp_all add: MAX_FRAME_LEN_value)
  moreover have "client_decode (ev_valid_key sample_env) 0xff [] = Inl (UnknownClientFrame 0xff)"
    by (simp add: client_decode_def)
  then have "snd ?r = skip_malformed sample_env (handle_of 1) 0xff (UnknownClientFrame 0xff) (v_sfu v)"
    by (simp add: session_frame_def sample_session_def)
  then have "\<exists>q. ch_items (c_session (n_conns (f_net (snd ?r)) 1)) = [q]"
    using v(3)
    by (simp add: skip_malformed_def send_error_def handle_error_def handle_push_frame_def push_frame_def on_conn_def
        handle_of_def push_session_def reserve_def Let_def conn_new_def budget_new_def chan_new_def chan_send_def)
  ultimately show ?thesis
    using v(1) rtranclp.rtrancl_into_rtrancl [of "server_step sample_env" start_state v]
    by (metis (no_types, lifting) server.select_convs(1) server.surjective server.update_convs(1) server.update_convs(2))
qed

theorem server_speaks_protocol_witness:
  "\<exists>v q f. server_reach sample_env start_state v \<and> ch_items (c_session (n_conns (f_net (v_sfu v)) 1)) = [q]
     \<and> says (ev_valid_key sample_env) (q_item q) f"
proof -
  obtain v q where v: "server_reach sample_env start_state v" "ch_items (c_session (n_conns (f_net (v_sfu v)) 1)) = [q]"
    using refused_run by blast
  have "env_typed sample_env" by (simp add: env_typed_def sample_env_def)
  moreover have "max_members_per_topic limits_default \<le> 2 * MAX_MEMBERS_PER_TOPIC" by (simp add: limits_default_def)
  ultimately have "\<exists>f. says (ev_valid_key sample_env) (q_item q) f"
    using server_speaks_protocol [OF v(1) [unfolded start_state_def] limits_default_ok sample_env_ok, of 1] v(2) by simp
  then show ?thesis using v by blast
qed

end
