(* ===== verification/Info.thy ===== *)
theory Info
  imports Session
begin

text \<open>
  The info endpoint, \<open>src/src/info.rs\<close>: the JSON document, the request handler \<open>respond\<close>, the
  retry delay of \<open>serve\<close>, and the client side \<open>fetch_info\<close> with \<open>exchange\<close>, \<open>SfuInfo::parse\<close> and
  \<open>json_field\<close>. Strings are their UTF-8 bytes; what the code uses of \<open>str\<close> (\<open>find\<close>, \<open>trim\<close>,
  \<open>split_whitespace\<close>, \<open>lines\<close>, \<open>split_once\<close>, \<open>parse::<u16>\<close>) is defined first.

  Parsing an endpoint id and a relay URL belongs to iroh: \<open>parse_id\<close> and \<open>parse_url\<close> are arguments.
  The connection (TCP, TLS, timeouts) is an argument too: the reader that yields what the peer sent.
\<close>

section \<open>Strings\<close>

text \<open>The length of the \<open>White_Space\<close> character a string starts with, 0 if it starts with none.\<close>

definition ws_len :: "bytes \<Rightarrow> nat" where
  "ws_len s =
     (case s of
        [] \<Rightarrow> 0
      | b # bs \<Rightarrow>
          if 0x09 \<le> b \<and> b \<le> 0x0D \<or> b = 0x20 then 1
          else if b = 0xC2 \<and> byte_at bs 0 \<in> {0x85, 0xA0} then 2
          else if b = 0xE1 \<and> byte_at bs 0 = 0x9A \<and> byte_at bs 1 = 0x80 then 3
          else if b = 0xE2 \<and> byte_at bs 0 = 0x80
               \<and> (0x80 \<le> byte_at bs 1 \<and> byte_at bs 1 \<le> 0x8A \<or> byte_at bs 1 \<in> {0xA8, 0xA9, 0xAF}) then 3
          else if b = 0xE2 \<and> byte_at bs 0 = 0x81 \<and> byte_at bs 1 = 0x9F then 3
          else if b = 0xE3 \<and> byte_at bs 0 = 0x80 \<and> byte_at bs 1 = 0x80 then 3
          else 0)"

lemma ws_len_pos: "0 < ws_len s \<Longrightarrow> s \<noteq> []"
  by (auto simp: ws_len_def)

function trim_start :: "bytes \<Rightarrow> bytes" where
  "trim_start s = (if ws_len s = 0 then s else trim_start (drop (ws_len s) s))"
  by pat_completeness auto
termination
  by (relation "measure length") (use ws_len_pos in \<open>fastforce+\<close>)

function trim_end :: "bytes \<Rightarrow> bytes" where
  "trim_end s =
     (case find (\<lambda>k. k \<le> length s \<and> ws_len (drop (length s - k) s) = k) [1, 2, 3] of
        None \<Rightarrow> s
      | Some k \<Rightarrow> trim_end (take (length s - k) s))"
  by pat_completeness auto
termination
  by (relation "measure length") (auto simp: find_Some_iff split: if_splits dest!: ws_len_pos)

definition trim :: "bytes \<Rightarrow> bytes" where
  "trim s = trim_end (trim_start s)"

fun word_len :: "bytes \<Rightarrow> nat" where
  "word_len [] = 0"
| "word_len (b # bs) = (if 0 < ws_len (b # bs) then 0 else Suc (word_len bs))"

declare trim_start.simps [simp del] trim_end.simps [simp del]

lemma trim_start_head: "trim_start s \<noteq> [] \<Longrightarrow> ws_len (trim_start s) = 0"
proof (induction s rule: trim_start.induct)
  case (1 s)
  then show ?case by (cases "ws_len s = 0") (simp_all add: trim_start.simps [of s])
qed

lemma length_trim_start: "length (trim_start s) \<le> length s"
proof (induction s rule: trim_start.induct)
  case (1 s)
  then show ?case by (cases "ws_len s = 0") (auto simp: trim_start.simps [of s] intro: le_trans)
qed

function split_whitespace :: "bytes \<Rightarrow> bytes list" where
  "split_whitespace s =
     (let s1 = trim_start s
      in if s1 = [] then [] else take (word_len s1) s1 # split_whitespace (drop (word_len s1) s1))"
  by pat_completeness auto
termination
proof (relation "measure length", goal_cases)
  case 1
  show ?case by simp
next
  case (2 s s1)
  then have "ws_len s1 = 0" "s1 \<noteq> []" using trim_start_head [of s] by auto
  then have "0 < word_len s1" by (cases s1) auto
  moreover have "0 < length s1" "length s1 \<le> length s"
    using 2 length_trim_start [of s] by auto
  ultimately have "length s1 - word_len s1 < length s" by linarith
  then show ?case by simp
qed

declare split_whitespace.simps [simp del]

text \<open>\<open>find\<close> and \<open>split_once\<close> with a string, the first piece of a \<open>split\<close>, the first of the \<open>lines\<close>.\<close>

fun find_str :: "bytes \<Rightarrow> bytes \<Rightarrow> nat option" where
  "find_str pat [] = (if pat = [] then Some 0 else None)"
| "find_str pat (b # bs) =
     (if take (length pat) (b # bs) = pat then Some 0 else map_option Suc (find_str pat bs))"

definition split_once :: "bytes \<Rightarrow> bytes \<Rightarrow> (bytes \<times> bytes) option" where
  "split_once pat s = map_option (\<lambda>i. (take i s, drop (i + length pat) s)) (find_str pat s)"

definition split_first :: "byte set \<Rightarrow> bytes \<Rightarrow> bytes" where
  "split_first cs s = takeWhile (\<lambda>b. b \<notin> cs) s"

definition strip_prefix :: "byte \<Rightarrow> bytes \<Rightarrow> bytes option" where
  "strip_prefix c s = (case s of b # bs \<Rightarrow> if b = c then Some bs else None | [] \<Rightarrow> None)"

definition first_line :: "bytes \<Rightarrow> bytes" where
  "first_line s =
     (let l = takeWhile (\<lambda>b. b \<noteq> 0x0A) s
      in if length l < length s \<and> l \<noteq> [] \<and> last l = 0x0D then butlast l else l)"

text \<open>\<open>str::parse::<u16>\<close>: an optional plus sign, at least one digit, at most 65535.\<close>

fun dec_value :: "nat \<Rightarrow> bytes \<Rightarrow> nat option" where
  "dec_value acc [] = Some acc"
| "dec_value acc (b # bs) =
     (if 0x30 \<le> b \<and> b \<le> 0x39 then dec_value (10 * acc + (unat b - 0x30)) bs else None)"

definition parse_u16 :: "bytes \<Rightarrow> 16 word option" where
  "parse_u16 s =
     (let digits = (case s of b # bs \<Rightarrow> if b = 0x2B then bs else s | [] \<Rightarrow> [])
      in if digits = [] then None
         else case dec_value 0 digits of
                Some v \<Rightarrow> if v \<le> 65535 then Some (word_of_nat v) else None
              | None \<Rightarrow> None)"

section \<open>The document\<close>

definition INFO_PATH :: bytes where
  "INFO_PATH = ascii ''/kt/sfu''"

definition quoted :: "bytes \<Rightarrow> bytes" where
  "quoted s = [0x22] @ s @ [0x22]"

definition sfu_info_json :: "bytes \<Rightarrow> bytes \<Rightarrow> 16 word option \<Rightarrow> bytes" where
  "sfu_info_json sfu relay qad_port =
     (let qad = (case qad_port of None \<Rightarrow> ascii ''null'' | Some port \<Rightarrow> dec_digits (unat port))
      in ascii ''{'' @ quoted (ascii ''sfu'') @ ascii '':'' @ quoted sfu
         @ ascii '','' @ quoted (ascii ''relay'') @ ascii '':'' @ quoted relay
         @ ascii '','' @ quoted (ascii ''alpn'') @ ascii '':'' @ quoted (from_utf8_lossy SFU_ALPN)
         @ ascii '','' @ quoted (ascii ''qad_port'') @ ascii '':'' @ qad @ ascii ''}'')"

definition json_field :: "bytes \<Rightarrow> bytes \<Rightarrow> bytes option" where
  "json_field json key =
     (case find_str (quoted key) json of
        None \<Rightarrow> None
      | Some i \<Rightarrow>
          (case strip_prefix 0x3A (trim_start (drop (i + length key + 2) json)) of
             None \<Rightarrow> None
           | Some after \<Rightarrow>
               let rest = trim_start after
               in (case strip_prefix 0x22 rest of
                     Some inner \<Rightarrow> Some (split_first {0x22} inner)
                   | None \<Rightarrow> Some (trim (split_first {0x2C, 0x7D} rest)))))"

record 'u sfu_info =
  i_sfu :: endpoint_id
  i_relay :: 'u
  i_alpn :: bytes
  i_qad_port :: "16 word option"

text \<open>How a connection, a TLS session or a request within its deadline fails.\<close>

datatype tcp_failure = ConnectTimedOut | ConnectFailed
datatype tls_failure = TlsConfiguration | BadServerName | TlsHandshake
datatype request_failure = RequestTimedOut | WriteFailed

datatype info_error = NoField bytes | BadQadPort | BadSfuId | BadRelayUrl
  | MalformedResponse | BadStatus bytes | OtherAlpn bytes | FetchIo
  | NoHost | NoPort | Connecting tcp_failure | Securing tls_failure | Requesting request_failure | BadScheme bytes

definition sfu_info_parse ::
  "(bytes \<Rightarrow> endpoint_id option) \<Rightarrow> (bytes \<Rightarrow> 'u option) \<Rightarrow> bytes \<Rightarrow> info_error + 'u sfu_info" where
  "sfu_info_parse parse_id parse_url json =
     (case json_field json (ascii ''sfu'') of None \<Rightarrow> Inl (NoField (ascii ''sfu'')) | Some sfu \<Rightarrow>
      case json_field json (ascii ''relay'') of None \<Rightarrow> Inl (NoField (ascii ''relay'')) | Some relay \<Rightarrow>
      case json_field json (ascii ''alpn'') of None \<Rightarrow> Inl (NoField (ascii ''alpn'')) | Some alpn \<Rightarrow>
      case (case json_field json (ascii ''qad_port'') of
              None \<Rightarrow> Inr None
            | Some port \<Rightarrow> if port = ascii ''null'' then Inr None
                           else case parse_u16 port of None \<Rightarrow> Inl BadQadPort | Some p \<Rightarrow> Inr (Some p)) of
        Inl e \<Rightarrow> Inl e
      | Inr qad_port \<Rightarrow>
          (case parse_id sfu of None \<Rightarrow> Inl BadSfuId | Some i \<Rightarrow>
           case parse_url relay of None \<Rightarrow> Inl BadRelayUrl | Some u \<Rightarrow>
             Inr \<lparr>i_sfu = i, i_relay = u, i_alpn = alpn, i_qad_port = qad_port\<rparr>))"

section \<open>The server\<close>

text \<open>The retry delays after failed accepts, in milliseconds.\<close>

definition ACCEPT_BACKOFF_MIN :: nat where "ACCEPT_BACKOFF_MIN = 50"
definition ACCEPT_BACKOFF_MAX :: nat where "ACCEPT_BACKOFF_MAX = 2000"

definition next_backoff :: "nat \<Rightarrow> nat" where
  "next_backoff backoff = min (backoff * 2) ACCEPT_BACKOFF_MAX"

text \<open>The delays \<open>serve\<close> sleeps for, given which accepts succeed.\<close>

fun serve_delays :: "nat \<Rightarrow> bool list \<Rightarrow> nat list" where
  "serve_delays backoff [] = []"
| "serve_delays backoff (True # accepts) = serve_delays ACCEPT_BACKOFF_MIN accepts"
| "serve_delays backoff (False # accepts) = backoff # serve_delays (next_backoff backoff) accepts"

definition crlf :: bytes where "crlf = [0x0D, 0x0A]"

text \<open>A message head: its lines and the empty line.\<close>

definition http_head :: "bytes list \<Rightarrow> bytes" where
  "http_head ls = concat (map (\<lambda>l. l @ crlf) ls) @ crlf"

definition head_complete :: "bytes \<Rightarrow> bool" where
  "head_complete buf \<longleftrightarrow> find_str (crlf @ crlf) buf \<noteq> None"

text \<open>Reading the request head into 4096 bytes; \<open>None\<close> is an I/O error.\<close>

function read_head :: "bytes \<Rightarrow> reader \<Rightarrow> bytes option" where
  "read_head got r =
     (if length got < 4096 then
        (case read_some (4096 - length got) r of
           (None, _) \<Rightarrow> None
         | (Some chunk, r1) \<Rightarrow>
             if chunk = [] then Some got
             else if head_complete (got @ chunk) then Some (got @ chunk)
             else read_head (got @ chunk) r1)
      else Some got)"
  by pat_completeness auto
termination
  by (relation "measure (\<lambda>(got, r). 4096 - length got)") (auto simp: neq_Nil_conv)

declare read_head.simps [simp del]

definition respond_to :: "bytes \<Rightarrow> bytes \<Rightarrow> bytes" where
  "respond_to head body =
     (let parts = split_whitespace (first_line head);
          method = (case parts of a # _ \<Rightarrow> a | _ \<Rightarrow> []);
          target = (case parts of _ # b # _ \<Rightarrow> b | _ \<Rightarrow> []);
          path = split_first {0x3F} target
      in if (method = ascii ''GET'' \<or> method = ascii ''HEAD'') \<and> path = INFO_PATH
         then let payload = (if method = ascii ''HEAD'' then [] else body)
              in http_head [ascii ''HTTP/1.1 200 OK'', ascii ''Content-Type: application/json'',
                   ascii ''Cache-Control: no-store'', ascii ''Content-Length: '' @ dec_digits (length body),
                   ascii ''Connection: close''] @ payload
         else http_head [ascii ''HTTP/1.1 404 Not Found'', ascii ''Content-Length: 0'', ascii ''Connection: close''])"

text \<open>The bytes \<open>respond\<close> writes; \<open>None\<close> when the head cannot be read or not in time. Whether the peer takes them does not
  change anything here.\<close>

definition respond :: "reader \<Rightarrow> bytes \<Rightarrow> bytes option" where
  "respond r body = map_option (\<lambda>buf. respond_to (from_utf8_lossy buf) body) (read_head [] r)"

section \<open>The client\<close>

definition fetch_request :: "bytes \<Rightarrow> bytes \<Rightarrow> bytes option \<Rightarrow> bytes" where
  "fetch_request host url_path query =
     (let path = (case query of Some q \<Rightarrow> url_path @ ascii ''?'' @ q | None \<Rightarrow> url_path)
      in http_head [ascii ''GET '' @ path @ ascii '' HTTP/1.1'', ascii ''Host: '' @ host,
           ascii ''Accept: application/json'', ascii ''Connection: close''])"

text \<open>\<open>exchange\<close>: \<open>unclean\<close> says that a failing read is a TLS peer that closed without notice.\<close>

function exchange :: "bool \<Rightarrow> bytes \<Rightarrow> reader \<Rightarrow> bytes option" where
  "exchange unclean response r =
     (if length response < 64 * 1024 then
        (case read_some 4096 r of
           (None, _) \<Rightarrow> if unclean \<and> response \<noteq> [] then Some (from_utf8_lossy response) else None
         | (Some chunk, r1) \<Rightarrow>
             if chunk = [] then Some (from_utf8_lossy response) else exchange unclean (response @ chunk) r1)
      else Some (from_utf8_lossy response))"
  by pat_completeness auto
termination
  by (relation "measure (\<lambda>(u, response, r). 64 * 1024 - length response)") (auto simp: neq_Nil_conv)

declare exchange.simps [simp del]

definition fetch_parse ::
  "(bytes \<Rightarrow> endpoint_id option) \<Rightarrow> (bytes \<Rightarrow> 'u option) \<Rightarrow> bytes \<Rightarrow> info_error + 'u sfu_info" where
  "fetch_parse parse_id parse_url response =
     (case split_once (crlf @ crlf) response of
        None \<Rightarrow> Inl MalformedResponse
      | Some (head, body) \<Rightarrow>
          let status = first_line head
          in if \<not> (2 \<le> length (split_whitespace status) \<and> split_whitespace status ! 1 = ascii ''200'')
             then Inl (BadStatus status)
             else (case sfu_info_parse parse_id parse_url body of
                     Inl e \<Rightarrow> Inl e
                   | Inr info \<Rightarrow> if i_alpn info = SFU_ALPN then Inr info else Inl (OtherAlpn (i_alpn info))))"

definition fetch_response :: "(bytes \<Rightarrow> endpoint_id option) \<Rightarrow> (bytes \<Rightarrow> 'u option) \<Rightarrow> bool \<Rightarrow> reader
    \<Rightarrow> info_error + 'u sfu_info" where
  "fetch_response parse_id parse_url unclean r =
     (case exchange unclean [] r of None \<Rightarrow> Inl FetchIo | Some response \<Rightarrow> fetch_parse parse_id parse_url response)"

text \<open>A URL as the \<open>url\<close> crate takes it apart; the port is the default of the scheme where it has one.\<close>

record info_url =
  iu_scheme :: bytes
  iu_host :: "bytes option"
  iu_port :: "16 word option"
  iu_path :: bytes
  iu_query :: "bytes option"

text \<open>The host without the brackets of an IPv6 address.\<close>

definition bare_host :: "bytes \<Rightarrow> bytes" where
  "bare_host host = rev (dropWhile (\<lambda>b. b = 0x5D) (rev (dropWhile (\<lambda>b. b = 0x5B) host)))"

text \<open>A connection to a peer: what is read from it once a request has been written, and whether a failing read is an
  unclean close. \<open>connect\<close> is TCP's and \<open>handshake\<close> TLS's, with the client configuration and the server name made of
  its arguments.\<close>

type_synonym http_peer = "bytes \<Rightarrow> request_failure + (bool \<times> reader)"

definition fetch_info :: "(bytes \<Rightarrow> endpoint_id option) \<Rightarrow> (bytes \<Rightarrow> 'u option) \<Rightarrow> (bytes \<Rightarrow> 16 word \<Rightarrow> tcp_failure + http_peer)
    \<Rightarrow> ('t option \<Rightarrow> bytes \<Rightarrow> http_peer \<Rightarrow> tls_failure + http_peer) \<Rightarrow> info_url \<Rightarrow> 't option \<Rightarrow> info_error + 'u sfu_info" where
  "fetch_info parse_id parse_url connect handshake url ca =
     (case iu_host url of None \<Rightarrow> Inl NoHost | Some host \<Rightarrow>
      case iu_port url of None \<Rightarrow> Inl NoPort | Some port \<Rightarrow>
        let request = fetch_request host (iu_path url) (iu_query url)
        in case connect (bare_host host) port of Inl err \<Rightarrow> Inl (Connecting err) | Inr tcp \<Rightarrow>
             and_then
               (if iu_scheme url = ascii ''http'' then Inr tcp
                else if iu_scheme url = ascii ''https'' then
                  (case handshake ca (bare_host host) tcp of Inl err \<Rightarrow> Inl (Securing err) | Inr tls \<Rightarrow> Inr tls)
                else Inl (BadScheme (iu_scheme url)))
               (\<lambda>stream. case stream request of
                  Inl err \<Rightarrow> Inl (Requesting err)
                | Inr (unclean, r) \<Rightarrow> fetch_response parse_id parse_url unclean r))"

section \<open>Lemmas: searching\<close>

lemma find_str_skip:
  "c \<notin> set xs \<Longrightarrow> find_str (c # pat) (xs @ s) = map_option ((+) (length xs)) (find_str (c # pat) s)"
  by (induction xs; cases "find_str (c # pat) s") auto

lemma find_str_here: "find_str pat (pat @ s) = Some 0"
  by (cases pat; cases s) simp_all

lemma find_str_bound: "find_str pat s = Some i \<Longrightarrow> i + length pat \<le> length s"
  by (induction s arbitrary: i) (auto split: if_splits dest: arg_cong [where f = length])

lemma find_str_append: "find_str pat s = Some i \<Longrightarrow> find_str pat (s @ t) = Some i"
proof (induction s arbitrary: i)
  case Nil
  then show ?case by (cases t) (auto split: if_splits)
next
  case (Cons b s)
  show ?case
  proof (cases "take (length pat) (b # s) = pat")
    case True
    then have "length pat \<le> length (b # s)" by (metis length_take min.absorb_iff2)
    then have "take (length pat) (b # s @ t) = take (length pat) (b # s)" by (metis append_Cons take_append append_Nil2 diff_is_0_eq take_0)
    with True Cons.prems show ?thesis by simp
  next
    case False
    with Cons.prems obtain j where j: "find_str pat s = Some j" "i = Suc j" by auto
    have "length pat \<le> length s" using find_str_bound [OF j(1)] by simp
    then have "take (length pat) (b # s @ t) = take (length pat) (b # s)"
      by (cases "length pat") simp_all
    with False Cons.IH [OF j(1)] j(2) show ?thesis by simp
  qed
qed

text \<open>Looking for a quoted key among quoted values: a value that is not the key is passed over.\<close>

lemma takeWhile_stop: "c \<notin> set v \<Longrightarrow> takeWhile (\<lambda>b. b \<noteq> c) (v @ c # s) = v"
  by (induction v) auto

lemma find_quoted_value:
  assumes "0x22 \<notin> set v" "0x22 \<notin> set key" "v \<noteq> key" "key \<noteq> []" "c \<noteq> hd key"
  shows "find_str (quoted key) (quoted v @ c # s) = map_option ((+) (length v + 2)) (find_str (quoted key) (c # s))"
proof -
  have open_q: "take (length key + 2) (0x22 # v @ 0x22 # c # s) \<noteq> 0x22 # key @ [0x22]"
  proof
    assume "take (length key + 2) (0x22 # v @ 0x22 # c # s) = 0x22 # key @ [0x22]"
    then have "take (length key + 1) (v @ 0x22 # c # s) = key @ [0x22]" by simp
    then have eq: "v @ 0x22 # c # s = key @ 0x22 # drop (length key + 1) (v @ 0x22 # c # s)"
      by (metis append.assoc append_Cons append_Nil append_take_drop_id)
    show False
      using takeWhile_stop [OF assms(1), of "c # s"] takeWhile_stop [OF assms(2)] eq assms(3) by metis
  qed
  have close_q: "take (length key + 2) (0x22 # c # s) \<noteq> 0x22 # key @ [0x22]"
    using assms(4,5) by (cases key) simp_all
  have "find_str (quoted key) (quoted v @ c # s) = map_option Suc (find_str (quoted key) (v @ 0x22 # c # s))"
    using open_q by (simp add: quoted_def)
  also have "\<dots> = map_option (Suc \<circ> (+) (length v)) (find_str (quoted key) (0x22 # c # s))"
    using find_str_skip [OF assms(1), of "key @ [0x22]" "0x22 # c # s"]
    by (simp add: quoted_def option.map_comp)
  also have "find_str (quoted key) (0x22 # c # s) = map_option Suc (find_str (quoted key) (c # s))"
    using close_q by (simp add: quoted_def)
  finally show ?thesis by (simp add: option.map_comp comp_def)
qed

lemma quoted_length: "length (quoted s) = length s + 2"
  by (simp add: quoted_def)

lemma find_quoted_byte: "b \<noteq> 0x22 \<Longrightarrow> find_str (quoted key) (b # s) = map_option Suc (find_str (quoted key) s)"
  by (simp add: quoted_def)

section \<open>Lemmas: white space\<close>

definition graphic :: "bytes \<Rightarrow> bool" where
  "graphic s \<longleftrightarrow> (\<forall>b \<in> set s. 0x21 \<le> b \<and> b < 0x7F)"

lemma graphic_simps [simp]: "graphic []" "graphic (b # s) \<longleftrightarrow> 0x21 \<le> b \<and> b < 0x7F \<and> graphic s"
  "graphic (s @ t) \<longleftrightarrow> graphic s \<and> graphic t"
  by (auto simp: graphic_def)

lemma ws_len_graphic:
  assumes "0x21 \<le> b" "b < 0x7F"
  shows "ws_len (b # s) = 0"
proof -
  have "b \<noteq> 0xC2" "b \<noteq> 0xE1" "b \<noteq> 0xE2" "b \<noteq> 0xE3" "b \<noteq> 0x20" using assms by auto
  moreover have "\<not> b \<le> 0x0D" using order_trans [OF assms(1), of "0x0D"] by auto
  ultimately show ?thesis by (simp add: ws_len_def)
qed

lemma ws_len_space: "ws_len (0x20 # s) = 1"
  by (simp add: ws_len_def)

lemma trim_start_graphic: "0x21 \<le> b \<Longrightarrow> b < 0x7F \<Longrightarrow> trim_start (b # s) = b # s"
  by (simp add: trim_start.simps [of "b # s"] ws_len_graphic)

lemma trim_graphic: "graphic s \<Longrightarrow> trim s = s"
proof -
  assume g: "graphic s"
  have z: "ws_len t = 0" if "graphic t" for t
    using that by (cases t) (simp_all add: ws_len_graphic, simp add: ws_len_def)
  have "graphic (drop k s)" for k using g by (auto simp: graphic_def dest: in_set_dropD)
  then have "find (\<lambda>k. k \<le> length s \<and> ws_len (drop (length s - k) s) = k) [1, 2, 3] = None"
    using z by (auto simp: find_None_iff)
  then have "trim_end s = s" by (simp add: trim_end.simps [of s])
  moreover have "trim_start s = s" using z [OF g] by (simp add: trim_start.simps [of s])
  ultimately show ?thesis by (simp add: trim_def)
qed

lemma word_len_graphic: "graphic w \<Longrightarrow> word_len (w @ 0x20 # s) = length w" "graphic w \<Longrightarrow> word_len w = length w"
  by (induction w) (auto simp: ws_len_graphic ws_len_space)

lemma split_whitespace_word:
  assumes "graphic w" "w \<noteq> []"
  shows "split_whitespace (w @ 0x20 # s) = w # split_whitespace (0x20 # s)" "split_whitespace w = [w]"
proof -
  have t: "trim_start (w @ s) = w @ s" for s
    using assms by (cases w) (simp_all add: trim_start_graphic)
  show "split_whitespace (w @ 0x20 # s) = w # split_whitespace (0x20 # s)"
    using t [of "0x20 # s"] assms word_len_graphic(1) [OF assms(1), of s]
    by (simp add: split_whitespace.simps [of "w @ 0x20 # s"])
  have "split_whitespace [] = []"
    by (simp add: split_whitespace.simps [of "[]"] trim_start.simps [of "[]"] ws_len_def)
  with t [of "[]"] word_len_graphic(2) [OF assms(1)] assms show "split_whitespace w = [w]"
    by (simp add: split_whitespace.simps [of w])
qed

lemma split_whitespace_space: "split_whitespace (0x20 # s) = split_whitespace s"
proof -
  have "trim_start (0x20 # s) = trim_start s"
    by (simp add: trim_start.simps [of "0x20 # s"] ws_len_space)
  then show ?thesis by (simp add: split_whitespace.simps [of "0x20 # s"] split_whitespace.simps [of s])
qed

section \<open>Lemmas: fields\<close>

lemma json_field_quoted:
  assumes "find_str (quoted key) json = Some (length pre)"
    and "json = pre @ quoted key @ 0x3A # quoted v @ rest" "0x22 \<notin> set v"
  shows "json_field json key = Some v"
proof -
  have "drop (length pre + length key + 2) json = 0x3A # quoted v @ rest"
    using assms(2) by (simp add: quoted_def)
  then show ?thesis
    using assms(1,3)
    by (simp add: json_field_def trim_start_graphic strip_prefix_def quoted_def split_first_def takeWhile_stop Let_def)
qed

lemma json_field_plain:
  assumes "find_str (quoted key) json = Some (length pre)"
    and "json = pre @ quoted key @ 0x3A # v @ 0x7D # rest" "graphic v" "v \<noteq> []" "set v \<inter> {0x22, 0x2C, 0x7D} = {}"
  shows "json_field json key = Some v"
proof -
  obtain b v' where v: "v = b # v'" using assms(4) by (cases v) auto
  have d: "drop (length pre + length key + 2) json = 0x3A # v @ 0x7D # rest"
    using assms(2) by (simp add: quoted_def)
  have "trim_start (v @ 0x7D # rest) = v @ 0x7D # rest" using v assms(3) by (simp add: trim_start_graphic)
  moreover have "split_first {0x2C, 0x7D} (v @ 0x7D # rest) = v"
    using assms(5) by (auto simp: split_first_def takeWhile_append)
  ultimately show ?thesis
    using assms(1,3,5) v d trim_graphic [OF assms(3)]
    by (simp add: json_field_def trim_start_graphic [of "0x3A"] strip_prefix_def Let_def)
qed

section \<open>Lemmas: decimal numbers\<close>

lemma dec_value_snoc:
  "dec_value acc (xs @ [d]) = (case dec_value acc xs of None \<Rightarrow> None
     | Some v \<Rightarrow> if 0x30 \<le> d \<and> d \<le> 0x39 then Some (10 * v + (unat d - 0x30)) else None)"
  by (induction xs arbitrary: acc) auto

lemma digit_byte: "n < 10 \<Longrightarrow> 0x30 \<le> (word_of_nat (48 + n) :: byte) \<and> (word_of_nat (48 + n) :: byte) \<le> 0x39
    \<and> unat (word_of_nat (48 + n) :: byte) = 48 + n"
  by (simp add: word_le_nat_alt unat_of_nat del: of_nat_add)

lemma dec_digits_set: "b \<in> set (dec_digits n) \<Longrightarrow> 0x30 \<le> b \<and> b \<le> 0x39"
proof (induction n rule: dec_digits.induct)
  case (1 n)
  then show ?case
    using digit_byte [of n] digit_byte [of "n mod 10"]
    by (cases "n < 10") (auto simp: dec_digits.simps [of n])
qed

lemma dec_digits_nonempty: "dec_digits n \<noteq> []"
  by (simp add: dec_digits.simps [of n])

lemma dec_value_digits: "dec_value 0 (dec_digits n) = Some n"
proof (induction n rule: dec_digits.induct)
  case (1 n)
  show ?case
  proof (cases "n < 10")
    case True
    then show ?thesis using digit_byte [OF True] by (simp add: dec_digits.simps [of n])
  next
    case False
    then show ?thesis
      using 1 digit_byte [of "n mod 10"] by (simp add: dec_digits.simps [of n] dec_value_snoc)
  qed
qed

lemma dec_digits_graphic: "graphic (dec_digits n)"
  using dec_digits_set by (fastforce simp: graphic_def word_le_nat_alt word_less_nat_alt)

lemma dec_digits_free: "c < 0x30 \<or> 0x39 < c \<Longrightarrow> c \<notin> set (dec_digits n)"
  using dec_digits_set by fastforce

lemma parse_u16_digits: "parse_u16 (dec_digits (unat p)) = Some p"
proof -
  obtain b bs where b: "dec_digits (unat p) = b # bs" using dec_digits_nonempty by (cases "dec_digits (unat p)") auto
  have "b \<noteq> 0x2B" using dec_digits_set [of b "unat p"] b by auto
  moreover have "unat p < 2 ^ LENGTH(16)" by (rule unsigned_less)
  then have "unat p \<le> 65535" by simp
  ultimately show ?thesis
    using b dec_value_digits [of "unat p"] by (simp add: parse_u16_def Let_def del: dec_value.simps)
qed

section \<open>Lemmas: the document\<close>

definition field_ok :: "bytes \<Rightarrow> bool" where
  "field_ok v \<longleftrightarrow> graphic v \<and> 0x22 \<notin> set v
     \<and> v \<notin> {ascii ''relay'', ascii ''alpn'', ascii ''qad_port''}"

lemma json_fields:
  assumes "field_ok sfu" "field_ok relay"
  shows "json_field (sfu_info_json sfu relay q) (ascii ''sfu'') = Some sfu"
    and "json_field (sfu_info_json sfu relay q) (ascii ''relay'') = Some relay"
    and "json_field (sfu_info_json sfu relay q) (ascii ''alpn'') = Some SFU_ALPN"
    and "json_field (sfu_info_json sfu relay q) (ascii ''qad_port'')
      = Some (case q of None \<Rightarrow> ascii ''null'' | Some p \<Rightarrow> dec_digits (unat p))"
proof -
  let ?q = "case q of None \<Rightarrow> ascii ''null'' | Some p \<Rightarrow> dec_digits (unat p)"
  have alpn: "from_utf8_lossy SFU_ALPN = SFU_ALPN"
    by (intro from_utf8_lossy_valid ascii_valid) (simp add: SFU_ALPN_def ascii_def)
  have json: "sfu_info_json sfu relay q = ascii ''{'' @ quoted (ascii ''sfu'') @ 0x3A # quoted sfu
      @ 0x2C # quoted (ascii ''relay'') @ 0x3A # quoted relay @ 0x2C # quoted (ascii ''alpn'') @ 0x3A # quoted SFU_ALPN
      @ 0x2C # quoted (ascii ''qad_port'') @ 0x3A # ?q @ 0x7D # []"
    by (simp add: sfu_info_json_def alpn Let_def ascii_def)
  have free: "0x22 \<notin> set sfu" "0x22 \<notin> set relay" "0x22 \<notin> set SFU_ALPN"
    using assms by (simp_all add: field_ok_def SFU_ALPN_def ascii_def)
  have vals: "sfu \<noteq> ascii ''relay''" "sfu \<noteq> ascii ''alpn''" "sfu \<noteq> ascii ''qad_port''"
      "relay \<noteq> ascii ''alpn''" "relay \<noteq> ascii ''qad_port''"
    using assms by (simp_all add: field_ok_def)
  have keys: "0x22 \<notin> set (ascii ''sfu'')" "0x22 \<notin> set (ascii ''relay'')" "0x22 \<notin> set (ascii ''alpn'')"
      "0x22 \<notin> set (ascii ''qad_port'')" "SFU_ALPN \<noteq> ascii ''qad_port''"
      "ascii ''sfu'' \<noteq> ascii ''relay''" "ascii ''sfu'' \<noteq> ascii ''alpn''" "ascii ''sfu'' \<noteq> ascii ''qad_port''"
      "ascii ''relay'' \<noteq> ascii ''alpn''" "ascii ''relay'' \<noteq> ascii ''qad_port''" "ascii ''alpn'' \<noteq> ascii ''qad_port''"
      "hd (ascii ''relay'') = 114" "hd (ascii ''alpn'') = 97" "hd (ascii ''qad_port'') = 113"
      "ascii ''relay'' \<noteq> []" "ascii ''alpn'' \<noteq> []" "ascii ''qad_port'' \<noteq> []" "ascii ''{'' = [0x7B]"
    by (simp_all add: ascii_def SFU_ALPN_def)
  note look = find_quoted_value find_quoted_byte find_str_here free vals keys
  show "json_field (sfu_info_json sfu relay q) (ascii ''sfu'') = Some sfu"
    by (rule json_field_quoted [where pre = "ascii ''{''"])
      (simp_all add: json free look del: find_str.simps)
  show "json_field (sfu_info_json sfu relay q) (ascii ''relay'') = Some relay"
    by (rule json_field_quoted [where pre = "ascii ''{'' @ quoted (ascii ''sfu'') @ 0x3A # quoted sfu @ [0x2C]"])
      (simp_all add: json look quoted_length del: find_str.simps)
  show "json_field (sfu_info_json sfu relay q) (ascii ''alpn'') = Some SFU_ALPN"
    by (rule json_field_quoted [where pre = "ascii ''{'' @ quoted (ascii ''sfu'') @ 0x3A # quoted sfu
          @ 0x2C # quoted (ascii ''relay'') @ 0x3A # quoted relay @ [0x2C]"])
      (simp_all add: json look quoted_length del: find_str.simps)
  have "graphic ?q" "?q \<noteq> []" "set ?q \<inter> {0x22, 0x2C, 0x7D} = {}"
    using dec_digits_graphic dec_digits_nonempty dec_digits_free by (auto simp: ascii_def split: option.splits)
  then show "json_field (sfu_info_json sfu relay q) (ascii ''qad_port'') = Some ?q"
    by (intro json_field_plain [where rest = "[]" and pre = "ascii ''{'' @ quoted (ascii ''sfu'') @ 0x3A # quoted sfu
          @ 0x2C # quoted (ascii ''relay'') @ 0x3A # quoted relay @ 0x2C # quoted (ascii ''alpn'') @ 0x3A # quoted SFU_ALPN
          @ [0x2C]"])
      (simp_all add: json look quoted_length del: find_str.simps)
qed

section \<open>Lemmas: messages\<close>

definition line_ok :: "bytes \<Rightarrow> bool" where
  "line_ok l \<longleftrightarrow> l \<noteq> [] \<and> 0x0D \<notin> set l \<and> 0x0A \<notin> set l"

lemma http_head_Cons: "ls \<noteq> [] \<Longrightarrow> http_head (l # ls) = l @ crlf @ http_head ls" "http_head [l] = l @ crlf @ crlf"
  by (simp_all add: http_head_def)

lemma length_http_head: "ls \<noteq> [] \<Longrightarrow> 4 \<le> length (http_head ls)"
  by (cases ls) (simp_all add: http_head_def crlf_def)

lemma find_blank_line:
  assumes "ls \<noteq> []" "\<forall>l \<in> set ls. line_ok l"
  shows "find_str (crlf @ crlf) (http_head ls @ body) = Some (length (http_head ls) - 4)"
  using assms
proof (induction ls)
  case (Cons l ls)
  have l: "0x0D \<notin> set l" using Cons.prems(2) by (simp add: line_ok_def)
  have skip: "find_str (crlf @ crlf) (l @ t) = map_option ((+) (length l)) (find_str (crlf @ crlf) t)" for t
    using find_str_skip [OF l, of "[0x0A, 0x0D, 0x0A]" t] by (simp add: crlf_def)
  show ?case
  proof (cases "ls = []")
    case True
    then show ?thesis
      using skip [of "crlf @ crlf @ body"] find_str_here [of "crlf @ crlf" body]
      by (simp add: http_head_Cons(2) crlf_def del: find_str.simps)
  next
    case False
    then obtain l2 ls2 where ls: "ls = l2 # ls2" by (cases ls) auto
    then obtain c t where c: "http_head ls @ body = c # t" "c \<noteq> 0x0D"
      using Cons.prems(2) by (cases l2) (auto simp: http_head_def line_ok_def)
    have "find_str (crlf @ crlf) (crlf @ c # t) = map_option ((+) 2) (find_str (crlf @ crlf) (c # t))"
      using c(2) by (simp add: crlf_def option.map_comp comp_def)
    then have "find_str (crlf @ crlf) (crlf @ http_head ls @ body) = Some (2 + (length (http_head ls) - 4))"
      using Cons.IH False Cons.prems(2) c(1) by simp
    then show ?thesis
      using skip [of "crlf @ http_head ls @ body"] length_http_head [OF False]
      by (simp add: http_head_Cons(1) [OF False] crlf_def del: find_str.simps)
  qed
qed simp

lemma first_line_crlf:
  assumes "line_ok l"
  shows "first_line (l @ crlf @ s) = l"
proof -
  have "takeWhile (\<lambda>b. b \<noteq> 0x0A) ((l @ [0x0D]) @ 0x0A # s) = l @ [0x0D]"
    by (rule takeWhile_stop) (use assms in \<open>simp add: line_ok_def\<close>)
  then show ?thesis by (simp add: first_line_def crlf_def Let_def)
qed

lemma first_line_http: "line_ok l \<Longrightarrow> first_line (http_head (l # ls) @ s) = l"
  using first_line_crlf by (simp add: http_head_def)

lemma split_message:
  assumes "line_ok l" "\<forall>l \<in> set ls. line_ok l" "ls \<noteq> []"
  obtains head where "split_once (crlf @ crlf) (http_head (l # ls) @ body) = Some (head, body)" "first_line head = l"
proof -
  let ?m = "http_head (l # ls) @ body" and ?i = "length (http_head (l # ls)) - 4"
  have i: "find_str (crlf @ crlf) ?m = Some ?i" using assms by (intro find_blank_line) auto
  have "?i = length (l @ crlf) + (length (http_head ls) - 4)"
    using length_http_head [OF assms(3)] by (simp add: http_head_Cons(1) [OF assms(3)])
  then have "take ?i ?m = l @ crlf @ take (length (http_head ls) - 4) (http_head ls @ body)"
    by (simp add: http_head_Cons(1) [OF assms(3)])
  then have "first_line (take ?i ?m) = l" using first_line_crlf [OF assms(1)] by metis
  moreover have "drop (?i + length (crlf @ crlf)) ?m = body"
    using length_http_head [of "l # ls"] by (simp add: crlf_def)
  ultimately show thesis
    using that [of "take ?i ?m"] i unfolding split_once_def by simp
qed

text \<open>Reading stops exactly at the end of the head.\<close>

lemma read_some_chunk:
  assumes "stream_bytes r \<noteq> []" "0 < n"
  shows "\<exists>chunk r1. read_some n r = (Some chunk, r1) \<and> chunk \<noteq> [] \<and> stream_bytes r = chunk @ stream_bytes r1
    \<and> tail r1 = tail r"
proof -
  obtain a r1 where rs: "read_some n r = (a, r1)" by fastforce
  have "a \<noteq> None" using read_some_None(1) [of n r r1] rs assms by auto
  then obtain chunk where c: "read_some n r = (Some chunk, r1)" using rs by auto
  then show ?thesis using read_some_Some(1,2,4) [OF c] assms by metis
qed

lemma read_head_whole:
  assumes "got @ stream_bytes r = m" "find_str (crlf @ crlf) m = Some (length m - 4)" "length got < length m" "length m \<le> 4096"
  shows "read_head got r = Some m"
  using assms
proof (induction got r rule: read_head.induct)
  case (1 got r)
  have room: "length got < 4096" and rest: "stream_bytes r \<noteq> []" using "1.prems" by auto
  from read_some_chunk [OF rest, of "4096 - length got"] room obtain chunk r1 where
    rs: "read_some (4096 - length got) r = (Some chunk, r1)" "chunk \<noteq> []" "stream_bytes r = chunk @ stream_bytes r1"
    by auto
  show ?case
  proof (cases "stream_bytes r1 = []")
    case True
    then have "got @ chunk = m" using "1.prems"(1) rs(3) by simp
    then show ?thesis using rs room "1.prems"(2) by (simp add: read_head.simps [of got r] head_complete_def)
  next
    case False
    have "\<not> head_complete (got @ chunk)"
    proof
      assume "head_complete (got @ chunk)"
      then obtain i where i: "find_str (crlf @ crlf) (got @ chunk) = Some i" by (auto simp: head_complete_def)
      have m: "m = (got @ chunk) @ stream_bytes r1" using "1.prems"(1) rs(3) by simp
      have "i = length m - 4" using find_str_append [OF i, of "stream_bytes r1"] "1.prems"(2) m by simp
      moreover have "i + 4 \<le> length (got @ chunk)" using find_str_bound [OF i] by (simp add: crlf_def)
      moreover have "length (got @ chunk) < length m" using m False by simp
      ultimately show False by simp
    qed
    moreover have "length (got @ chunk) < length m" using "1.prems"(1) rs(3) False by auto
    ultimately show ?thesis
      using "1.IH" [OF room rs(1) [symmetric] refl rs(2)] rs room "1.prems"
      by (simp add: read_head.simps [of got r])
  qed
qed

lemma exchange_whole:
  assumes "length response + length (stream_bytes r) < 64 * 1024" "tail r = Eof"
  shows "exchange unclean response r = Some (from_utf8_lossy (response @ stream_bytes r))"
  using assms
proof (induction unclean response r rule: exchange.induct)
  case (1 unclean response r)
  have room: "length response < 64 * 1024" using "1.prems"(1) by simp
  show ?case
  proof (cases "stream_bytes r = []")
    case True
    obtain a r1 where rs: "read_some 4096 r = (a, r1)" by fastforce
    then have "a = Some []"
      using True "1.prems"(2) read_some_None(3) [of 4096 r r1] read_some_Some(1) [of 4096 r _ r1] by (cases a) auto
    then show ?thesis using rs room True by (simp add: exchange.simps [of unclean response r])
  next
    case False
    then obtain chunk r1 where rs: "read_some 4096 r = (Some chunk, r1)" "chunk \<noteq> []"
        "stream_bytes r = chunk @ stream_bytes r1" "tail r1 = tail r"
      using read_some_chunk [of r 4096] by auto
    then show ?thesis
      using "1.IH" [OF room rs(1) [symmetric] refl rs(2)] room "1.prems"
      by (simp add: exchange.simps [of unclean response r])
  qed
qed

lemma ascii_lossy: "\<forall>b \<in> set s. b < 0x80 \<Longrightarrow> from_utf8_lossy s = s"
  by (intro from_utf8_lossy_valid ascii_valid)

lemma graphic_low:
  assumes "graphic s" "b \<in> set s"
  shows "b < 0x80 \<and> b \<noteq> 0x0D \<and> b \<noteq> 0x0A \<and> b \<noteq> 0x20"
proof -
  have "0x21 \<le> b" "b < 0x7F" using assms by (auto simp: graphic_def)
  moreover from this(2) have "b < 0x80" by (rule order.strict_trans) simp
  ultimately show ?thesis by auto
qed

lemma length_dec_digits: "n < 10 ^ Suc k \<Longrightarrow> length (dec_digits n) \<le> Suc k"
proof (induction k arbitrary: n)
  case (Suc k)
  have "n div 10 < 10 ^ Suc k" using Suc.prems by (simp add: less_mult_imp_div_less)
  from Suc.IH [OF this] show ?case by (subst dec_digits.simps) simp
qed (simp add: dec_digits.simps)

lemma request_words:
  assumes "graphic w" "w \<noteq> []"
  shows "split_whitespace (ascii ''GET '' @ w @ ascii '' HTTP/1.1'') = [ascii ''GET'', w, ascii ''HTTP/1.1'']"
proof -
  have "ascii ''GET '' @ w @ ascii '' HTTP/1.1'' = ascii ''GET'' @ 0x20 # w @ 0x20 # ascii ''HTTP/1.1''"
    by (simp add: ascii_def)
  moreover have "graphic (ascii ''GET'')" "ascii ''GET'' \<noteq> []" "graphic (ascii ''HTTP/1.1'')" "ascii ''HTTP/1.1'' \<noteq> []"
    by (simp_all add: ascii_def)
  ultimately show ?thesis using assms by (simp add: split_whitespace_word split_whitespace_space)
qed

lemma status_words: "split_whitespace (ascii ''HTTP/1.1 200 OK'') = [ascii ''HTTP/1.1'', ascii ''200'', ascii ''OK'']"
proof -
  have "ascii ''HTTP/1.1 200 OK'' = ascii ''HTTP/1.1'' @ 0x20 # ascii ''200'' @ 0x20 # ascii ''OK''"
    by (simp add: ascii_def)
  moreover have "graphic (ascii ''HTTP/1.1'')" "ascii ''HTTP/1.1'' \<noteq> []" "graphic (ascii ''200'')" "ascii ''200'' \<noteq> []"
      "graphic (ascii ''OK'')" "ascii ''OK'' \<noteq> []"
    by (simp_all add: ascii_def)
  ultimately show ?thesis by (simp add: split_whitespace_word split_whitespace_space)
qed

lemma json_low: "graphic sfu \<Longrightarrow> graphic relay \<Longrightarrow> graphic (sfu_info_json sfu relay q)"
  using dec_digits_graphic ascii_lossy [of SFU_ALPN]
  by (auto simp: sfu_info_json_def quoted_def Let_def ascii_def SFU_ALPN_def split: option.splits)

lemma json_parse:
  assumes "field_ok sfu" "field_ok relay" "parse_id sfu = Some i" "parse_url relay = Some u"
  shows "sfu_info_parse parse_id parse_url (sfu_info_json sfu relay q)
    = Inr \<lparr>i_sfu = i, i_relay = u, i_alpn = SFU_ALPN, i_qad_port = q\<rparr>"
proof -
  have "dec_digits (unat p) \<noteq> ascii ''null''" for p :: "16 word"
    using dec_digits_set [of "0x6E" "unat p"] by (auto simp: ascii_def)
  then show ?thesis
    using json_fields [OF assms(1,2)] assms(3,4) parse_u16_digits
    by (simp add: sfu_info_parse_def split: option.splits)
qed

definition info_response :: "bytes \<Rightarrow> bytes" where
  "info_response body = http_head [ascii ''HTTP/1.1 200 OK'', ascii ''Content-Type: application/json'',
     ascii ''Cache-Control: no-store'', ascii ''Content-Length: '' @ dec_digits (length body), ascii ''Connection: close''] @ body"

lemma respond_request:
  assumes "graphic host" "case query of None \<Rightarrow> True | Some q \<Rightarrow> graphic q \<and> length q \<le> 1000" "length host \<le> 1000"
    and "stream_bytes r = fetch_request host INFO_PATH query"
  shows "respond r body = Some (info_response body)"
proof -
  let ?w = "case query of Some q \<Rightarrow> INFO_PATH @ ascii ''?'' @ q | None \<Rightarrow> INFO_PATH"
  let ?ls = "[ascii ''GET '' @ ?w @ ascii '' HTTP/1.1'', ascii ''Host: '' @ host, ascii ''Accept: application/json'', ascii ''Connection: close'']"
  have w: "graphic ?w" "?w \<noteq> []" "length ?w \<le> 1010" "split_first {0x3F} ?w = INFO_PATH"
    using assms(2) by (auto simp: INFO_PATH_def ascii_def split_first_def split: option.splits)
  have m: "fetch_request host INFO_PATH query = http_head ?ls" by (simp add: fetch_request_def Let_def)
  have ok: "\<forall>l \<in> set ?ls. line_ok l"
    using graphic_low [OF w(1)] graphic_low [OF assms(1)] by (auto simp: line_ok_def ascii_def)
  have "find_str (crlf @ crlf) (http_head ?ls) = Some (length (http_head ?ls) - 4)"
    using find_blank_line [OF _ ok, of "[]"] by simp
  moreover have "length (http_head ?ls) \<le> 4096" using w(3) assms(3) by (simp add: http_head_def crlf_def ascii_def)
  ultimately have rd: "read_head [] r = Some (http_head ?ls)"
    using assms(4) m by (intro read_head_whole) (auto simp: http_head_def crlf_def)
  have "from_utf8_lossy (http_head ?ls) = http_head ?ls"
    using graphic_low [OF w(1)] graphic_low [OF assms(1)]
    by (intro ascii_lossy) (auto simp: http_head_def crlf_def ascii_def)
  moreover have "first_line (http_head ?ls) = ascii ''GET '' @ ?w @ ascii '' HTTP/1.1''"
    using ok first_line_http [of _ _ "[]"] by simp
  moreover have "ascii ''GET'' \<noteq> ascii ''HEAD''" by (simp add: ascii_def)
  ultimately show ?thesis
    using rd w by (simp add: respond_def respond_to_def request_words info_response_def Let_def)
qed

section \<open>Properties\<close>

text \<open>The info endpoint, end to end. A client that asks for the document (with or without a query
  string) is answered 200 with it, however the request was cut into segments; and whatever way the
  answer arrives, \<open>fetch_response\<close> gets back the SFU id, the relay and the QAD port it was made from.\<close>

lemma info_round_trip:
  assumes "field_ok sfu" "field_ok relay" "parse_id sfu = Some i" "parse_url relay = Some u"
    and "length sfu \<le> 1000" "length relay \<le> 1000"
    and "graphic host" "length host \<le> 1000" "case query of None \<Rightarrow> True | Some q \<Rightarrow> graphic q \<and> length q \<le> 1000"
    and "stream_bytes req = fetch_request host INFO_PATH query"
    and "respond req (sfu_info_json sfu relay qad_port) = Some answer" "stream_bytes r = answer" "tail r = Eof"
  shows "fetch_response parse_id parse_url unclean r
    = Inr \<lparr>i_sfu = i, i_relay = u, i_alpn = SFU_ALPN, i_qad_port = qad_port\<rparr>"
proof -
  let ?body = "sfu_info_json sfu relay qad_port"
  let ?ls = "[ascii ''Content-Type: application/json'', ascii ''Cache-Control: no-store'',
    ascii ''Content-Length: '' @ dec_digits (length ?body), ascii ''Connection: close'']"
  have a: "answer = http_head (ascii ''HTTP/1.1 200 OK'' # ?ls) @ ?body"
    using respond_request [OF assms(7,9,8,10)] assms(11) by (simp add: info_response_def)
  have g: "graphic ?body" using json_low assms(1,2) by (simp add: field_ok_def)
  have ok: "\<forall>l \<in> set ?ls. line_ok l" "line_ok (ascii ''HTTP/1.1 200 OK'')"
    using graphic_low [OF dec_digits_graphic] by (auto simp: line_ok_def ascii_def)
  have "from_utf8_lossy answer = answer"
    unfolding a using graphic_low [OF g] graphic_low [OF dec_digits_graphic]
    by (intro ascii_lossy) (auto simp: http_head_def crlf_def ascii_def)
  moreover have "length answer < 64 * 1024"
  proof -
    have "length (case qad_port of None \<Rightarrow> ascii ''null'' | Some p \<Rightarrow> dec_digits (unat p)) \<le> 5"
    proof (cases qad_port)
      case (Some p)
      have "unat p < 2 ^ LENGTH(16)" by (rule unsigned_less)
      then show ?thesis using length_dec_digits [of "unat p" 4] Some by simp
    qed (simp add: ascii_def)
    then have "length ?body \<le> 3000"
      using assms(5,6) ascii_lossy [of SFU_ALPN]
      by (simp add: sfu_info_json_def quoted_def ascii_def SFU_ALPN_def Let_def split: option.splits)
    moreover from this have "length (dec_digits (length ?body)) \<le> 4" using length_dec_digits [of "length ?body" 3] by simp
    ultimately show ?thesis by (simp add: a http_head_def crlf_def ascii_def)
  qed
  ultimately have ex: "exchange unclean [] r = Some answer"
    using exchange_whole [of "[]" r unclean] assms(12,13) by simp
  obtain head where "split_once (crlf @ crlf) answer = Some (head, ?body)" "first_line head = ascii ''HTTP/1.1 200 OK''"
    using split_message [OF ok(2,1), of ?body] a by auto
  then show ?thesis
    using ex json_parse [OF assms(1,2), of parse_id i parse_url u qad_port, OF assms(3,4)]
    by (simp add: fetch_response_def fetch_parse_def status_words Let_def)
qed

text \<open>The retry delay stays within its bounds, and the first retry after a success is the shortest.\<close>

theorem accept_backoff:
  assumes "ACCEPT_BACKOFF_MIN \<le> backoff" "backoff \<le> ACCEPT_BACKOFF_MAX"
  shows "\<forall>d \<in> set (serve_delays backoff accepts). ACCEPT_BACKOFF_MIN \<le> d \<and> d \<le> ACCEPT_BACKOFF_MAX"
  using assms
  by (induction backoff accepts rule: serve_delays.induct)
    (auto simp: next_backoff_def ACCEPT_BACKOFF_MIN_def ACCEPT_BACKOFF_MAX_def)

text \<open>A request: at most 4096 bytes of it are read, and what is read is a prefix of what was sent.\<close>

lemma read_head_prefix:
  assumes "read_head got r = Some buf" "length got \<le> 4096"
  shows "\<exists>rest. got @ stream_bytes r = buf @ rest \<and> length buf \<le> 4096"
  using assms
proof (induction got r arbitrary: buf rule: read_head.induct)
  case (1 got r)
  show ?case
  proof (cases "length got < 4096")
    case False
    then show ?thesis using "1.prems" by (simp add: read_head.simps [of got r])
  next
    case True
    obtain a r1 where rs: "read_some (4096 - length got) r = (a, r1)" by fastforce
    with "1.prems"(1) True obtain chunk where c: "a = Some chunk" by (cases a) (auto simp: read_head.simps [of got r])
    note s = read_some_Some [OF rs [unfolded c]]
    consider "chunk = []" | "chunk \<noteq> []" "head_complete (got @ chunk)" | "chunk \<noteq> []" "\<not> head_complete (got @ chunk)" by blast
    then show ?thesis
    proof cases
      case 3
      with "1.IH" [OF True rs [symmetric] c] "1.prems"(1) True rs c s show ?thesis
        by (simp add: read_head.simps [of got r])
    next
      case 1
      then have "buf = got" using "1.prems"(1) True rs c by (simp add: read_head.simps [of got r])
      then show ?thesis using True by simp
    next
      case 2
      then have "buf = got @ chunk" using "1.prems"(1) True rs c by (simp add: read_head.simps [of got r])
      then show ?thesis using s(1,3) True by simp
    qed
  qed
qed

text \<open>C27: the handler bounds what an unauthenticated client can make it do. It reads at most 4096 bytes,
  answers 404 to everything but GET and HEAD of the document's path, and its answer carries the
  document only for GET; whatever it reads, the answer is at most the document and a fixed head.\<close>

theorem respond_bounded:
  assumes "respond r body = Some answer" "length body < 10 ^ 9"
  shows "length answer \<le> length body + 200
    \<and> (answer = info_response body \<or> answer = take (length (info_response body) - length body) (info_response body)
       \<or> answer = http_head [ascii ''HTTP/1.1 404 Not Found'', ascii ''Content-Length: 0'', ascii ''Connection: close''])
    \<and> (\<exists>buf. prefix buf (stream_bytes r) \<and> length buf \<le> 4096 \<and> answer = respond_to (from_utf8_lossy buf) body)"
proof (intro conjI)
  obtain buf where buf: "read_head [] r = Some buf" "answer = respond_to (from_utf8_lossy buf) body"
    using assms(1) by (auto simp: respond_def)
  from read_head_prefix [OF buf(1)] buf(2)
  show "\<exists>buf. prefix buf (stream_bytes r) \<and> length buf \<le> 4096 \<and> answer = respond_to (from_utf8_lossy buf) body"
    by (auto simp: prefix_def)
  show cases: "answer = info_response body \<or> answer = take (length (info_response body) - length body) (info_response body)
       \<or> answer = http_head [ascii ''HTTP/1.1 404 Not Found'', ascii ''Content-Length: 0'', ascii ''Connection: close'']"
    unfolding buf(2) respond_to_def info_response_def Let_def by auto
  have "length (dec_digits (length body)) \<le> 9" using length_dec_digits [of "length body" 8] assms(2) by simp
  then have "length (info_response body) \<le> length body + 200"
    by (simp add: info_response_def http_head_def crlf_def ascii_def)
  then show "length answer \<le> length body + 200"
    using cases by (auto simp: http_head_def crlf_def ascii_def)
qed

definition sample_request :: reader where
  "sample_request = \<lparr>segs = [fetch_request (ascii ''r.example'') INFO_PATH None], tail = Eof\<rparr>"

lemma sample_respond: "respond sample_request body = Some (info_response body)"
  by (rule respond_request [where host = "ascii ''r.example''" and query = None])
    (simp_all add: sample_request_def stream_bytes_def ascii_def)

theorem respond_bounded_witness: "length (info_response [1, 2]) \<le> length [1, 2 :: byte] + 200"
  using respond_bounded [OF sample_respond, of "[1, 2]"] by simp

end
