(* ===== verification/Tls.thy ===== *)
theory Tls
  imports SFU_Prelude
begin

text \<open>
  The TLS material of \<open>src/src/tls.rs\<close>: the certificate files of a deployment, the self-signed certificate of
  a development server, and the trust anchors a client reads from a file.

  rustls, rcgen, the PEM parser and iroh-relay's resolver are the fields of \<open>tls_lib\<close>; a call that fails is
  \<open>None\<close>. Certificates, keys, configurations and trust anchors are type parameters.
\<close>

section \<open>The libraries\<close>

text \<open>\<open>'d\<close>: certificates, \<open>'q\<close>: private keys, \<open>'b\<close>: configuration builders, \<open>'r\<close>: certificate resolvers,
  \<open>'s\<close>: server configurations, \<open>'t\<close>: trust anchors. A generated certificate comes with its PEM text and its
  serialised key; parsing a PEM text gives one result per certificate section.\<close>

record ('d, 'q, 'b, 'r, 's, 't) tls_lib =
  tl_safe_versions :: "'b option"
  tl_no_client_auth :: "'b \<Rightarrow> 'b"
  tl_resolver :: "'b \<Rightarrow> bytes \<Rightarrow> bytes \<Rightarrow> 'r option"
  tl_with_resolver :: "'b \<Rightarrow> 'r \<Rightarrow> 's"
  tl_single_cert :: "'b \<Rightarrow> 'd list \<Rightarrow> 'q \<Rightarrow> 's option"
  tl_self_signed :: "bytes list \<Rightarrow> ('d \<times> bytes \<times> bytes) option"
  tl_pkcs8 :: "bytes \<Rightarrow> 'q"
  tl_pem_certs :: "bytes \<Rightarrow> 'd option list"
  tl_custom_roots :: "'d list \<Rightarrow> 't"

datatype tls_error = NoSafeVersions | LoadingCertificate | GeneratingFailed | CertificateRefused
  | ReadingPem bytes | ParsingPem bytes

datatype 's cert_config = Manual 's

section \<open>Operations\<close>

definition server_config_builder :: "('d, 'q, 'b, 'r, 's, 't) tls_lib \<Rightarrow> tls_error + 'b" where
  "server_config_builder lib =
     (case tl_safe_versions lib of None \<Rightarrow> Inl NoSafeVersions | Some b \<Rightarrow> Inr (tl_no_client_auth lib b))"

definition reloading_cert :: "('d, 'q, 'b, 'r, 's, 't) tls_lib \<Rightarrow> bytes \<Rightarrow> bytes \<Rightarrow> tls_error + 's cert_config" where
  "reloading_cert lib cert_path key_path =
     and_then (server_config_builder lib) (\<lambda>builder.
       case tl_resolver lib builder cert_path key_path of
         None \<Rightarrow> Inl LoadingCertificate
       | Some resolver \<Rightarrow> Inr (Manual (tl_with_resolver lib builder resolver)))"

record ('d, 'q) dev_cert =
  dc_cert :: 'd
  dc_cert_pem :: bytes
  dc_key :: 'q

definition dev_cert_names :: "bytes list \<Rightarrow> bytes list" where
  "dev_cert_names hosts = [ascii ''localhost'', ascii ''127.0.0.1'', ascii ''::1''] @ hosts"

definition dev_cert_generate :: "('d, 'q, 'b, 'r, 's, 't) tls_lib \<Rightarrow> bytes list \<Rightarrow> tls_error + ('d, 'q) dev_cert" where
  "dev_cert_generate lib hosts =
     (case tl_self_signed lib (dev_cert_names hosts) of
        None \<Rightarrow> Inl GeneratingFailed
      | Some (der, pem, key_der) \<Rightarrow> Inr \<lparr>dc_cert = der, dc_cert_pem = pem, dc_key = tl_pkcs8 lib key_der\<rparr>)"

definition dev_cert_config ::
  "('d, 'q, 'b, 'r, 's, 't) tls_lib \<Rightarrow> ('d, 'q) dev_cert \<Rightarrow> tls_error + 's cert_config" where
  "dev_cert_config lib dev =
     and_then (server_config_builder lib) (\<lambda>builder.
       case tl_single_cert lib builder [dc_cert dev] (dc_key dev) of
         None \<Rightarrow> Inl CertificateRefused
       | Some server_config \<Rightarrow> Inr (Manual server_config))"

definition dev_cert_ca :: "('d, 'q, 'b, 'r, 's, 't) tls_lib \<Rightarrow> ('d, 'q) dev_cert \<Rightarrow> 't" where
  "dev_cert_ca lib dev = tl_custom_roots lib [dc_cert dev]"

text \<open>\<open>files\<close> are the readable files. The first section that does not parse fails the whole.\<close>

definition ca_from_pem_file ::
  "('d, 'q, 'b, 'r, 's, 't) tls_lib \<Rightarrow> (bytes \<rightharpoonup> bytes) \<Rightarrow> bytes \<Rightarrow> tls_error + 't" where
  "ca_from_pem_file lib files path =
     (case files path of
        None \<Rightarrow> Inl (ReadingPem path)
      | Some text \<Rightarrow>
          (case those (tl_pem_certs lib text) of
             None \<Rightarrow> Inl (ParsingPem path)
           | Some roots \<Rightarrow> Inr (tl_custom_roots lib roots)))"

section \<open>What the libraries promise\<close>

text \<open>The PEM text rcgen gives for a certificate parses to that certificate and nothing else.\<close>

definition pem_faithful :: "('d, 'q, 'b, 'r, 's, 't) tls_lib \<Rightarrow> bool" where
  "pem_faithful lib \<longleftrightarrow>
     (\<forall>names der pem key. tl_self_signed lib names = Some (der, pem, key) \<longrightarrow> tl_pem_certs lib pem = [Some der])"

section \<open>Lemmas\<close>

lemma dev_cert_generate_pem:
  "pem_faithful lib \<Longrightarrow> dev_cert_generate lib hosts = Inr dev \<Longrightarrow> tl_pem_certs lib (dc_cert_pem dev) = [Some (dc_cert dev)]"
  unfolding pem_faithful_def dev_cert_generate_def by (fastforce split: option.splits)

text \<open>A client that reads the written certificate trusts what the server itself trusts.\<close>

lemma dev_cert_trusted:
  assumes "pem_faithful lib" "dev_cert_generate lib hosts = Inr dev" "files path = Some (dc_cert_pem dev)"
  shows "ca_from_pem_file lib files path = Inr (dev_cert_ca lib dev)"
  using assms(3) dev_cert_generate_pem [OF assms(1,2)] by (simp add: ca_from_pem_file_def dev_cert_ca_def)

text \<open>Which failures there are, and in which order they are found.\<close>

lemma those_None: "those xs = None \<longleftrightarrow> None \<in> set xs"
  by (induction xs) (auto split: option.splits)

lemma ca_from_pem_file_errors:
  "ca_from_pem_file lib files path = Inl e \<longleftrightarrow>
     e = ReadingPem path \<and> files path = None
     \<or> e = ParsingPem path \<and> (\<exists>text. files path = Some text \<and> None \<in> set (tl_pem_certs lib text))"
  by (auto simp: ca_from_pem_file_def those_None [symmetric] split: option.splits)

end
