(* ===== verification/Probe.thy ===== *)
theory Probe
  imports Client Info Tls
begin

text \<open>
  The probe, \<open>src/src/bin/kt-probe.rs\<close>: what it keeps of every peer, how it learns peers from
  presence blobs and decides who dials, the messages it exchanges through the SFU (pings, pongs, bulk
  probes and their acknowledgements), its datagrams and its ping stream.

  Times are nanoseconds since the probe started. What a handler does to the outside is the list of
  actions it returns; lines it prints are left out. The order on endpoint ids is iroh's: the argument
  \<open>lt\<close>.
\<close>

section \<open>State\<close>

definition BLOB_MAGIC :: bytes where "BLOB_MAGIC = ascii ''kt-probe/1:''"
definition BULK_PROBE_LEN :: usize where "BULK_PROBE_LEN = 256 * 1024"

record peer_stats =
  ps_learned_at :: "nat option"
  ps_connected_after :: "nat option"
  ps_direct_after :: "nat option"
  ps_conn :: bool
  ps_initiator :: bool
  ps_last_rtt :: "nat option"
  ps_last_ping :: "nat option"
  ps_pings_ok :: u64
  ps_dgrams_sent :: u64
  ps_dgrams_echoed :: u64
  ps_sfu_rtt :: "nat option"
  ps_sfu_pongs :: u64
  ps_sfu_dgrams :: u64
  ps_bulk_rtt :: "nat option"
  ps_bulk_in :: u64

definition peer_stats_default :: peer_stats where
  "peer_stats_default = \<lparr>ps_learned_at = None, ps_connected_after = None, ps_direct_after = None, ps_conn = False,
     ps_initiator = False, ps_last_rtt = None, ps_last_ping = None, ps_pings_ok = 0, ps_dgrams_sent = 0,
     ps_dgrams_echoed = 0, ps_sfu_rtt = None, ps_sfu_pongs = 0, ps_sfu_dgrams = 0, ps_bulk_rtt = None, ps_bulk_in = 0\<rparr>"

record mesh =
  me_id :: endpoint_id
  me_peers :: "(endpoint_id, peer_stats) hash_map"
  me_joined :: bool
  me_bulk_sent :: "(nat \<times> usize) option"

definition mesh_new :: "endpoint_id \<Rightarrow> mesh" where
  "mesh_new me = \<lparr>me_id = me, me_peers = [], me_joined = False, me_bulk_sent = None\<rparr>"

datatype probe_action = Dial endpoint_id | ClosePeer endpoint_id
  | SendTo lane endpoint_id bytes | SendAll lane bytes | SendDatagram bytes

section \<open>Fields\<close>

definition put_u64 :: "u64 \<Rightarrow> bytes" where
  "put_u64 w = put_u32 (ucast (drop_bit 32 w)) @ put_u32 (ucast w)"

text \<open>\<open>get_u64\<close> and \<open>get_u32\<close>: the value and the rest.\<close>

definition get_u64 :: "bytes \<Rightarrow> nat \<times> bytes" where
  "get_u64 bs = (from_be (take 8 bs), drop 8 bs)"

definition get_u32 :: "bytes \<Rightarrow> nat \<times> bytes" where
  "get_u32 bs = (from_be (take 4 bs), drop 4 bs)"

definition probe_take_id :: "(bytes \<Rightarrow> bool) \<Rightarrow> bytes \<Rightarrow> endpoint_id option \<times> bytes" where
  "probe_take_id vk payload =
     (if length payload < 32 then (None, payload)
      else (if vk (take 32 payload) then Some (EndpointId (take 32 payload)) else None, drop 32 payload))"

definition parse_blob :: "(bytes \<Rightarrow> bool) \<Rightarrow> bytes \<Rightarrow> endpoint_id option" where
  "parse_blob vk blob =
     (if take (length BLOB_MAGIC) blob = BLOB_MAGIC
      then let rest = drop (length BLOB_MAGIC) blob
           in if length rest = 32 \<and> vk rest then Some (EndpointId rest) else None
      else None)"

text \<open>The blob a probe announces.\<close>

definition probe_blob :: "endpoint_id \<Rightarrow> bytes" where
  "probe_blob me = BLOB_MAGIC @ id_bytes me"

section \<open>The mesh\<close>

definition peer :: "endpoint_id \<Rightarrow> mesh \<Rightarrow> peer_stats" where
  "peer i m = (case hm_get (me_peers m) i of None \<Rightarrow> peer_stats_default | Some p \<Rightarrow> p)"

text \<open>\<open>entry(id).or_default()\<close>, then a change to the entry.\<close>

definition on_peer :: "endpoint_id \<Rightarrow> (peer_stats \<Rightarrow> peer_stats) \<Rightarrow> mesh \<Rightarrow> mesh" where
  "on_peer i f m = m\<lparr>me_peers := hm_insert i (f (peer i m)) (me_peers m)\<rparr>"

definition known_peers :: "mesh \<Rightarrow> usize" where
  "known_peers m = length (filter (\<lambda>(_, p). ps_learned_at p \<noteq> None) (me_peers m))"

definition since :: "nat \<Rightarrow> nat \<Rightarrow> nat" where
  "since now sent_ns = now - sent_ns"

definition learn :: "(bytes \<Rightarrow> bool) \<Rightarrow> (endpoint_id \<Rightarrow> endpoint_id \<Rightarrow> bool) \<Rightarrow> nat \<Rightarrow> endpoint_id \<Rightarrow> bytes \<Rightarrow> mesh
    \<Rightarrow> mesh \<times> probe_action list" where
  "learn vk lt now reported blob m =
     (case parse_blob vk blob of
        None \<Rightarrow> (m, [])
      | Some i \<Rightarrow>
          if i \<noteq> reported then (m, [])
          else if ps_learned_at (peer i m) \<noteq> None then (on_peer i (\<lambda>p. p) m, [])
          else (on_peer i (\<lambda>p. p\<lparr>ps_learned_at := Some now\<rparr>) m, if lt (me_id m) i then [Dial i] else []))"

definition forget :: "endpoint_id \<Rightarrow> mesh \<Rightarrow> mesh \<times> probe_action list" where
  "forget i m =
     (case hm_get (me_peers m) i of
        None \<Rightarrow> (m, [])
      | Some p \<Rightarrow> if ps_conn p then (on_peer i (\<lambda>p. p\<lparr>ps_conn := False\<rparr>) m, [ClosePeer i]) else (m, []))"

fun learn_all :: "(bytes \<Rightarrow> bool) \<Rightarrow> (endpoint_id \<Rightarrow> endpoint_id \<Rightarrow> bool) \<Rightarrow> nat \<Rightarrow> member list \<Rightarrow> mesh
    \<Rightarrow> mesh \<times> probe_action list" where
  "learn_all vk lt now [] m = (m, [])"
| "learn_all vk lt now (member # rest) m =
     (let (m1, as1) = learn vk lt now (m_id member) (m_blob member) m;
          (m2, as2) = learn_all vk lt now rest m1
      in (m2, as1 @ as2))"

definition mesh_session_frame :: "(bytes \<Rightarrow> bool) \<Rightarrow> (endpoint_id \<Rightarrow> endpoint_id \<Rightarrow> bool) \<Rightarrow> nat \<Rightarrow> server_frame
    \<Rightarrow> mesh \<Rightarrow> mesh \<times> probe_action list" where
  "mesh_session_frame vk lt now frame m =
     (case frame of
        Snapshot _ _ mbs \<Rightarrow>
          (let (m1, as) = learn_all vk lt now mbs m in (m1\<lparr>me_joined := True\<rparr>, as))
      | Joined _ _ \<Rightarrow> (m, [])
      | Presence _ i blob \<Rightarrow> learn vk lt now i blob m
      | Left _ i \<Rightarrow> forget i m
      | Deliver _ _ \<Rightarrow> (m, [])
      | Error _ _ \<Rightarrow> (m, []))"

text \<open>\<open>sfu_message\<close>, by the kind of the message: \<open>P\<close>, \<open>Q\<close>, \<open>B\<close>, \<open>A\<close>.\<close>

definition sfu_message :: "(bytes \<Rightarrow> bool) \<Rightarrow> nat \<Rightarrow> delivery \<Rightarrow> mesh \<Rightarrow> mesh \<times> probe_action list" where
  "sfu_message vk now d m =
     (case dl_payload d of
        [] \<Rightarrow> (m, [])
      | kind # payload \<Rightarrow>
          let total = length (dl_payload d)
          in if kind = 0x50 \<and> length payload \<ge> 48 then
               (case probe_take_id vk payload of
                  (None, _) \<Rightarrow> (m, [])
                | (Some from, rest) \<Rightarrow>
                    (m, [SendTo Control from ([0x51] @ id_bytes from @ id_bytes (me_id m) @ rest)]))
             else if kind = 0x51 \<and> length payload \<ge> 80 then
               (let (to1, rest1) = probe_take_id vk payload; (from1, rest2) = probe_take_id vk rest1
                in case (to1, from1) of
                     (Some to, Some from) \<Rightarrow>
                       if to \<noteq> me_id m then (m, [])
                       else let (_, rest3) = get_u64 rest2; (t_ns, _) = get_u64 rest3
                            in (on_peer from (\<lambda>p. p\<lparr>ps_sfu_rtt := Some (since now t_ns), ps_sfu_pongs := ps_sfu_pongs p + 1\<rparr>) m, [])
                   | _ \<Rightarrow> (m, []))
             else if kind = 0x42 \<and> length payload \<ge> 48 then
               (case probe_take_id vk payload of
                  (None, _) \<Rightarrow> (m, [])
                | (Some from, rest) \<Rightarrow>
                    let (_, rest1) = get_u64 rest; (sent_ns, _) = get_u64 rest1
                    in (on_peer from (\<lambda>p. p\<lparr>ps_bulk_in := ps_bulk_in p + of_nat total\<rparr>) m,
                        [SendTo Control from ([0x41] @ id_bytes from @ id_bytes (me_id m)
                           @ put_u64 (of_nat sent_ns) @ put_u32 (of_nat total))]))
             else if kind = 0x41 \<and> length payload \<ge> 76 then
               (let (to1, rest1) = probe_take_id vk payload; (from1, rest2) = probe_take_id vk rest1
                in case (to1, from1) of
                     (Some to, Some from) \<Rightarrow>
                       if to \<noteq> me_id m then (m, [])
                       else let (t_ns, _) = get_u64 rest2
                            in (on_peer from (\<lambda>p. p\<lparr>ps_bulk_rtt := Some (since now t_ns)\<rparr>) m, [])
                   | _ \<Rightarrow> (m, []))
             else (m, []))"

text \<open>One turn of \<open>sfu_ping_loop\<close> once joined: the first turn that knows a peer publishes the bulk
  probe; every turn publishes a ping and a datagram. \<open>sent\<close>: whether the publish of the ping went
  out (the loop ends when it does not); the counter is the next \<open>seq\<close>.\<close>

definition sfu_ping_turn :: "nat \<Rightarrow> nat \<Rightarrow> bool \<Rightarrow> u64 \<Rightarrow> mesh \<Rightarrow> bool \<times> u64 \<times> mesh \<times> probe_action list" where
  "sfu_ping_turn bulk_at ping_at sent seq0 m =
     (let seq = seq0 + 1;
          peers = known_peers m;
          (m1, bulk) =
            (if me_bulk_sent m = None \<and> peers > 0
             then (m\<lparr>me_bulk_sent := Some (bulk_at, peers)\<rparr>,
                   [SendAll Bulk (let b = [0x42] @ id_bytes (me_id m) @ put_u64 seq @ put_u64 (of_nat bulk_at)
                                  in take BULK_PROBE_LEN b @ replicate (BULK_PROBE_LEN - length b) 0)])
             else (m, []));
          ping = SendAll Control ([0x50] @ id_bytes (me_id m) @ put_u64 seq @ put_u64 (of_nat ping_at))
      in if \<not> sent then (False, seq, m1, bulk @ [ping])
         else (True, seq, m1, bulk @ [ping, SendDatagram (id_bytes (me_id m) @ put_u64 seq)]))"

definition sfu_datagram :: "(bytes \<Rightarrow> bool) \<Rightarrow> bytes \<Rightarrow> mesh \<Rightarrow> mesh" where
  "sfu_datagram vk payload m =
     (if length payload < 32 then m
      else if \<not> vk (take 32 payload) then m
      else on_peer (EndpointId (take 32 payload)) (\<lambda>p. p\<lparr>ps_sfu_dgrams := ps_sfu_dgrams p + 1\<rparr>) m)"

text \<open>A peer that dialled us, before \<open>run_peer\<close>.\<close>

definition accept_peer :: "nat \<Rightarrow> endpoint_id \<Rightarrow> mesh \<Rightarrow> mesh" where
  "accept_peer now i m =
     on_peer i (\<lambda>p. p\<lparr>ps_learned_at := (case ps_learned_at p of None \<Rightarrow> Some now | t \<Rightarrow> t)\<rparr>) m"

definition run_peer :: "nat \<Rightarrow> endpoint_id \<Rightarrow> bool \<Rightarrow> mesh \<Rightarrow> mesh" where
  "run_peer now i initiator m =
     on_peer i (\<lambda>p. p\<lparr>ps_connected_after := Some (now - (case ps_learned_at p of None \<Rightarrow> now | Some t \<Rightarrow> t)),
                      ps_conn := True, ps_initiator := initiator\<rparr>) m"

text \<open>\<open>watch_paths\<close> on a selected path: the first direct one is timed.\<close>

definition path_selected :: "nat \<Rightarrow> bool \<Rightarrow> peer_stats \<Rightarrow> peer_stats" where
  "path_selected elapsed is_ip p =
     (if is_ip then p\<lparr>ps_direct_after := (case ps_direct_after p of None \<Rightarrow> Some elapsed | t \<Rightarrow> t)\<rparr> else p)"

text \<open>One turn of \<open>ping_loop\<close>: the datagram and the ping of this \<open>seq\<close>, and what came back (\<open>None\<close>: a
  write or read error or the timeout).\<close>

datatype ping_error = PingLost | SequenceMismatch

definition ping_turn :: "bool \<Rightarrow> bytes option \<Rightarrow> nat \<Rightarrow> u64 \<Rightarrow> u64 \<Rightarrow> peer_stats
    \<Rightarrow> (ping_error + unit) \<times> u64 \<times> peer_stats \<times> bytes" where
  "ping_turn dgram_ok back elapsed echoed seq0 p =
     (let seq = seq0 + 1; payload = put_u64 seq;
          p1 = (if dgram_ok then p\<lparr>ps_dgrams_sent := ps_dgrams_sent p + 1\<rparr> else p)
      in case back of
           None \<Rightarrow> (Inl PingLost, seq, p1, payload)
         | Some bs \<Rightarrow>
             if fst (get_u64 bs) \<noteq> unat seq then (Inl SequenceMismatch, seq, p1, payload)
             else (Inr (), seq, p1\<lparr>ps_last_ping := Some elapsed, ps_pings_ok := ps_pings_ok p1 + 1,
                                     ps_dgrams_echoed := echoed\<rparr>, payload))"

text \<open>\<open>ping_loop\<close>, tick by tick: whether the datagram went out, the time until the answer and the echoed
  datagrams so far are the tick's, the answers are read from the stream \<open>back\<close> in units of 8 bytes.
  The result is the state after the ticks, or the error with the state it left, and what was written.\<close>

fun ping_loop :: "(bool \<times> nat \<times> u64) list \<Rightarrow> bytes \<Rightarrow> u64 \<Rightarrow> peer_stats \<Rightarrow> (ping_error + unit) \<times> peer_stats \<times> bytes" where
  "ping_loop [] back seq0 p = (Inr (), p, [])"
| "ping_loop ((dgram_ok, elapsed, echoed) # ticks) back seq0 p =
     (case ping_turn dgram_ok (if length back < 8 then None else Some (take 8 back)) elapsed echoed seq0 p of
        (Inl e, seq, p1, payload) \<Rightarrow> (Inl e, p1, payload)
      | (Inr _, seq, p1, payload) \<Rightarrow>
          (case ping_loop ticks (drop 8 back) seq p1 of (r, p2, out) \<Rightarrow> (r, p2, payload @ out)))"

text \<open>\<open>echo_loop\<close>: what the responder writes back for what it reads, 8 bytes at a time.\<close>

function echo_loop :: "bytes \<Rightarrow> bytes" where
  "echo_loop recv = (if length recv < 8 then [] else take 8 recv @ echo_loop (drop 8 recv))"
  by pat_completeness auto
termination by (relation "measure length") auto

declare echo_loop.simps [simp del]

text \<open>One tick of \<open>status_loop\<close>: the round-trip time of every open connection is sampled. \<open>path i\<close> is
  \<open>None\<close> for a closed connection and otherwise the selected path's estimate, if there is one.\<close>

definition status_tick :: "(endpoint_id \<Rightarrow> nat option option) \<Rightarrow> mesh \<Rightarrow> mesh" where
  "status_tick path m = m\<lparr>me_peers := map (\<lambda>(i, p).
     (i, if \<not> ps_conn p then p
         else case path i of
                None \<Rightarrow> p
              | Some None \<Rightarrow> p
              | Some (Some rtt) \<Rightarrow> p\<lparr>ps_last_rtt := Some rtt\<rparr>)) (me_peers m)\<rparr>"

text \<open>The figures of the bulk line of \<open>print_summary\<close>: when and to how many peers the bulk publish went,
  how many acknowledged it and the slowest of them.\<close>

definition bulk_summary :: "mesh \<Rightarrow> ((nat \<times> usize) \<times> usize \<times> nat option) option" where
  "bulk_summary m =
     (case me_bulk_sent m of
        None \<Rightarrow> None
      | Some sent \<Rightarrow>
          let acked = List.map_filter (\<lambda>(_, p). ps_bulk_rtt p) (me_peers m)
          in Some (sent, length acked, if acked = [] then None else Some (Max (set acked))))"

section \<open>Setting a probe up\<close>

text \<open>Where \<open>room\<close> takes the SFU's id, the relay and the address-discovery port from: the info endpoint's
  answer when \<open>--info\<close> was given, the arguments otherwise.\<close>

datatype room_error = InfoFailed info_error | SfuRequired | RelayRequired | RelayCa tls_error | ProbeNotBound
  | BadTopic "topic hex_result" | NotConnected connect_error | NotEntered client_error

definition room_target :: "(info_error + 'u sfu_info) option \<Rightarrow> endpoint_id option \<Rightarrow> 'u option \<Rightarrow> 16 word option
    \<Rightarrow> room_error + (endpoint_id \<times> 'u \<times> 16 word option)" where
  "room_target fetched sfu relay qad_port =
     (case fetched of
        Some (Inl err) \<Rightarrow> Inl (InfoFailed err)
      | Some (Inr answer) \<Rightarrow>
          Inr (i_sfu answer, i_relay answer, case qad_port of None \<Rightarrow> i_qad_port answer | Some p \<Rightarrow> Some p)
      | None \<Rightarrow>
          (case sfu of None \<Rightarrow> Inl SfuRequired | Some i \<Rightarrow>
           case relay of None \<Rightarrow> Inl RelayRequired | Some u \<Rightarrow> Inr (i, u, qad_port)))"

text \<open>The topic: \<open>--topic\<close>'s hex digits, or the SHA-256 digest of the context, given or random.\<close>

definition room_topic :: "(bytes \<Rightarrow> bytes) \<Rightarrow> bytes option \<Rightarrow> bytes option \<Rightarrow> bytes \<Rightarrow> topic hex_result" where
  "room_topic sha256 topic context new_v4 =
     (case topic of
        Some digits \<Rightarrow> topic_from_hex digits
      | None \<Rightarrow> HexOk (Topic (sha256 (ascii ''kt-probe/'' @ (case context of None \<Rightarrow> new_v4 | Some c \<Rightarrow> c)))))"

definition PROBE_ALPN :: bytes where "PROBE_ALPN = ascii ''keeptalking/probe/1''"

definition room_options :: "endpoint_id \<times> 'u \<times> 16 word option \<Rightarrow> 't option \<Rightarrow> bool
    \<Rightarrow> ('u \<times> 16 word option, 't, 'k, 'q) client_options" where
  "room_options target ca relay_only =
     (case target of (_, relay, qad_port) \<Rightarrow>
        \<lparr>co_relay_map = (relay, qad_port), co_ca = ca, co_alpns = [PROBE_ALPN], co_secret_key = None,
         co_relay_only = relay_only, co_transport = None\<rparr>)"

text \<open>Entering the room: SUBSCRIBE, then the presence blob. \<open>closed1\<close>, \<open>failure1\<close> and so on are what the
  connection answers to each call.\<close>

definition room_enter :: "bool \<Rightarrow> nat option \<Rightarrow> bool \<Rightarrow> nat option \<Rightarrow> topic \<Rightarrow> endpoint_id \<Rightarrow> sfu_client
    \<Rightarrow> (client_error + unit) \<times> sfu_client" where
  "room_enter closed1 failure1 closed2 failure2 topic me c =
     (case client_subscribe closed1 failure1 topic c of
        (Inl e, c1) \<Rightarrow> (Inl e, c1)
      | (Inr _, c1) \<Rightarrow> client_announce closed2 failure2 topic (probe_blob me) c1)"

text \<open>The arguments of \<open>room\<close> that its start depends on. \<open>'u\<close>: relay URLs.\<close>

record 'u room_args =
  ra_sfu :: "endpoint_id option"
  ra_relay :: "'u option"
  ra_info :: "info_url option"
  ra_qad_port :: "16 word option"
  ra_relay_ca :: "bytes option"
  ra_context :: "bytes option"
  ra_topic :: "bytes option"
  ra_relay_only :: bool

text \<open>\<open>--relay-ca\<close> first, then the target; \<open>fetch\<close> is \<open>fetch_info\<close> in the probe's network.\<close>

definition room_ca :: "('d, 'q, 'b, 'r, 's, 't) tls_lib \<Rightarrow> (bytes \<rightharpoonup> bytes) \<Rightarrow> 'u room_args \<Rightarrow> room_error + 't option" where
  "room_ca lib files args =
     (case ra_relay_ca args of
        None \<Rightarrow> Inr None
      | Some path \<Rightarrow> (case ca_from_pem_file lib files path of Inl err \<Rightarrow> Inl (RelayCa err) | Inr ca \<Rightarrow> Inr (Some ca)))"

definition room_find :: "('d, 'q, 'b, 'r, 's, 't) tls_lib \<Rightarrow> (bytes \<rightharpoonup> bytes)
    \<Rightarrow> (info_url \<Rightarrow> 't option \<Rightarrow> info_error + 'u sfu_info) \<Rightarrow> 'u room_args
    \<Rightarrow> room_error + ('t option \<times> endpoint_id \<times> 'u \<times> 16 word option)" where
  "room_find lib files fetch args =
     and_then (room_ca lib files args) (\<lambda>ca.
     and_then (room_target (map_option (\<lambda>url. fetch url ca) (ra_info args)) (ra_sfu args) (ra_relay args) (ra_qad_port args))
       (\<lambda>target. Inr (ca, target)))"

text \<open>Then the endpoint, the topic, the connection and the room. \<open>bind\<close>, \<open>dial\<close> and \<open>can_open\<close> are iroh's; \<open>me_of\<close> is an
  endpoint's id. The result is the endpoint, the connection, the client and the topic.\<close>

definition room_join :: "(('u \<times> 16 word option, 't, 'k, 'q) client_builder \<Rightarrow> 'e option) \<Rightarrow> ('e \<Rightarrow> endpoint_id)
    \<Rightarrow> ('e \<Rightarrow> endpoint_id \<times> 'u \<Rightarrow> bytes \<Rightarrow> 'c option) \<Rightarrow> ('c \<Rightarrow> bool) \<Rightarrow> (bytes \<Rightarrow> bytes) \<Rightarrow> bytes
    \<Rightarrow> bool \<Rightarrow> nat option \<Rightarrow> bool \<Rightarrow> nat option \<Rightarrow> 'u room_args \<Rightarrow> 't option \<Rightarrow> endpoint_id \<times> 'u \<times> 16 word option
    \<Rightarrow> room_error + ('e \<times> 'c \<times> sfu_client \<times> topic)" where
  "room_join bind me_of dial can_open sha256 new_v4 closed1 failure1 closed2 failure2 args ca target =
     (case bind_client bind (room_options target ca (ra_relay_only args)) of None \<Rightarrow> Inl ProbeNotBound | Some endpoint \<Rightarrow>
      case room_topic sha256 (ra_topic args) (ra_context args) new_v4 of
        HexOk topic \<Rightarrow>
          (case client_connect (dial endpoint) can_open (fst target, fst (snd target)) of
             Inl err \<Rightarrow> Inl (NotConnected err)
           | Inr (conn, c) \<Rightarrow>
               (case room_enter closed1 failure1 closed2 failure2 topic (me_of endpoint) c of
                  (Inl err, _) \<Rightarrow> Inl (NotEntered err)
                | (Inr _, c1) \<Rightarrow> Inr (endpoint, conn, c1, topic)))
      | refused \<Rightarrow> Inl (BadTopic refused))"

section \<open>Runs of a probe\<close>

text \<open>The tasks of \<open>room\<close>, event by event: the select loop, the datagram reader, accepted and dialled
  connections, and \<open>sfu_ping_loop\<close>, which waits until the snapshot has arrived, keeps its own counter and
  ends with the first ping it cannot publish.\<close>

datatype probe_event = EvFrame server_frame | EvDelivery delivery | EvDatagram bytes | EvIncoming endpoint_id
  | EvConnected endpoint_id | EvTick nat bool

record probe =
  pr_mesh :: mesh
  pr_seq :: u64
  pr_pinging :: bool
  pr_acts :: "probe_action list"

definition probe_new :: "endpoint_id \<Rightarrow> probe" where
  "probe_new me = \<lparr>pr_mesh = mesh_new me, pr_seq = 0, pr_pinging = True, pr_acts = []\<rparr>"

definition probe_tick :: "nat \<Rightarrow> nat \<Rightarrow> bool \<Rightarrow> probe \<Rightarrow> probe" where
  "probe_tick bulk_at now sent pr =
     (if me_joined (pr_mesh pr) \<and> pr_pinging pr
      then case sfu_ping_turn bulk_at now sent (pr_seq pr) (pr_mesh pr) of (go, seq, m, as) \<Rightarrow>
             \<lparr>pr_mesh = m, pr_seq = seq, pr_pinging = go, pr_acts = pr_acts pr @ as\<rparr>
      else pr)"

definition probe_step :: "(bytes \<Rightarrow> bool) \<Rightarrow> (endpoint_id \<Rightarrow> endpoint_id \<Rightarrow> bool) \<Rightarrow> nat \<times> probe_event \<Rightarrow> probe \<Rightarrow> probe" where
  "probe_step vk lt ev pr =
     (let (now, e) = ev; m = pr_mesh pr;
          act = (\<lambda>(m', as). pr\<lparr>pr_mesh := m', pr_acts := pr_acts pr @ as\<rparr>)
      in case e of
           EvFrame f \<Rightarrow> act (mesh_session_frame vk lt now f m)
         | EvDelivery d \<Rightarrow> act (sfu_message vk now d m)
         | EvDatagram b \<Rightarrow> act (sfu_datagram vk b m, [])
         | EvIncoming i \<Rightarrow> act (run_peer now i False (accept_peer now i m), [])
         | EvConnected i \<Rightarrow> act (run_peer now i True m, [])
         | EvTick bulk_at sent \<Rightarrow> probe_tick bulk_at now sent pr)"

definition probe_run :: "(bytes \<Rightarrow> bool) \<Rightarrow> (endpoint_id \<Rightarrow> endpoint_id \<Rightarrow> bool) \<Rightarrow> endpoint_id
    \<Rightarrow> (nat \<times> probe_event) list \<Rightarrow> probe" where
  "probe_run vk lt me evs = fold (probe_step vk lt) evs (probe_new me)"

section \<open>Lemmas\<close>

lemma peer_on_peer: "peer j (on_peer i f m) = (if j = i then f (peer i m) else peer j m)"
  by (simp add: peer_def on_peer_def hash_simps)

lemma on_peer_simps [simp]: "me_id (on_peer i f m) = me_id m" "me_joined (on_peer i f m) = me_joined m"
  "me_bulk_sent (on_peer i f m) = me_bulk_sent m"
  by (simp_all add: on_peer_def)

lemma peer_update [simp]: "peer i (m\<lparr>me_joined := j\<rparr>) = peer i m" "peer i (m\<lparr>me_bulk_sent := b\<rparr>) = peer i m"
  by (simp_all add: peer_def)

lemma from_be_append: "from_be (xs @ ys) = from_be xs * 256 ^ length ys + from_be ys"
proof (induction ys rule: rev_induct)
  case Nil
  show ?case by (simp add: from_be_def)
next
  case (snoc y ys)
  have "from_be (xs @ ys @ [y]) = 256 * from_be (xs @ ys) + unat y" using from_be_snoc [of "xs @ ys" y] by simp
  with snoc show ?case by (simp add: from_be_snoc algebra_simps)
qed

lemma length_put_u64 [simp]: "length (put_u64 w) = 8"
  by (simp add: put_u64_def)

lemma from_be_put_u64 [simp]: "from_be (put_u64 w) = unat w"
proof -
  have "unat w < 2 ^ LENGTH(64)" by (rule unsigned_less)
  then have "unat w div 2 ^ 32 < 2 ^ 32" by (simp add: less_mult_imp_div_less)
  then show ?thesis
    by (simp add: put_u64_def from_be_append unsigned_ucast_eq take_bit_eq_mod unat_drop_bit_div)
qed

lemma get_u64_put [simp]: "get_u64 (put_u64 w @ rest) = (unat w, rest)"
  by (simp add: get_u64_def)

lemma probe_take_id_ok: "wf_id vk i \<Longrightarrow> probe_take_id vk (id_bytes i @ rest) = (Some i, rest)"
  by (simp add: probe_take_id_def wf_id_def)

lemma parse_probe_blob: "wf_id vk i \<Longrightarrow> parse_blob vk (probe_blob i) = Some i"
  by (simp add: parse_blob_def probe_blob_def wf_id_def Let_def)

section \<open>Who dials whom\<close>

fun dials :: "probe_action list \<Rightarrow> endpoint_id list" where
  "dials [] = []"
| "dials (Dial i # as) = i # dials as"
| "dials (_ # as) = dials as"

lemma dials_append [simp]: "dials (as @ bs) = dials as @ dials bs"
  by (induction as rule: dials.induct) auto

abbreviation learned :: "mesh \<Rightarrow> endpoint_id \<Rightarrow> bool" where
  "learned m i \<equiv> ps_learned_at (peer i m) \<noteq> None"

definition dials_fresh :: "(bytes \<Rightarrow> bool) \<Rightarrow> (endpoint_id \<Rightarrow> endpoint_id \<Rightarrow> bool) \<Rightarrow> mesh \<Rightarrow> mesh \<Rightarrow> probe_action list \<Rightarrow> bool" where
  "dials_fresh vk lt m m' as \<longleftrightarrow> me_id m' = me_id m \<and> (\<forall>i. learned m i \<longrightarrow> learned m' i) \<and> distinct (dials as)
     \<and> (\<forall>i \<in> set (dials as). \<not> learned m i \<and> learned m' i \<and> lt (me_id m) i \<and> wf_id vk i)"

lemma dials_fresh_trans:
  assumes "dials_fresh vk lt m m1 as" "dials_fresh vk lt m1 m2 bs"
  shows "dials_fresh vk lt m m2 (as @ bs)"
  using assms unfolding dials_fresh_def by (simp only: dials_append distinct_append set_append) blast

lemma dials_fresh_none:
  assumes "me_id m' = me_id m" "\<And>i. learned m i \<Longrightarrow> learned m' i" "dials as = []"
  shows "dials_fresh vk lt m m' as"
  using assms by (simp add: dials_fresh_def)

lemma learn_fresh: "learn vk lt now r b m = (m', as) \<Longrightarrow> dials_fresh vk lt m m' as"
  by (auto simp: learn_def dials_fresh_def peer_on_peer parse_blob_def wf_id_def Let_def
      split: option.splits if_splits)

lemma learn_all_fresh: "learn_all vk lt now ms m = (m', as) \<Longrightarrow> dials_fresh vk lt m m' as"
proof (induction ms arbitrary: m m' as)
  case Nil
  then show ?case by (simp add: dials_fresh_def)
next
  case (Cons mb ms)
  then show ?case
    using dials_fresh_trans [OF learn_fresh] by (fastforce split: prod.splits)
qed

lemma sfu_message_quiet:
  assumes "sfu_message vk now d m = (m', as)"
  shows "me_id m' = me_id m" "me_joined m' = me_joined m" "\<And>i. learned m i \<Longrightarrow> learned m' i" "dials as = []"
    "\<And>l b. SendAll l b \<notin> set as"
  using assms
  by (auto simp: sfu_message_def Let_def peer_on_peer
      split: list.splits if_splits prod.splits option.splits)


section \<open>Runs\<close>

lemma session_frame_fresh: "mesh_session_frame vk lt now f m = (m', as) \<Longrightarrow> dials_fresh vk lt m m' as"
proof (cases f)
  case (Snapshot t b ms)
  assume "mesh_session_frame vk lt now f m = (m', as)"
  then obtain m1 where "learn_all vk lt now ms m = (m1, as)" "m' = m1\<lparr>me_joined := True\<rparr>"
    by (auto simp: mesh_session_frame_def Snapshot split: prod.splits)
  then show ?thesis using learn_all_fresh [of vk lt now ms m m1 as] by (simp add: dials_fresh_def)
qed (auto simp: mesh_session_frame_def forget_def peer_on_peer dials_fresh_def
      dest: learn_fresh split: option.splits if_splits)

lemma learn_sends: "learn vk lt now r b m = (m', as) \<Longrightarrow> me_joined m' = me_joined m \<and> (\<forall>l p. SendAll l p \<notin> set as)"
  by (auto simp: learn_def split: option.splits if_splits)

lemma learn_all_sends:
  "learn_all vk lt now ms m = (m', as) \<Longrightarrow> me_joined m' = me_joined m \<and> (\<forall>l p. SendAll l p \<notin> set as)"
proof (induction ms arbitrary: m m' as)
  case (Cons mb ms)
  then show ?case by (auto split: prod.splits dest!: learn_sends)
qed auto

lemma session_frame_sends:
  assumes "mesh_session_frame vk lt now f m = (m', as)"
  shows "me_joined m' \<longrightarrow> me_joined m \<or> (\<exists>t b ms. f = Snapshot t b ms)" "\<forall>l p. SendAll l p \<notin> set as"
  using assms by (auto simp: mesh_session_frame_def forget_def split: server_frame.splits prod.splits option.splits if_splits
      dest: learn_all_sends learn_sends)

text \<open>What holds of a run so far: who was dialled, and that nothing was broadcast before the snapshot.\<close>

definition is_snapshot :: "nat \<times> probe_event \<Rightarrow> bool" where
  "is_snapshot ev \<longleftrightarrow> (case snd ev of EvFrame (Snapshot _ _ _) \<Rightarrow> True | _ \<Rightarrow> False)"

definition probe_inv :: "(bytes \<Rightarrow> bool) \<Rightarrow> (endpoint_id \<Rightarrow> endpoint_id \<Rightarrow> bool) \<Rightarrow> endpoint_id \<Rightarrow> bool \<Rightarrow> probe \<Rightarrow> bool" where
  "probe_inv vk lt me snap pr \<longleftrightarrow>
     me_id (pr_mesh pr) = me \<and> distinct (dials (pr_acts pr))
     \<and> (\<forall>i \<in> set (dials (pr_acts pr)). learned (pr_mesh pr) i \<and> lt me i \<and> wf_id vk i)
     \<and> (me_joined (pr_mesh pr) \<longrightarrow> snap) \<and> ((\<exists>l p. SendAll l p \<in> set (pr_acts pr)) \<longrightarrow> snap)"

lemma probe_inv_act:
  assumes "probe_inv vk lt me snap pr" "dials_fresh vk lt (pr_mesh pr) m' as"
    and "me_joined m' \<longrightarrow> me_joined (pr_mesh pr) \<or> s" "(\<exists>l p. SendAll l p \<in> set as) \<longrightarrow> me_joined (pr_mesh pr)"
    and "pr_mesh pr' = m'" "pr_acts pr' = pr_acts pr @ as"
  shows "probe_inv vk lt me (snap \<or> s) pr'"
  using assms unfolding probe_inv_def dials_fresh_def
  by (simp only: dials_append distinct_append set_append Un_iff) blast

lemma probe_inv_quiet:
  assumes "probe_inv vk lt me snap pr" "me_id m' = me_id (pr_mesh pr)" "me_joined m' = me_joined (pr_mesh pr)"
    and "\<And>i. learned (pr_mesh pr) i \<Longrightarrow> learned m' i" "dials as = []" "\<And>l p. SendAll l p \<notin> set as"
  shows "probe_inv vk lt me snap (pr\<lparr>pr_mesh := m', pr_acts := pr_acts pr @ as\<rparr>)"
  using assms probe_inv_act [OF assms(1) dials_fresh_none, of m' as False "pr\<lparr>pr_mesh := m', pr_acts := pr_acts pr @ as\<rparr>"]
  by simp

lemma sfu_ping_turn_quiet:
  assumes "sfu_ping_turn bulk_at now sent seq0 m = (go, seq, m', as)"
  shows "dials_fresh vk lt m m' as" "me_joined m' = me_joined m"
  using assms by (auto simp: sfu_ping_turn_def Let_def dials_fresh_def split: if_splits)

lemma entries_keep:
  "me_id (sfu_datagram vk b m) = me_id m" "me_joined (sfu_datagram vk b m) = me_joined m"
  "learned m j \<Longrightarrow> learned (sfu_datagram vk b m) j"
  "me_id (run_peer now i init m) = me_id m" "me_joined (run_peer now i init m) = me_joined m"
  "learned m j \<Longrightarrow> learned (run_peer now i init m) j"
  "me_id (accept_peer now i m) = me_id m" "me_joined (accept_peer now i m) = me_joined m"
  "learned m j \<Longrightarrow> learned (accept_peer now i m) j"
  by (auto simp: sfu_datagram_def run_peer_def accept_peer_def peer_on_peer)

lemma probe_step_inv:
  assumes "probe_inv vk lt me snap pr"
  shows "probe_inv vk lt me (snap \<or> is_snapshot ev) (probe_step vk lt ev pr)"
proof -
  obtain now e where ev: "ev = (now, e)" by fastforce
  have silent: "probe_inv vk lt me snap (pr\<lparr>pr_mesh := m'\<rparr>)"
    if "me_id m' = me_id (pr_mesh pr)" "me_joined m' = me_joined (pr_mesh pr)"
      "\<forall>i. learned (pr_mesh pr) i \<longrightarrow> learned m' i" for m'
    using probe_inv_quiet [OF assms, of m' "[]"] that by simp
  show ?thesis
  proof (cases e)
    case (EvFrame f)
    obtain m' as where r: "mesh_session_frame vk lt now f (pr_mesh pr) = (m', as)" by fastforce
    have "me_joined m' \<longrightarrow> me_joined (pr_mesh pr) \<or> is_snapshot ev"
      using session_frame_sends(1) [OF r] by (auto simp: is_snapshot_def ev EvFrame)
    then show ?thesis
      using probe_inv_act [OF assms session_frame_fresh [OF r]] session_frame_sends(2) [OF r]
      by (simp add: probe_step_def ev EvFrame r)
  next
    case (EvDelivery d)
    obtain m' as where r: "sfu_message vk now d (pr_mesh pr) = (m', as)" by fastforce
    show ?thesis
      using probe_inv_quiet [OF assms sfu_message_quiet [OF r]]
      by (simp add: probe_step_def ev EvDelivery r is_snapshot_def)
  next
    case (EvTick bulk_at sent)
    obtain go seq m' as where r: "sfu_ping_turn bulk_at now sent (pr_seq pr) (pr_mesh pr) = (go, seq, m', as)"
      by (metis prod_cases4)
    show ?thesis
      using probe_inv_act [OF assms sfu_ping_turn_quiet(1) [OF r], where s = False] sfu_ping_turn_quiet(2) [OF r] assms
      by (simp add: probe_step_def ev EvTick r is_snapshot_def probe_tick_def)
  next
    case (EvDatagram b)
    then show ?thesis by (simp add: probe_step_def ev is_snapshot_def silent entries_keep Let_def)
  next
    case (EvIncoming i)
    then show ?thesis by (simp add: probe_step_def ev is_snapshot_def silent entries_keep Let_def)
  next
    case (EvConnected i)
    then show ?thesis by (simp add: probe_step_def ev is_snapshot_def silent entries_keep Let_def)
  qed
qed

lemma probe_run_inv: "probe_inv vk lt me snap pr
    \<Longrightarrow> probe_inv vk lt me (snap \<or> list_ex is_snapshot evs) (fold (probe_step vk lt) evs pr)"
proof (induction evs arbitrary: snap pr)
  case (Cons ev evs)
  from Cons.IH [OF probe_step_inv [OF Cons.prems, of ev]] show ?case by (simp add: disj_assoc)
qed simp

text \<open>An event that presents a peer: its PRESENCE, or its entry in a SNAPSHOT, whose blob carries the very id the server
  reports it under.\<close>

definition presents :: "(bytes \<Rightarrow> bool) \<Rightarrow> endpoint_id \<Rightarrow> nat \<times> probe_event \<Rightarrow> bool" where
  "presents vk i ev \<longleftrightarrow>
     (case snd ev of
        EvFrame (Presence _ j blob) \<Rightarrow> j = i \<and> parse_blob vk blob = Some i
      | EvFrame (Snapshot _ _ ms) \<Rightarrow> \<exists>m \<in> set ms. m_id m = i \<and> parse_blob vk (m_blob m) = Some i
      | _ \<Rightarrow> False)"

lemma learn_dials: "learn vk lt now j blob m = (m', as) \<Longrightarrow> i \<in> set (dials as) \<Longrightarrow> j = i \<and> parse_blob vk blob = Some i"
  by (auto simp: learn_def split: option.splits if_splits)

lemma learn_all_dials:
  "learn_all vk lt now ms m = (m', as) \<Longrightarrow> i \<in> set (dials as)
     \<Longrightarrow> \<exists>mb \<in> set ms. m_id mb = i \<and> parse_blob vk (m_blob mb) = Some i"
proof (induction ms arbitrary: m m' as)
  case (Cons mb ms)
  obtain m1 as1 as2 where l: "learn vk lt now (m_id mb) (m_blob mb) m = (m1, as1)" "learn_all vk lt now ms m1 = (m', as2)"
      "as = as1 @ as2"
    using Cons.prems(1) by (auto split: prod.splits)
  then show ?case using Cons.IH [OF l(2)] learn_dials [OF l(1)] Cons.prems(2) by auto
qed simp

lemma session_frame_dials:
  assumes "mesh_session_frame vk lt now f m = (m', as)" "i \<in> set (dials as)"
  shows "presents vk i (now, EvFrame f)"
proof (cases f)
  case (Snapshot t b ms)
  then obtain m1 where "learn_all vk lt now ms m = (m1, as)"
    using assms(1) by (auto simp: mesh_session_frame_def split: prod.splits)
  from learn_all_dials [OF this assms(2)] show ?thesis by (simp add: presents_def Snapshot)
next
  case (Presence t j blob)
  then show ?thesis using assms learn_dials by (fastforce simp: mesh_session_frame_def presents_def)
qed (use assms in \<open>auto simp: mesh_session_frame_def forget_def split: option.splits if_splits\<close>)

lemma probe_step_dials:
  assumes "i \<in> set (dials (pr_acts (probe_step vk lt ev pr)))"
  shows "i \<in> set (dials (pr_acts pr)) \<or> presents vk i ev"
proof -
  obtain now e where ev: "ev = (now, e)" by fastforce
  show ?thesis
  proof (cases e)
    case (EvFrame f)
    then show ?thesis using assms session_frame_dials [of vk lt now f] by (auto simp: probe_step_def ev split: prod.splits)
  next
    case (EvDelivery d)
    obtain m' as where r: "sfu_message vk now d (pr_mesh pr) = (m', as)" by fastforce
    then show ?thesis using assms sfu_message_quiet(4) [OF r] EvDelivery by (simp add: probe_step_def ev)
  next
    case (EvTick bulk_at sent)
    have "dials as = []" if "sfu_ping_turn bulk_at now sent q m = (go, seq, m', as)" for q m go seq m' as
      using that by (auto simp: sfu_ping_turn_def Let_def split: if_splits)
    then show ?thesis using assms EvTick by (auto simp: probe_step_def ev probe_tick_def split: prod.splits if_splits)
  qed (use assms in \<open>auto simp: probe_step_def ev Let_def\<close>)
qed

lemma probe_run_dials:
  "i \<in> set (dials (pr_acts (fold (probe_step vk lt) evs pr))) \<Longrightarrow> i \<in> set (dials (pr_acts pr)) \<or> (\<exists>ev \<in> set evs. presents vk i ev)"
proof (induction evs arbitrary: pr)
  case (Cons ev evs)
  then show ?case using probe_step_dials [of i vk lt ev pr] by fastforce
qed simp

text \<open>C17: whatever arrives in whatever order (session frames, delivered payloads, datagrams, connections and ticks), a
  probe dials every peer at most once, and only a peer that an event so far has presented with a blob carrying
  the id the server reported, whose id is valid and above its own; and it broadcasts nothing (no ping, no bulk
  probe) unless a snapshot of the room has arrived.\<close>

theorem probe_run_safe:
  "distinct (dials (pr_acts (probe_run vk lt me evs)))
   \<and> list_all (\<lambda>i. lt me i \<and> wf_id vk i \<and> list_ex (presents vk i) evs) (dials (pr_acts (probe_run vk lt me evs)))
   \<and> (list_ex is_snapshot evs \<or> (\<nexists>l p. SendAll l p \<in> set (pr_acts (probe_run vk lt me evs))))"
proof -
  have "probe_inv vk lt me False (probe_new me)" by (simp add: probe_inv_def probe_new_def mesh_new_def)
  from probe_run_inv [OF this, of evs] show ?thesis
    using probe_run_dials [of _ vk lt evs "probe_new me"]
    by (auto simp: probe_inv_def probe_run_def list_all_iff list_ex_iff probe_new_def)
qed

theorem probe_run_safe_witness:
  "\<exists>(a :: endpoint_id) b evs. dials (pr_acts (probe_run (\<lambda>_. True) (\<lambda>i j. hd (id_bytes i) < hd (id_bytes j)) a evs)) = [b]
     \<and> distinct (dials (pr_acts (probe_run (\<lambda>_. True) (\<lambda>i j. hd (id_bytes i) < hd (id_bytes j)) a evs)))
     \<and> list_ex is_snapshot evs \<and> length evs = 4"
proof -
  define a b where "a = EndpointId (replicate 32 1)" and "b = EndpointId (replicate 32 2)"
  define lt where "lt = (\<lambda>i j. hd (id_bytes i) < hd (id_bytes j))"
  define evs where "evs = [(1 :: nat, EvTick 1 True), (2, EvFrame (Snapshot (Topic []) True [\<lparr>m_id = b, m_blob = probe_blob b\<rparr>])),
    (3, EvFrame (Presence (Topic []) b (probe_blob b))), (4, EvTick 4 True)]"
  have "wf_id (\<lambda>_. True) b" "lt a b" by (simp_all add: wf_id_def b_def a_def lt_def numeral_eq_Suc)
  then have "dials (pr_acts (probe_run (\<lambda>_. True) lt a evs)) = [b]"
    by (simp add: probe_run_def evs_def probe_step_def probe_tick_def probe_new_def mesh_new_def mesh_session_frame_def
        learn_def parse_probe_blob peer_on_peer peer_stats_default_def sfu_ping_turn_def Let_def peer_def [of b "mesh.make a [] False None"]
        mesh.defs)
      (simp add: peer_def peer_stats_default_def)
  then show ?thesis
    using probe_run_safe [of "\<lambda>_. True" lt a evs]
    by - (rule exI [of _ a], rule exI [of _ b], rule exI [of _ evs], simp add: lt_def evs_def is_snapshot_def)
qed

text \<open>Of two probes that learn each other's presence, exactly one dials the other, whatever each knew
  of other peers before.\<close>

theorem mesh_one_dialer:
  assumes "wf_id vk a" "wf_id vk b" "lt a b \<longleftrightarrow> \<not> lt b a"
    and "me_id ma = a" "\<not> learned ma b" "me_id mb = b" "\<not> learned mb a"
  shows "(snd (learn vk lt now b (probe_blob b) ma) = [Dial b] \<and> snd (learn vk lt now' a (probe_blob a) mb) = [])
    \<noteq> (snd (learn vk lt now b (probe_blob b) ma) = [] \<and> snd (learn vk lt now' a (probe_blob a) mb) = [Dial a])"
  using assms by (auto simp: learn_def parse_probe_blob)

theorem mesh_one_dialer_witness:
  "(snd (learn (\<lambda>_. True) (\<lambda>i j. hd (id_bytes i) < hd (id_bytes j)) 5 (EndpointId (replicate 32 2))
          (probe_blob (EndpointId (replicate 32 2))) (mesh_new (EndpointId (replicate 32 1))))
      = [Dial (EndpointId (replicate 32 2))])
   \<and> snd (learn (\<lambda>_. True) (\<lambda>i j. hd (id_bytes i) < hd (id_bytes j)) 7 (EndpointId (replicate 32 1))
          (probe_blob (EndpointId (replicate 32 1))) (mesh_new (EndpointId (replicate 32 2)))) = []"
  using mesh_one_dialer [of "\<lambda>_. True" "EndpointId (replicate 32 1)" "EndpointId (replicate 32 2)"
      "\<lambda>i j. hd (id_bytes i) < hd (id_bytes j)" "mesh_new (EndpointId (replicate 32 1))"
      "mesh_new (EndpointId (replicate 32 2))" 5 7]
  by (simp add: wf_id_def learn_def parse_probe_blob mesh_new_def peer_def peer_stats_default_def numeral_eq_Suc)

section \<open>Pings\<close>

text \<open>C18: a ping through the SFU and back. The ping that a turn of the loop publishes makes any probe that
  receives it answer with a pong directed to the sender, and the pong makes the sender record, for that
  peer, one more pong and exactly the time since the ping was published.\<close>

theorem sfu_ping_pong:
  assumes "wf_id vk a" "wf_id vk b" "me_id ma = a" "me_id mb = b" "t0 < 2 ^ 64"
    and "sfu_ping_turn bulk_at t0 True seq0 ma = (go, seq, ma', acts)"
  shows "\<exists>ping pong. SendAll Control ping \<in> set acts \<and> go \<and> seq = seq0 + 1
    \<and> sfu_message vk t1 \<lparr>dl_lane = Control, dl_topic = t, dl_payload = ping\<rparr> mb = (mb, [SendTo Control a pong])
    \<and> (let (ma2, out) = sfu_message vk t2 \<lparr>dl_lane = Control, dl_topic = t, dl_payload = pong\<rparr> ma'
       in out = [] \<and> ps_sfu_rtt (peer b ma2) = Some (t2 - t0) \<and> ps_sfu_pongs (peer b ma2) = ps_sfu_pongs (peer b ma') + 1)"
proof -
  let ?stamp = "put_u64 seq @ put_u64 (of_nat t0)"
  let ?ping = "[0x50] @ id_bytes a @ ?stamp" and ?pong = "[0x51] @ id_bytes a @ id_bytes b @ ?stamp"
  have ids: "length (id_bytes a) = 32" "length (id_bytes b) = 32" using assms(1,2) by (simp_all add: wf_id_def)
  have t0: "unat (of_nat t0 :: u64) = t0" using assms(5) by (simp add: unsigned_of_nat take_bit_eq_mod)
  have "SendAll Control ?ping \<in> set acts" "go" "seq = seq0 + 1" "me_id ma' = a"
    using assms(3,6) by (auto simp: sfu_ping_turn_def Let_def split: if_splits)
  moreover have "sfu_message vk t1 \<lparr>dl_lane = Control, dl_topic = t, dl_payload = ?ping\<rparr> mb = (mb, [SendTo Control a ?pong])"
    using assms(4) probe_take_id_ok [OF assms(1), of ?stamp] by (simp add: sfu_message_def ids)
  moreover have "sfu_message vk t2 \<lparr>dl_lane = Control, dl_topic = t, dl_payload = ?pong\<rparr> ma' =
      (on_peer b (\<lambda>p. p\<lparr>ps_sfu_rtt := Some (since t2 t0), ps_sfu_pongs := ps_sfu_pongs p + 1\<rparr>) ma', [])"
    using calculation(4) probe_take_id_ok [OF assms(1), of "id_bytes b @ ?stamp"] probe_take_id_ok [OF assms(2), of ?stamp]
      get_u64_put [of "of_nat t0" "[]"]
    by (simp add: sfu_message_def ids t0)
  ultimately show ?thesis
    by - (rule exI [of _ ?ping], rule exI [of _ ?pong], simp add: peer_on_peer since_def)
qed

theorem sfu_ping_pong_witness:
  "\<exists>ping pong (ma2 :: mesh). sfu_message (\<lambda>_. True) 20 \<lparr>dl_lane = Control, dl_topic = Topic [], dl_payload = ping\<rparr>
       (mesh_new (EndpointId (replicate 32 2)))
     = (mesh_new (EndpointId (replicate 32 2)), [SendTo Control (EndpointId (replicate 32 1)) pong])
   \<and> sfu_message (\<lambda>_. True) 30 \<lparr>dl_lane = Control, dl_topic = Topic [], dl_payload = pong\<rparr>
       (mesh_new (EndpointId (replicate 32 1))) = (ma2, [])
   \<and> ps_sfu_rtt (peer (EndpointId (replicate 32 2)) ma2) = Some 20"
proof -
  let ?a = "EndpointId (replicate 32 1)" and ?b = "EndpointId (replicate 32 2)"
  have "sfu_ping_turn 9 10 True 0 (mesh_new ?a) = (True, 1, mesh_new ?a, [SendAll Control ([0x50] @ id_bytes ?a @ put_u64 1 @ put_u64 10),
      SendDatagram (id_bytes ?a @ put_u64 1)])"
    by (simp add: sfu_ping_turn_def mesh_new_def known_peers_def)
  from sfu_ping_pong [OF _ _ _ _ _ this, where b = ?b and a = ?a and mb = "mesh_new ?b" and vk = "\<lambda>_. True" and t = "Topic []"
      and ?t1.0 = 20 and ?t2.0 = 30]
  show ?thesis by (fastforce simp: wf_id_def mesh_new_def)
qed

text \<open>The bulk probe. The first tick that knows a peer publishes 256 KiB on the bulk lane, once; a
  probe that receives it adds those bytes to what it got from the sender and acknowledges them, and the
  acknowledgement makes the sender record exactly the time since the publish.\<close>

theorem sfu_bulk_ack:
  assumes "wf_id vk a" "wf_id vk b" "me_id ma = a" "me_id mb = b" "t0 < 2 ^ 64"
    and "me_bulk_sent ma = None" "known_peers ma > 0"
    and "sfu_ping_turn t0 ping_at sent seq0 ma = (go, seq, ma', acts)"
  shows "\<exists>bulk ack. filter (\<lambda>act. \<exists>p. act = SendAll Bulk p) acts = [SendAll Bulk bulk] \<and> length bulk = BULK_PROBE_LEN
    \<and> me_bulk_sent ma' = Some (t0, known_peers ma)
    \<and> (let (mb2, out) = sfu_message vk t1 \<lparr>dl_lane = Bulk, dl_topic = t, dl_payload = bulk\<rparr> mb
       in out = [SendTo Control a ack] \<and> ps_bulk_in (peer a mb2) = ps_bulk_in (peer a mb) + 262144)
    \<and> (let (ma2, out) = sfu_message vk t2 \<lparr>dl_lane = Control, dl_topic = t, dl_payload = ack\<rparr> ma'
       in out = [] \<and> ps_bulk_rtt (peer b ma2) = Some (t2 - t0))"
proof -
  let ?stamp = "put_u64 seq @ put_u64 (of_nat t0)" and ?pad = "replicate (BULK_PROBE_LEN - 49) (0 :: byte)"
  let ?bulk = "[0x42] @ id_bytes a @ ?stamp @ ?pad"
    and ?ack = "[0x41] @ id_bytes a @ id_bytes b @ put_u64 (of_nat t0) @ put_u32 262144"
  have ids: "length (id_bytes a) = 32" "length (id_bytes b) = 32" using assms(1,2) by (simp_all add: wf_id_def)
  have t0: "unat (of_nat t0 :: u64) = t0" using assms(5) by (simp add: unsigned_of_nat take_bit_eq_mod)
  have turn: "filter (\<lambda>act. \<exists>p. act = SendAll Bulk p) acts = [SendAll Bulk ?bulk]" "me_id ma' = a"
      "me_bulk_sent ma' = Some (t0, known_peers ma)"
    using assms(3,6,7,8) by (auto simp: sfu_ping_turn_def Let_def ids BULK_PROBE_LEN_def split: if_splits)
  have bulk: "sfu_message vk t1 \<lparr>dl_lane = Bulk, dl_topic = t, dl_payload = ?bulk\<rparr> mb =
      (on_peer a (\<lambda>p. p\<lparr>ps_bulk_in := ps_bulk_in p + 262144\<rparr>) mb, [SendTo Control a ?ack])"
    using assms(4) probe_take_id_ok [OF assms(1), of "?stamp @ ?pad"]
    by (simp add: sfu_message_def ids BULK_PROBE_LEN_def t0)
  have "sfu_message vk t2 \<lparr>dl_lane = Control, dl_topic = t, dl_payload = ?ack\<rparr> ma' =
      (on_peer b (\<lambda>p. p\<lparr>ps_bulk_rtt := Some (since t2 t0)\<rparr>) ma', [])"
    using turn(2) probe_take_id_ok [OF assms(1), of "id_bytes b @ put_u64 (of_nat t0) @ put_u32 262144"]
      probe_take_id_ok [OF assms(2), of "put_u64 (of_nat t0) @ put_u32 262144"]
    by (simp add: sfu_message_def ids t0)
  with turn bulk show ?thesis
    by - (rule exI [of _ ?bulk], rule exI [of _ ?ack], simp add: peer_on_peer since_def ids BULK_PROBE_LEN_def)
qed

definition ping_bytes :: "u64 \<Rightarrow> nat \<Rightarrow> bytes" where
  "ping_bytes seq0 n = concat (map (\<lambda>k. put_u64 (seq0 + of_nat (Suc k))) [0..<n])"

lemma ping_bytes_Suc: "ping_bytes seq0 (Suc n) = put_u64 (seq0 + 1) @ ping_bytes (seq0 + 1) n"
  by (simp add: ping_bytes_def upt_conv_Cons map_Suc_upt [symmetric] comp_def algebra_simps del: upt_Suc map_Suc_upt)

lemma echo_loop_unit: "length b = 8 \<Longrightarrow> echo_loop (b @ rest) = b @ echo_loop rest"
  by (subst echo_loop.simps) simp

lemma ping_turn_echo:
  "ping_turn ok (Some (put_u64 (seq0 + 1))) el ec seq0 p =
     (Inr (), seq0 + 1, (if ok then p\<lparr>ps_dgrams_sent := ps_dgrams_sent p + 1\<rparr> else p)
        \<lparr>ps_last_ping := Some el, ps_pings_ok := ps_pings_ok p + 1, ps_dgrams_echoed := ec\<rparr>, put_u64 (seq0 + 1))"
  using get_u64_put [of "seq0 + 1" "[]"] by (simp add: ping_turn_def Let_def)

lemma echo_pings: "echo_loop (ping_bytes seq0 n) = ping_bytes seq0 n"
proof (induction n arbitrary: seq0)
  case 0
  show ?case by (simp add: ping_bytes_def echo_loop.simps)
next
  case (Suc n)
  then show ?case by (simp add: ping_bytes_Suc echo_loop_unit)
qed

lemma ping_loop_pings:
  "case ping_loop ticks (ping_bytes seq0 (length ticks)) seq0 p of (r, p', out) \<Rightarrow>
     r = Inr () \<and> out = ping_bytes seq0 (length ticks)
     \<and> ps_pings_ok p' = ps_pings_ok p + of_nat (length ticks)
     \<and> ps_dgrams_sent p' = ps_dgrams_sent p + of_nat (length (filter fst ticks))"
proof (induction ticks arbitrary: seq0 p)
  case Nil
  show ?case by (simp add: ping_bytes_def)
next
  case (Cons tick ticks)
  obtain ok el ec where tick: "tick = (ok, el, ec)" by (metis prod_cases3)
  let ?p = "(if ok then p\<lparr>ps_dgrams_sent := ps_dgrams_sent p + 1\<rparr> else p)
        \<lparr>ps_last_ping := Some el, ps_pings_ok := ps_pings_ok p + 1, ps_dgrams_echoed := ec\<rparr>"
  show ?case
    using Cons.IH [of "seq0 + 1" ?p]
    by (cases ok) (auto simp: tick ping_bytes_Suc ping_turn_echo add.assoc split: prod.splits)
qed

text \<open>The ping stream between two connected probes. What the responder echoes answers every ping of the
  initiator: after any number of ticks the loop has not failed, it has written the pings it counted, and
  it has counted one answer per tick and one datagram per tick whose datagram could be sent.\<close>

theorem ping_loop_echoed:
  "case ping_loop ticks (echo_loop (ping_bytes seq0 (length ticks))) seq0 p of (r, p', out) \<Rightarrow>
     r = Inr () \<and> out = ping_bytes seq0 (length ticks)
     \<and> ps_pings_ok p' = ps_pings_ok p + of_nat (length ticks)
     \<and> ps_dgrams_sent p' = ps_dgrams_sent p + of_nat (length (filter fst ticks))"
  unfolding echo_pings by (rule ping_loop_pings)

end
