(* ===== verification/KeyFile.thy ===== *)
theory KeyFile
  imports SFU_Prelude
begin

text \<open>
  The SFU's secret key on disk: \<open>load_or_create_key\<close> and \<open>write_private\<close> of
  \<open>src/src/bin/kt-sfu.rs\<close>. Clients pin the id that belongs to the key, so the question is which key an
  instance comes up with: after a restart, after a failed write, and when several instances start at once
  on the same path.

  iroh's \<open>SecretKey\<close> is a parameter, by \<open>from_bytes\<close> and \<open>to_bytes\<close>; a generated key is an argument.
  The file is \<open>None\<close> while it does not exist. tokio's \<open>File::write_all\<close> returns once the bytes are
  accepted: how many of them reach the file is up to the operating system, so that number is an argument
  of its own.
\<close>

section \<open>Operations\<close>

datatype key_error = NotThirtyTwo | ReadFailed | CreateFailed | WriteFailed

datatype read_result = ReadOk bytes | NotFound | ReadErr

text \<open>Where an instance stands: about to read, about to create the file with a generated key, about to
  write it, and the two results.\<close>

datatype 'k key_pc = Reading | Creating 'k | Writing 'k | Loaded 'k | Failed key_error

definition fs_read :: "bool \<Rightarrow> bytes option \<Rightarrow> read_result" where
  "fs_read io_error file = (if io_error then ReadErr else case file of None \<Rightarrow> NotFound | Some bs \<Rightarrow> ReadOk bs)"

definition key_read :: "(bytes \<Rightarrow> 'k) \<Rightarrow> 'k \<Rightarrow> read_result \<Rightarrow> 'k key_pc" where
  "key_read from_bytes generated res =
     (case res of
        ReadOk bs \<Rightarrow> if length bs = 32 then Loaded (from_bytes bs) else Failed NotThirtyTwo
      | NotFound \<Rightarrow> Creating generated
      | ReadErr \<Rightarrow> Failed ReadFailed)"

text \<open>\<open>create_new\<close>: opening fails when the file exists.\<close>

definition key_create :: "bool \<Rightarrow> 'k \<Rightarrow> bytes option \<Rightarrow> 'k key_pc \<times> bytes option" where
  "key_create io_error key file =
     (if io_error \<or> file \<noteq> None then (Failed CreateFailed, file) else (Writing key, Some []))"

definition key_write :: "bool \<Rightarrow> 'k \<Rightarrow> 'k key_pc" where
  "key_write accepted key = (if accepted then Loaded key else Failed WriteFailed)"

text \<open>What of the key is in the file once \<open>n\<close> bytes have been written.\<close>

definition key_landed :: "('k \<Rightarrow> bytes) \<Rightarrow> nat \<Rightarrow> 'k \<Rightarrow> bytes option" where
  "key_landed to_bytes n key = Some (take n (to_bytes key))"

record key_io =
  io_read_err :: bool
  io_open_err :: bool
  io_accepted :: bool
  io_landed :: nat

text \<open>\<open>load_or_create_key\<close> of one instance alone on the path.\<close>

definition load_or_create_key ::
  "(bytes \<Rightarrow> 'k) \<Rightarrow> ('k \<Rightarrow> bytes) \<Rightarrow> 'k \<Rightarrow> key_io \<Rightarrow> bytes option \<Rightarrow> 'k key_pc \<times> bytes option" where
  "load_or_create_key from_bytes to_bytes generated io file =
     (case key_read from_bytes generated (fs_read (io_read_err io) file) of
        Creating key \<Rightarrow>
          (case key_create (io_open_err io) key file of
             (Writing k, _) \<Rightarrow> (key_write (io_accepted io) k, key_landed to_bytes (io_landed io) k)
           | r \<Rightarrow> r)
      | pc \<Rightarrow> (pc, file))"

section \<open>Several instances\<close>

text \<open>Instances by number, the file, and the key of the instance that created it: its bytes may still be
  on their way to the file after that instance has returned.\<close>

record 'k key_world =
  kw_pc :: "nat \<Rightarrow> 'k key_pc"
  kw_file :: "bytes option"
  kw_owner :: "'k option"

inductive key_step :: "(bytes \<Rightarrow> 'k) \<Rightarrow> ('k \<Rightarrow> bytes) \<Rightarrow> 'k key_world \<Rightarrow> 'k key_world \<Rightarrow> bool"
  for from_bytes to_bytes where
  step_read: "kw_pc w i = Reading \<Longrightarrow>
     key_step from_bytes to_bytes w
       (w\<lparr>kw_pc := (kw_pc w)(i := key_read from_bytes generated (fs_read io_error (kw_file w)))\<rparr>)"
| step_create: "kw_pc w i = Creating key \<Longrightarrow> key_create io_error key (kw_file w) = (pc, file) \<Longrightarrow>
     key_step from_bytes to_bytes w
       (w\<lparr>kw_pc := (kw_pc w)(i := pc), kw_file := file,
          kw_owner := (case pc of Writing k \<Rightarrow> Some k | _ \<Rightarrow> kw_owner w)\<rparr>)"
| step_write: "kw_pc w i = Writing key \<Longrightarrow>
     key_step from_bytes to_bytes w (w\<lparr>kw_pc := (kw_pc w)(i := key_write accepted key)\<rparr>)"
| step_land: "kw_owner w = Some key \<Longrightarrow> kw_file w = key_landed to_bytes n key \<Longrightarrow> n \<le> n' \<Longrightarrow>
     key_step from_bytes to_bytes w (w\<lparr>kw_file := key_landed to_bytes n' key\<rparr>)"
| step_restart: "kw_pc w i = Failed e \<or> kw_pc w i = Loaded k \<Longrightarrow>
     key_step from_bytes to_bytes w (w\<lparr>kw_pc := (kw_pc w)(i := Reading)\<rparr>)"

definition key_start :: "bytes option \<Rightarrow> 'k key_world" where
  "key_start file = \<lparr>kw_pc = \<lambda>_. Reading, kw_file = file, kw_owner = None\<rparr>"

section \<open>One instance\<close>

lemma load_existing: "file \<noteq> None \<Longrightarrow> snd (load_or_create_key fb tb g io file) = file"
  by (auto simp: load_or_create_key_def key_read_def fs_read_def split: option.splits)

lemma load_existing_32:
  "length bs = 32 \<Longrightarrow> \<not> io_read_err io \<Longrightarrow> load_or_create_key fb tb g io (Some bs) = (Loaded (fb bs), Some bs)"
  by (simp add: load_or_create_key_def key_read_def fs_read_def)

lemma load_existing_short:
  "length bs \<noteq> 32 \<Longrightarrow> \<not> io_read_err io \<Longrightarrow> load_or_create_key fb tb g io (Some bs) = (Failed NotThirtyTwo, Some bs)"
  by (simp add: load_or_create_key_def key_read_def fs_read_def)

lemma load_fresh:
  "\<not> io_read_err io \<Longrightarrow> \<not> io_open_err io \<Longrightarrow>
     load_or_create_key fb tb g io None = (key_write (io_accepted io) g, key_landed tb (io_landed io) g)"
  by (simp add: load_or_create_key_def key_read_def fs_read_def key_create_def)

section \<open>Any number of instances\<close>

text \<open>The key the path stands for: the one the first creator wrote, or the one the file held from the start.\<close>

definition key_inv :: "(bytes \<Rightarrow> 'k) \<Rightarrow> ('k \<Rightarrow> bytes) \<Rightarrow> bytes option \<Rightarrow> 'k key_world \<Rightarrow> bool" where
  "key_inv fb tb file0 w \<longleftrightarrow>
     (case kw_owner w of
        None \<Rightarrow> kw_file w = file0
          \<and> (\<forall>i. (\<forall>k. kw_pc w i \<noteq> Writing k) \<and> (\<forall>k. kw_pc w i = Loaded k \<longrightarrow> (\<exists>bs. file0 = Some bs \<and> length bs = 32 \<and> k = fb bs)))
      | Some key \<Rightarrow> file0 = None \<and> (\<exists>n. kw_file w = key_landed tb n key)
          \<and> (\<forall>i k. kw_pc w i = Writing k \<or> kw_pc w i = Loaded k \<longrightarrow> k = key))"

lemma key_landed_loads:
  assumes "fb (tb key) = key" "length (tb key) = 32" "key_read fb g (fs_read e (key_landed tb n key)) = Loaded k"
  shows "k = key"
proof -
  from assms(3) have "length (take n (tb key)) = 32" "k = fb (take n (tb key))"
    by (auto simp: key_read_def fs_read_def key_landed_def split: if_splits)
  moreover have "take n (tb key) = tb key" using calculation(1) assms(2) by simp
  ultimately show ?thesis using assms(1) by simp
qed

lemma key_read_not_writing [simp]: "key_read fb g r \<noteq> Writing k"
  by (cases r) (simp_all add: key_read_def)

lemma key_step_inv:
  assumes "key_step fb tb w w'" "key_inv fb tb file0 w"
    and "\<And>k. fb (tb k) = k" "\<And>k. length (tb k) = 32"
  shows "key_inv fb tb file0 w'"
  using assms(1,2)
proof cases
  case (step_read i g e)
  show ?thesis
  proof (cases "kw_owner w")
    case None
    then show ?thesis
      using assms(2) step_read by (auto simp: key_inv_def key_read_def fs_read_def split: if_splits option.splits)
  next
    case (Some key)
    then obtain n where "kw_file w = key_landed tb n key" using assms(2) by (auto simp: key_inv_def)
    then show ?thesis
      using Some assms(2) step_read key_landed_loads [of fb tb key g e n, OF assms(3,4)]
      by (auto simp: key_inv_def)
  qed
next
  case (step_create i key e pc fl)
  have "kw_owner w = None" if "kw_file w = None"
    using assms(2) that by (auto simp: key_inv_def key_landed_def split: option.splits)
  then show ?thesis
    using assms(2) step_create
    by (fastforce simp: key_inv_def key_create_def key_landed_def split: if_splits option.splits)
next
  case (step_write i key acc)
  then show ?thesis using assms(2) by (auto simp: key_inv_def key_write_def split: option.splits)
next
  case (step_land key n n')
  then show ?thesis using assms(2) by (auto simp: key_inv_def)
next
  case (step_restart i e k)
  then show ?thesis using assms(2) by (auto simp: key_inv_def split: option.splits)
qed

lemma key_steps_inv:
  assumes "(key_step fb tb)\<^sup>*\<^sup>* (key_start file0) w" "\<And>k. fb (tb k) = k" "\<And>k. length (tb k) = 32"
  shows "key_inv fb tb file0 w"
  using assms(1)
proof (induction rule: rtranclp_induct)
  case base
  show ?case by (simp add: key_inv_def key_start_def)
next
  case (step w w')
  show ?case by (rule key_step_inv [OF step(2,3) assms(2,3)])
qed

lemma key_owner_stays:
  assumes "(key_step fb tb)\<^sup>*\<^sup>* w w'" "key_inv fb tb file0 w" "kw_owner w = Some key"
    and "\<And>k. fb (tb k) = k" "\<And>k. length (tb k) = 32"
  shows "kw_owner w' = Some key \<and> key_inv fb tb file0 w'"
  using assms(1)
proof (induction rule: rtranclp_induct)
  case base
  show ?case using assms by simp
next
  case (step w' w'')
  have "key_inv fb tb file0 w''" by (rule key_step_inv [OF step(2) conjunct2 [OF step(3)] assms(4,5)])
  moreover have "kw_file w' \<noteq> None" using step(3) by (auto simp: key_inv_def key_landed_def)
  with step(2,3) have "kw_owner w'' = Some key"
    by cases (auto simp: key_create_def)
  ultimately show ?case by blast
qed

text \<open>C16: one key per path. However many instances start, fail and restart on one path, in whatever
  interleaving of their reads, creations and writes, and however late or partially the key's bytes reach
  the file: all that ever come up have the same key, which is the one the file held at the start if
  there was one.\<close>

theorem key_unique:
  assumes "\<And>k. fb (tb k) = k" "\<And>k. length (tb k) = 32"
    and "(key_step fb tb)\<^sup>*\<^sup>* (key_start file0) w" "(key_step fb tb)\<^sup>*\<^sup>* w w'"
    and "kw_pc w i = Loaded k" "kw_pc w' j = Loaded k'"
  shows "k' = k \<and> (file0 \<noteq> None \<longrightarrow> kw_file w' = file0 \<and> k = fb (the file0))"
proof -
  have inv: "key_inv fb tb file0 w" by (rule key_steps_inv [OF assms(3,1,2)])
  have inv': "key_inv fb tb file0 w'" by (rule key_steps_inv [OF rtranclp_trans [OF assms(3,4)] assms(1,2)])
  have "k' = k"
  proof (cases "kw_owner w")
    case None
    with inv assms(5) obtain bs where "file0 = Some bs" "k = fb bs" by (fastforce simp: key_inv_def)
    with inv' assms(6) show ?thesis by (auto simp: key_inv_def split: option.splits)
  next
    case (Some key)
    have "kw_owner w' = Some key" using key_owner_stays [OF assms(4) inv Some assms(1,2)] by blast
    then show ?thesis using inv inv' Some assms(5,6) by (auto simp: key_inv_def)
  qed
  moreover have "kw_file w' = file0 \<and> k = fb (the file0)" if "file0 \<noteq> None"
    using inv inv' assms(5) that by (fastforce simp: key_inv_def split: option.splits)
  ultimately show ?thesis by blast
qed

theorem key_unique_witness:
  "\<exists>(w :: 8 word key_world) w'. (key_step hd (replicate 32))\<^sup>*\<^sup>* (key_start None) w \<and> (key_step hd (replicate 32))\<^sup>*\<^sup>* w w'
     \<and> kw_pc w 0 = Loaded 7 \<and> kw_pc w' 1 = Loaded 7 \<and> (\<nexists>k. kw_pc w' 1 = Loaded k \<and> k \<noteq> 7)"
proof -
  let ?S = "key_step hd (replicate 32) :: 8 word key_world \<Rightarrow> 8 word key_world \<Rightarrow> bool"
  define st where "st pcs fl owner = \<lparr>kw_pc = (\<lambda>_. Reading)(0 := fst pcs, 1 := snd pcs), kw_file = fl, kw_owner = owner\<rparr>"
    for pcs :: "8 word key_pc \<times> 8 word key_pc" and fl owner
  define w0 w1 w2 w3 w4 w5 where "w0 = st (Reading, Reading) None None" and "w1 = st (Creating 7, Reading) None None"
    and "w2 = st (Writing 7, Reading) (Some []) (Some 7)" and "w3 = st (Loaded 7, Reading) (Some []) (Some 7)"
    and "w4 = st (Loaded 7, Reading) (Some (replicate 32 7)) (Some 7)"
    and "w5 = st (Loaded 7, Loaded 7) (Some (replicate 32 7)) (Some 7)"
  note ws = w0_def w1_def w2_def w3_def w4_def w5_def st_def
  have start: "key_start None = w0" by (auto simp: ws key_start_def)
  have s1: "?S w0 w1"
    using step_read [of w0 0 hd "replicate 32" 7 False] by (simp add: ws key_read_def fs_read_def fun_upd_twist)
  have s2: "?S w1 w2"
    using step_create [of w1 0 7 False "Writing 7" "Some []" hd "replicate 32"] by (simp add: ws key_create_def fun_upd_twist)
  have s3: "?S w2 w3" using step_write [of w2 0 7 hd "replicate 32" True] by (simp add: ws key_write_def fun_upd_twist)
  have s4: "?S w3 w4" using step_land [of w3 7 "replicate 32" 0 32 hd] by (simp add: ws key_landed_def)
  have s5: "?S w4 w5" using step_read [of w4 1 hd "replicate 32" 9 False] by (simp add: ws key_read_def fs_read_def)
  have steps: "?S\<^sup>*\<^sup>* (key_start None) w3" "?S\<^sup>*\<^sup>* w3 w5"
    unfolding start
    by (rule rtranclp.rtrancl_into_rtrancl [OF rtranclp.rtrancl_into_rtrancl [OF r_into_rtranclp [of ?S, OF s1] s2] s3])
      (rule rtranclp.rtrancl_into_rtrancl [OF r_into_rtranclp [of ?S, OF s4] s5])
  have "k = 7" if "kw_pc w5 1 = Loaded k" for k
    by (rule conjunct1 [OF key_unique [OF _ _ steps _ that, where i = 0]]) (simp_all add: ws)
  then show ?thesis using steps by (intro exI [of _ w3] exI [of _ w5]) (simp add: ws)
qed

text \<open>Restarts. An instance that finds no file comes up with a generated key; what a later start does
  depends only on how much of it reached the file: with all 32 bytes it comes up with the same key, with
  fewer it refuses to start. In no case does it change the file or come up with another key.\<close>

theorem key_restart:
  assumes "\<And>k. fb (tb k) = k" "\<And>k. length (tb k) = 32"
    and "load_or_create_key fb tb g io None = (Loaded k, file)" "\<not> io_read_err io'"
  shows "k = g \<and> load_or_create_key fb tb g' io' file
    = (if io_landed io < 32 then Failed NotThirtyTwo else Loaded g, file)"
proof -
  have "\<not> io_read_err io" "\<not> io_open_err io"
    using assms(3) by (auto simp: load_or_create_key_def key_read_def fs_read_def key_create_def split: if_splits)
  with assms(3) have k: "k = g" and fl: "file = Some (take (io_landed io) (tb g))"
    by (auto simp: load_fresh key_write_def key_landed_def split: if_splits)
  show ?thesis
    using k fl assms(1,2,4) by (auto simp: load_existing_32 load_existing_short)
qed

theorem key_restart_witness:
  "load_or_create_key hd (replicate 32) (9 :: 8 word) \<lparr>io_read_err = False, io_open_err = False, io_accepted = True, io_landed = 32\<rparr>
     (snd (load_or_create_key hd (replicate 32) 7 \<lparr>io_read_err = False, io_open_err = False, io_accepted = True, io_landed = 32\<rparr> None))
   = (Loaded 7, Some (replicate 32 7))"
proof -
  let ?io = "\<lparr>io_read_err = False, io_open_err = False, io_accepted = True, io_landed = 32\<rparr>"
  have "load_or_create_key hd (replicate 32) (7 :: 8 word) ?io None = (Loaded 7, Some (replicate 32 7))"
    by (simp add: load_fresh key_write_def key_landed_def)
  then show ?thesis
    using key_restart [of hd "replicate 32" "7 :: 8 word" ?io 7 "Some (replicate 32 7)" ?io 9] by simp
qed

text \<open>\<open>write_private\<close> does not flush. When the write is accepted but fails afterwards, the instance
  runs with a key that no later start can load: every one of them refuses, whatever the operating system
  does, until the file is removed.\<close>

theorem key_lost_without_flush:
  "\<exists>io file. load_or_create_key fb tb g io None = (Loaded g, file)
     \<and> (\<forall>g' io'. \<exists>e. load_or_create_key fb tb g' io' file = (Failed e, file))"
proof (intro exI conjI allI)
  let ?io = "\<lparr>io_read_err = False, io_open_err = False, io_accepted = True, io_landed = 0\<rparr>"
  show "load_or_create_key fb tb g ?io None = (Loaded g, Some [])" by (simp add: load_fresh key_write_def key_landed_def)
  show "load_or_create_key fb tb g' io' (Some []) = (Failed (if io_read_err io' then ReadFailed else NotThirtyTwo), Some [])" for g' io'
    by (simp add: load_or_create_key_def key_read_def fs_read_def)
qed

end
