(* ===== verification/Launch.thy ===== *)
theory Launch
  imports Server Info KeyFile Tls
begin

text \<open>
  Bringing a server up: \<open>Sfu::spawn\<close> of \<open>src/src/server.rs\<close>, \<open>main\<close> of \<open>src/src/bin/kt-sfu.rs\<close> with its
  arguments and its reporting task.

  The relay server and the QUIC endpoint are iroh-relay's and iroh's: they are the fields of \<open>world\<close>, each a
  function of the configuration the code builds for it; the TLS libraries are the \<open>tls_lib\<close> of \<open>Tls\<close>. Socket
  addresses, URLs, keys and certificates are type parameters. A library call that fails is \<open>None\<close>.
\<close>

section \<open>Configuration\<close>

text \<open>\<open>'a\<close>: socket addresses, \<open>'u\<close>: relay URLs, \<open>'k\<close>: secret keys, \<open>'c\<close>: certificates, \<open>'t\<close>: trust anchors.\<close>

record ('a, 'u, 'k, 'c, 't) sfu_config =
  cf_relay_http_bind :: 'a
  cf_relay_https_bind :: 'a
  cf_relay_quic_bind :: "'a option"
  cf_cert :: 'c
  cf_public_relay_url :: "'u option"
  cf_public_quic_port :: "16 word option"
  cf_relay_rate_limit :: "relay_rate_limit option"
  cf_sfu_bind :: "'a list"
  cf_sfu_secret :: 'k
  cf_sfu_ca :: "'t option"
  cf_limits :: limits

text \<open>What \<open>spawn\<close> hands to the relay server: the listeners, the key cache and the limit on what a client
  may send (a rate and a burst).\<close>

record ('a, 'c) relay_server_config =
  rs_http :: 'a
  rs_tls :: "('a \<times> 'c) option"
  rs_key_cache :: "usize option"
  rs_client_rx :: "(32 word \<times> 32 word option) option"
  rs_quic :: "'a option"

record transport_config =
  tc_bidi_streams :: nat
  tc_uni_streams :: nat
  tc_receive_window :: nat
  tc_stream_receive_window :: nat
  tc_send_window :: u64
  tc_datagram_buffer :: "usize option"

record ('a, 'u, 'k, 't) endpoint_config =
  ec_secret :: 'k
  ec_alpns :: "bytes list"
  ec_relay_map :: "'u \<times> 16 word option"
  ec_transport :: transport_config
  ec_ca :: "'t option"
  ec_binds :: "'a list"

record ('a, 'u, 'k, 'c, 't) world =
  w_show_addr :: "'a \<Rightarrow> bytes"
  w_port :: "'a \<Rightarrow> 16 word"
  w_show_url :: "'u \<Rightarrow> bytes"
  w_parse_url :: "bytes \<Rightarrow> 'u option"
  w_show_id :: "endpoint_id \<Rightarrow> bytes"
  w_relay :: "('a, 'c) relay_server_config \<Rightarrow> ('a option \<times> 'a option) option"
  w_bind_addr :: "'a \<Rightarrow> bool"
  w_endpoint :: "('a, 'u, 'k, 't) endpoint_config \<Rightarrow> endpoint_id option"
  w_write :: "bytes \<Rightarrow> bytes \<Rightarrow> bool"
  w_listen :: "'a \<Rightarrow> bool"

section \<open>Spawning the SFU\<close>

datatype 'a spawn_error = RelayFailed | NoHttpsListener | BadDefaultUrl | BindFailed 'a | EndpointFailed

record ('a, 'u) spawned =
  sp_https_addr :: "'a option"
  sp_quic_addr :: "'a option"
  sp_id :: endpoint_id
  sp_relay_url :: 'u
  sp_relay_map :: "'u \<times> 16 word option"
  sp_server :: server

definition spawn_relay :: "('a, 'u, 'k, 'c, 't) sfu_config \<Rightarrow> ('a, 'c) relay_server_config" where
  "spawn_relay config =
     \<lparr>rs_http = cf_relay_http_bind config,
      rs_tls = Some (cf_relay_https_bind config, cf_cert config),
      rs_key_cache = Some 4096,
      rs_client_rx = (case cf_relay_rate_limit config of
         None \<Rightarrow> None
       | Some limit \<Rightarrow> Some (rl_bytes_per_second limit, Some (rl_burst_bytes limit))),
      rs_quic = cf_relay_quic_bind config\<rparr>"

definition public_relay_url :: "('a, 'u, 'k, 'c, 't) world \<Rightarrow> 'u option \<Rightarrow> 'a option \<Rightarrow> 'a spawn_error + 'u" where
  "public_relay_url w public https_addr =
     (case public of
        Some url \<Rightarrow> Inr url
      | None \<Rightarrow>
          (case https_addr of
             None \<Rightarrow> Inl NoHttpsListener
           | Some addr \<Rightarrow>
               (case w_parse_url w (ascii ''https://'' @ w_show_addr w addr) of
                  None \<Rightarrow> Inl BadDefaultUrl
                | Some url \<Rightarrow> Inr url)))"

definition or_bound_port :: "('a, 'u, 'k, 'c, 't) world \<Rightarrow> 16 word option \<Rightarrow> 'a option \<Rightarrow> 16 word option" where
  "or_bound_port w public quic_addr = (case public of None \<Rightarrow> map_option (w_port w) quic_addr | Some p \<Rightarrow> Some p)"

definition spawn_transport :: "limits \<Rightarrow> transport_config" where
  "spawn_transport limits =
     \<lparr>tc_bidi_streams = 1, tc_uni_streams = max_lane_streams limits,
      tc_receive_window = QUIC_RECEIVE_WINDOW, tc_stream_receive_window = QUIC_STREAM_RECEIVE_WINDOW,
      tc_send_window = of_nat (bulk_outbox_bytes limits + QUIC_SEND_WINDOW_HEADROOM),
      tc_datagram_buffer = Some QUIC_DATAGRAM_RECEIVE_BUFFER\<rparr>"

definition spawn :: "('a, 'u, 'k, 'c, 't) world \<Rightarrow> (nat \<Rightarrow> nat) \<Rightarrow> (u64 \<Rightarrow> endpoint_id) \<Rightarrow> ('a, 'u, 'k, 'c, 't) sfu_config
    \<Rightarrow> 'a spawn_error + ('a, 'u) spawned" where
  "spawn w clock peers config =
     (case w_relay w (spawn_relay config) of
        None \<Rightarrow> Inl RelayFailed
      | Some (https_addr, quic_addr) \<Rightarrow>
          (case public_relay_url w (cf_public_relay_url config) https_addr of
             Inl err \<Rightarrow> Inl err
           | Inr relay_url \<Rightarrow>
               let quic_port = or_bound_port w (cf_public_quic_port config) quic_addr;
                   relay_map = (relay_url, quic_port);
                   endpoint = \<lparr>ec_secret = cf_sfu_secret config, ec_alpns = [SFU_ALPN], ec_relay_map = relay_map,
                     ec_transport = spawn_transport (cf_limits config), ec_ca = cf_sfu_ca config,
                     ec_binds = cf_sfu_bind config\<rparr>
               in case find (\<lambda>addr. \<not> w_bind_addr w addr) (cf_sfu_bind config) of
                    Some addr \<Rightarrow> Inl (BindFailed addr)
                  | None \<Rightarrow>
                      (case w_endpoint w endpoint of
                         None \<Rightarrow> Inl EndpointFailed
                       | Some i \<Rightarrow>
                           Inr \<lparr>sp_https_addr = https_addr, sp_quic_addr = quic_addr, sp_id = i,
                                sp_relay_url = relay_url, sp_relay_map = relay_map,
                                sp_server = server_new (cf_limits config) clock peers\<rparr>)))"

text \<open>\<open>sfu_addr\<close>: what clients dial, an id and a relay.\<close>

definition sfu_addr :: "('a, 'u) spawned \<Rightarrow> endpoint_id \<times> 'u" where
  "sfu_addr s = (sp_id s, sp_relay_url s)"

section \<open>The binary\<close>

record ('a, 'u) args =
  a_relay_http_bind :: 'a
  a_relay_https_bind :: 'a
  a_relay_quic_bind :: 'a
  a_no_qad :: bool
  a_tls_cert :: "bytes option"
  a_tls_key :: "bytes option"
  a_dev :: bool
  a_dev_cert_out :: bytes
  a_dev_hosts :: "bytes list"
  a_public_relay_url :: "'u option"
  a_public_quic_port :: "16 word option"
  a_sfu_bind :: "'a list"
  a_sfu_key :: bytes
  a_info_bind :: "'a option"
  a_relay_client_rate :: "32 word"
  a_relay_client_burst :: "32 word"
  a_max_connections :: usize

text \<open>The defaults of the arguments; \<open>addr\<close> parses a socket address.\<close>

definition args_default :: "(bytes \<Rightarrow> 'a) \<Rightarrow> ('a, 'u) args" where
  "args_default addr =
     \<lparr>a_relay_http_bind = addr (ascii ''[::]:80''), a_relay_https_bind = addr (ascii ''[::]:443''),
      a_relay_quic_bind = addr (ascii ''[::]:7842''), a_no_qad = False, a_tls_cert = None, a_tls_key = None,
      a_dev = False, a_dev_cert_out = ascii ''kt-sfu-dev-cert.pem'', a_dev_hosts = [], a_public_relay_url = None,
      a_public_quic_port = None, a_sfu_bind = [addr (ascii ''[::]:9702'')], a_sfu_key = ascii ''kt-sfu.key'',
      a_info_bind = None, a_relay_client_rate = 2 * 1024 * 1024, a_relay_client_burst = 4 * 1024 * 1024,
      a_max_connections = 10000\<rparr>"

datatype 'a start_error = KeyFailed key_error | TlsFailed tls_error | DevCertNotWritten | TlsRequired
  | SpawnFailed "'a spawn_error" | InfoListener

text \<open>The certificate and the trust anchors for the SFU's own endpoint. \<open>files\<close> is the file system; in the result
  the development certificate has been written to it.\<close>

definition kt_cert :: "('d, 'q, 'b, 'r, 's, 't) tls_lib \<Rightarrow> ('a, 'u, 'k, 's cert_config, 't) world \<Rightarrow> ('a, 'u) args
    \<Rightarrow> (bytes \<rightharpoonup> bytes) \<Rightarrow> 'a start_error + ('s cert_config \<times> 't option \<times> (bytes \<rightharpoonup> bytes))" where
  "kt_cert lib w args files =
     (if a_dev args then
        (case dev_cert_generate lib (a_dev_hosts args) of
           Inl err \<Rightarrow> Inl (TlsFailed err)
         | Inr dev \<Rightarrow>
             if \<not> w_write w (a_dev_cert_out args) (dc_cert_pem dev) then Inl DevCertNotWritten
             else (case dev_cert_config lib dev of
                     Inl err \<Rightarrow> Inl (TlsFailed err)
                   | Inr cert \<Rightarrow> Inr (cert, Some (dev_cert_ca lib dev), files(a_dev_cert_out args \<mapsto> dc_cert_pem dev))))
      else
        (case (a_tls_cert args, a_tls_key args) of
           (Some cert, Some key) \<Rightarrow>
             (case reloading_cert lib cert key of
                Inl err \<Rightarrow> Inl (TlsFailed err)
              | Inr c \<Rightarrow> Inr (c, None, files))
         | _ \<Rightarrow> Inl TlsRequired))"

text \<open>\<open>NonZeroU32::new(rate).map(...)\<close>: a zero rate is no limit, a zero burst is the rate.\<close>

definition kt_relay_rate_limit :: "32 word \<Rightarrow> 32 word \<Rightarrow> relay_rate_limit option" where
  "kt_relay_rate_limit rate burst =
     (if rate = 0 then None
      else Some \<lparr>rl_bytes_per_second = rate, rl_burst_bytes = (if burst = 0 then rate else burst)\<rparr>)"

definition kt_config :: "('a, 'u) args \<Rightarrow> 'k \<Rightarrow> 'c \<Rightarrow> 't option \<Rightarrow> ('a, 'u, 'k, 'c, 't) sfu_config" where
  "kt_config args secret cert ca =
     \<lparr>cf_relay_http_bind = a_relay_http_bind args, cf_relay_https_bind = a_relay_https_bind args,
      cf_relay_quic_bind = (if a_no_qad args then None else Some (a_relay_quic_bind args)),
      cf_cert = cert, cf_public_relay_url = a_public_relay_url args,
      cf_public_quic_port = a_public_quic_port args,
      cf_relay_rate_limit = kt_relay_rate_limit (a_relay_client_rate args) (a_relay_client_burst args),
      cf_sfu_bind = a_sfu_bind args, cf_sfu_secret = secret, cf_sfu_ca = ca,
      cf_limits = limits_default\<lparr>max_connections := a_max_connections args\<rparr>\<rparr>"

text \<open>The body the info listener serves, when there is one.\<close>

definition kt_info_body :: "('a, 'u, 'k, 'c, 't) world \<Rightarrow> ('a, 'u) args \<Rightarrow> ('a, 'u) spawned \<Rightarrow> bytes" where
  "kt_info_body w args s =
     sfu_info_json (w_show_id w (sp_id s)) (w_show_url w (sp_relay_url s))
       (or_bound_port w (a_public_quic_port args) (sp_quic_addr s))"

text \<open>\<open>main\<close> up to the point where it waits: the key, the certificate, the SFU, the info listener. \<open>key\<close> is what
  \<open>load_or_create_key\<close> returned.\<close>

definition kt_main :: "('d, 'q, 'b, 'r, 's, 't) tls_lib \<Rightarrow> ('a, 'u, 'k, 's cert_config, 't) world \<Rightarrow> (nat \<Rightarrow> nat)
    \<Rightarrow> (u64 \<Rightarrow> endpoint_id) \<Rightarrow> ('a, 'u) args \<Rightarrow> key_error + 'k \<Rightarrow> (bytes \<rightharpoonup> bytes)
    \<Rightarrow> 'a start_error + (('a, 'u) spawned \<times> bytes option \<times> (bytes \<rightharpoonup> bytes))" where
  "kt_main lib w clock peers args key files =
     (case key of
        Inr secret \<Rightarrow>
          (case kt_cert lib w args files of
             Inl err \<Rightarrow> Inl err
           | Inr (cert, ca, files1) \<Rightarrow>
               (case spawn w clock peers (kt_config args secret cert ca) of
                  Inl err \<Rightarrow> Inl (SpawnFailed err)
                | Inr sfu \<Rightarrow>
                    (case a_info_bind args of
                       None \<Rightarrow> Inr (sfu, None, files1)
                     | Some bind \<Rightarrow>
                         if w_listen w bind then Inr (sfu, Some (kt_info_body w args sfu), files1) else Inl InfoListener)))
      | Inl err \<Rightarrow> Inl (KeyFailed err))"

text \<open>The reporting task: one tick, then all ticks. \<open>prev\<close> is what was logged last.\<close>

definition report_tick :: "stats_values \<Rightarrow> stats_values \<Rightarrow> stats_values option \<times> stats_values" where
  "report_tick now prev = (if now \<noteq> prev then (Some now, now) else (None, prev))"

fun report_loop :: "stats_values list \<Rightarrow> stats_values \<Rightarrow> stats_values list" where
  "report_loop [] prev = []"
| "report_loop (now # later) prev =
     (case report_tick now prev of
        (None, prev') \<Rightarrow> report_loop later prev'
      | (Some line, prev') \<Rightarrow> line # report_loop later prev')"

section \<open>Looking at a running SFU, and stopping it\<close>

definition sfu_members :: "topic \<Rightarrow> server \<Rightarrow> endpoint_id list" where
  "sfu_members topic v = members (f_rooms (v_sfu v)) topic"

definition sfu_occupancy :: "server \<Rightarrow> usize \<times> usize" where
  "sfu_occupancy v = occupancy (f_rooms (v_sfu v))"

definition sfu_stats :: "server \<Rightarrow> stats" where
  "sfu_stats v = n_stats (f_net (v_sfu v))"

text \<open>\<open>Sfu::shutdown\<close>: what it asks of tokio, iroh and the relay, in this order, and its result; \<open>relay_ok\<close> is the relay's
  answer. What is then left of the connections is the subject of \<open>Draining\<close>.\<close>

datatype sfu_action = AbortAccept | CloseEndpoint | ShutdownRelay

datatype exit_error = RelayShutdown | RelayStopped

definition sfu_shutdown :: "bool \<Rightarrow> sfu_action list \<times> (exit_error + unit)" where
  "sfu_shutdown relay_ok =
     ([AbortAccept, CloseEndpoint, ShutdownRelay], if relay_ok then Inr () else Inl RelayShutdown)"

text \<open>The end of \<open>main\<close>: it waits for ctrl-c or for the relay to stop, whichever is first.\<close>

datatype wait_outcome = CtrlC | RelayEnded

definition kt_wait :: "wait_outcome \<Rightarrow> bool \<Rightarrow> sfu_action list \<times> (exit_error + unit)" where
  "kt_wait first relay_ok = (case first of CtrlC \<Rightarrow> sfu_shutdown relay_ok | RelayEnded \<Rightarrow> ([], Inl RelayStopped))"

section \<open>Lemmas\<close>

lemma spawn_ok:
  assumes "spawn w clock peers config = Inr s"
  shows "sp_relay_map s = (sp_relay_url s, or_bound_port w (cf_public_quic_port config) (sp_quic_addr s))"
    and "sp_server s = server_new (cf_limits config) clock peers"
    and "cf_public_relay_url config = Some url \<Longrightarrow> sp_relay_url s = url"
    and "\<exists>ec. w_endpoint w ec = Some (sp_id s) \<and> ec_secret ec = cf_sfu_secret config \<and> ec_alpns ec = [SFU_ALPN]
      \<and> ec_relay_map ec = sp_relay_map s \<and> ec_transport ec = spawn_transport (cf_limits config) \<and> ec_ca ec = cf_sfu_ca config"
    and "w_relay w (spawn_relay config) = Some (sp_https_addr s, sp_quic_addr s)"
  using assms
  by (force simp: spawn_def public_relay_url_def Let_def split: option.splits prod.splits sum.splits)+

lemma kt_main_ok:
  assumes "kt_main lib w clock peers args key files = Inr (sfu, body, files1)"
  obtains secret cert ca where "key = Inr secret" "kt_cert lib w args files = Inr (cert, ca, files1)"
    "spawn w clock peers (kt_config args secret cert ca) = Inr sfu"
    "body = map_option (\<lambda>_. kt_info_body w args sfu) (a_info_bind args)"
  using assms by (auto simp: kt_main_def split: sum.splits prod.splits option.splits if_splits)

text \<open>With \<open>--dev\<close>, the file the certificate was written to gives the anchors the SFU trusts itself.\<close>

lemma kt_cert_trusted:
  assumes "kt_cert lib w args files = Inr (cert, ca, files1)" "a_dev args" "pem_faithful lib"
  obtains dev where "dev_cert_config lib dev = Inr cert" "ca = Some (dev_cert_ca lib dev)"
    "ca_from_pem_file lib files1 (a_dev_cert_out args) = Inr (dev_cert_ca lib dev)"
proof -
  obtain dev where dev: "dev_cert_generate lib (a_dev_hosts args) = Inr dev" "dev_cert_config lib dev = Inr cert"
      "ca = Some (dev_cert_ca lib dev)" "files1 = files(a_dev_cert_out args \<mapsto> dc_cert_pem dev)"
    using assms(1,2) by (auto simp: kt_cert_def split: sum.splits if_splits)
  show ?thesis
    using that dev dev_cert_trusted [OF assms(3) dev(1), of files1 "a_dev_cert_out args"] by simp
qed

lemma launch_limits_ok: "limits_ok (limits_default\<lparr>max_connections := n\<rparr>)"
  using limits_default_ok by (simp add: limits_ok_def)

text \<open>The binary's defaults are the library's.\<close>

lemma args_default_config:
  "cf_limits (kt_config (args_default addr) secret cert ca) = limits_default"
  "cf_relay_rate_limit (kt_config (args_default addr) secret cert ca) = Some relay_rate_limit_default"
  by (simp_all add: kt_config_def args_default_def limits_default_def kt_relay_rate_limit_def relay_rate_limit_default_def
      MIB_def)

section \<open>Properties\<close>

text \<open>A server that \<open>kt-sfu\<close> brought up, with whatever arguments, stays within the protocol's
  limits in every state it can reach: no room has more than 1024 members, no connection is in more than
  512 topics, and its queues are within their budgets.\<close>

theorem launched_server_caps:
  assumes "kt_main lib w clock peers args key files = Inr (sfu, body, files1)" "server_reach ev (sp_server sfu) v" "env_ok ev"
  shows "card (dom (presence (f_rooms (v_sfu v)) t)) \<le> MAX_MEMBERS_PER_TOPIC
    \<and> (\<forall>se. holder v k = Some se \<longrightarrow> length (se_subscribed se) \<le> MAX_TOPICS_PER_CONNECTION)
    \<and> conn_ok (n_conns (f_net (v_sfu v)) k)"
proof -
  obtain secret cert ca where "spawn w clock peers (kt_config args secret cert ca) = Inr sfu"
    using kt_main_ok [OF assms(1)] by metis
  then have "sp_server sfu = server_new (limits_default\<lparr>max_connections := a_max_connections args\<rparr>) clock peers"
    using spawn_ok(2) by (fastforce simp: kt_config_def)
  then show ?thesis
    using server_reach_caps [OF _ launch_limits_ok assms(3), where v = v and t = t and k = k] assms(2)
    by (simp add: limits_default_def MAX_MEMBERS_PER_TOPIC_def)
qed

text \<open>The relay's limit on a client is what \<open>NonZeroU32\<close> says it is: there is one exactly when the
  rate is not zero, and then neither its rate nor its burst is zero.\<close>

theorem relay_limit_nonzero:
  "(case rs_client_rx (spawn_relay (kt_config args secret cert ca)) of
      None \<Rightarrow> a_relay_client_rate args = 0
    | Some (rate, burst) \<Rightarrow> rate = a_relay_client_rate args \<and> rate \<noteq> 0 \<and> burst \<noteq> None \<and> burst \<noteq> Some 0)"
  by (simp add: spawn_relay_def kt_config_def kt_relay_rate_limit_def)

lemma report_loop_changes: "report_loop ss prev = tl (remdups_adj (prev # ss))"
  by (induction ss arbitrary: prev) (auto simp: report_tick_def)

text \<open>The reporting task logs exactly the changes: the totals of successive ticks with repetitions of
  the one before removed, the all-zero totals of the start included.\<close>

theorem report_loop_only_changes:
  "stats_snapshot stats_default # report_loop (map stats_snapshot ss) (stats_snapshot stats_default)
     = remdups_adj (stats_snapshot stats_default # map stats_snapshot ss)"
  using list.collapse [of "remdups_adj (stats_snapshot stats_default # map stats_snapshot ss)"]
  by (simp add: report_loop_changes hd_remdups_adj)

section \<open>A start\<close>

definition sample_world :: "(bytes, bytes, byte, unit cert_config, bytes list) world" where
  "sample_world = \<lparr>w_show_addr = \<lambda>a. a, w_port = \<lambda>_. 7842, w_show_url = \<lambda>u. u, w_parse_url = Some, w_show_id = id_bytes,
     w_relay = \<lambda>c. Some (map_option fst (rs_tls c), rs_quic c), w_bind_addr = \<lambda>_. True,
     w_endpoint = \<lambda>_. Some (EndpointId (ascii ''ab12'')), w_write = \<lambda>_ _. True, w_listen = \<lambda>_. True\<rparr>"

text \<open>A certificate that is the list of its names, and a PEM text that is the certificate.\<close>

definition sample_lib :: "(bytes, bytes, unit, unit, unit, bytes list) tls_lib" where
  "sample_lib = \<lparr>tl_safe_versions = Some (), tl_no_client_auth = \<lambda>b. b, tl_resolver = \<lambda>_ _ _. Some (),
     tl_with_resolver = \<lambda>_ _. (), tl_single_cert = \<lambda>_ _ _. Some (),
     tl_self_signed = \<lambda>names. Some (concat names, concat names, [7]), tl_pkcs8 = \<lambda>k. k, tl_pem_certs = \<lambda>pem. [Some pem],
     tl_custom_roots = \<lambda>ds. ds\<rparr>"

lemma sample_lib_faithful: "pem_faithful sample_lib"
  by (simp add: pem_faithful_def sample_lib_def)

definition sample_args :: "(bytes, bytes) args" where
  "sample_args = \<lparr>a_relay_http_bind = ascii ''h:80'', a_relay_https_bind = ascii ''h:443'', a_relay_quic_bind = ascii ''h:7842'',
     a_no_qad = False, a_tls_cert = None, a_tls_key = None, a_dev = True, a_dev_cert_out = ascii ''out.pem'', a_dev_hosts = [],
     a_public_relay_url = None, a_public_quic_port = None, a_sfu_bind = [ascii ''h:9702''], a_sfu_key = ascii ''kt-sfu.key'', a_info_bind = Some (ascii ''h:8080''),
     a_relay_client_rate = 2097152, a_relay_client_burst = 0, a_max_connections = 10000\<rparr>"

definition sample_up :: "(bytes, bytes) spawned" where
  "sample_up = \<lparr>sp_https_addr = Some (ascii ''h:443''), sp_quic_addr = Some (ascii ''h:7842''), sp_id = EndpointId (ascii ''ab12''),
     sp_relay_url = ascii ''https://h:443'', sp_relay_map = (ascii ''https://h:443'', Some 7842),
     sp_server = server_new (limits_default\<lparr>max_connections := 10000\<rparr>) (\<lambda>_. 0) (\<lambda>_. EndpointId [])\<rparr>"

lemma sample_start:
  "kt_main sample_lib sample_world (\<lambda>_. 0) (\<lambda>_. EndpointId []) sample_args (Inr 7) Map.empty
     = Inr (sample_up, Some (kt_info_body sample_world sample_args sample_up),
         [ascii ''out.pem'' \<mapsto> ascii ''localhost127.0.0.1::1''])"
  by (simp add: kt_main_def kt_cert_def dev_cert_generate_def dev_cert_names_def dev_cert_config_def
      server_config_builder_def sample_lib_def spawn_def kt_config_def spawn_relay_def public_relay_url_def or_bound_port_def
      sample_world_def sample_args_def sample_up_def ascii_def)

theorem launched_server_caps_witness:
  "card (dom (presence (f_rooms (v_sfu (sp_server sample_up))) (Topic []))) \<le> MAX_MEMBERS_PER_TOPIC"
  using launched_server_caps [OF sample_start rtranclp.rtrancl_refl,
      of "\<lparr>ev_valid_key = \<lambda>_. True, ev_key_error = [], ev_sendable = \<lambda>_ _. True\<rparr>"]
  by (simp add: env_ok_def)

end
