(* ===== verification/Atomics.thy ===== *)
theory Atomics
  imports Session
begin

text \<open>
  The two counters of \<open>src/src/server.rs\<close> that tasks change without a lock, one atomic operation at a
  time: \<open>Budget\<close> in \<open>MemberHandle::reserve\<close> (any number of senders and the connection's writers) and
  \<open>Stats::connections\<close> in \<open>ConnectionSlot\<close> (the accept loop and the connections that end). The other
  theories take \<open>reserve\<close> and \<open>acquire\<close> as single steps; here another task may run between any two of their
  operations.
\<close>

section \<open>The budget\<close>

text \<open>Where a sender stands in \<open>reserve\<close>: before the load, before the \<open>fetch_add\<close>, after it with the value it
  returned, after the release and before the \<open>swap\<close>.\<close>

datatype reserve_pc = RIdle | RLoad usize | RAdd usize | RAdded usize usize | RSwap

record budget_world =
  bw_budget :: budget
  bw_pcs :: "reserve_pc list"
  bw_granted :: "usize list"
  bw_closes :: nat

text \<open>The last two fields: the sizes reserved and not yet released, and how often the connection was closed as a
  slow consumer. A size is the length of a frame, at most \<open>frame_max\<close>; the counter does not reach
  \<open>2 ^ 64\<close>.\<close>

inductive budget_step :: "usize \<Rightarrow> budget_world \<Rightarrow> budget_world \<Rightarrow> bool" for frame_max where
  call: "i < length (bw_pcs w) \<Longrightarrow> bw_pcs w ! i = RIdle \<Longrightarrow> n \<le> frame_max \<Longrightarrow>
     budget_step frame_max w (w\<lparr>bw_pcs := (bw_pcs w)[i := RLoad n]\<rparr>)"
| load: "i < length (bw_pcs w) \<Longrightarrow> bw_pcs w ! i = RLoad n \<Longrightarrow>
     budget_step frame_max w (w\<lparr>bw_pcs := (bw_pcs w)[i := if b_overflowed (bw_budget w) then RIdle else RAdd n]\<rparr>)"
| fetch_add: "i < length (bw_pcs w) \<Longrightarrow> bw_pcs w ! i = RAdd n \<Longrightarrow> b_queued (bw_budget w) + n < 2 ^ 64 \<Longrightarrow>
     budget_step frame_max w (w\<lparr>bw_pcs := (bw_pcs w)[i := RAdded n (b_queued (bw_budget w))],
       bw_budget := (bw_budget w)\<lparr>b_queued := usize_add (b_queued (bw_budget w)) n\<rparr>\<rparr>)"
| grant: "i < length (bw_pcs w) \<Longrightarrow> bw_pcs w ! i = RAdded n before
     \<Longrightarrow> \<not> (before > 0 \<and> usize_add before n > b_limit (bw_budget w)) \<Longrightarrow>
     budget_step frame_max w (w\<lparr>bw_pcs := (bw_pcs w)[i := RIdle], bw_granted := n # bw_granted w\<rparr>)"
| undo: "i < length (bw_pcs w) \<Longrightarrow> bw_pcs w ! i = RAdded n before
     \<Longrightarrow> before > 0 \<and> usize_add before n > b_limit (bw_budget w) \<Longrightarrow>
     budget_step frame_max w (w\<lparr>bw_pcs := (bw_pcs w)[i := RSwap], bw_budget := budget_release n (bw_budget w)\<rparr>)"
| swap: "i < length (bw_pcs w) \<Longrightarrow> bw_pcs w ! i = RSwap \<Longrightarrow>
     budget_step frame_max w (w\<lparr>bw_pcs := (bw_pcs w)[i := RIdle], bw_budget := (bw_budget w)\<lparr>b_overflowed := True\<rparr>,
       bw_closes := bw_closes w + (if b_overflowed (bw_budget w) then 0 else 1)\<rparr>)"
| release: "n \<in> set (bw_granted w) \<Longrightarrow>
     budget_step frame_max w (w\<lparr>bw_granted := remove1 n (bw_granted w), bw_budget := budget_release n (bw_budget w)\<rparr>)"

definition budget_start :: "usize \<Rightarrow> nat \<Rightarrow> budget_world" where
  "budget_start limit senders =
     \<lparr>bw_budget = budget_new limit, bw_pcs = replicate senders RIdle, bw_granted = [], bw_closes = 0\<rparr>"

section \<open>The connection count\<close>

text \<open>\<open>AcqAdded before\<close>: the accept loop between its \<open>fetch_add\<close> and what follows from it. A slot is dropped
  (\<open>slot_end\<close>) when a handshake fails or times out, or when a connection has been served.\<close>

datatype acquire_pc = AcqIdle | AcqAdded u64

record slot_world =
  sw_limits :: limits
  sw_stats :: stats
  sw_pc :: acquire_pc
  sw_held :: nat

inductive slot_step :: "slot_world \<Rightarrow> slot_world \<Rightarrow> bool" where
  acq_add: "sw_pc w = AcqIdle \<Longrightarrow>
     slot_step w (w\<lparr>sw_pc := AcqAdded (st_connections (sw_stats w)),
       sw_stats := (sw_stats w)\<lparr>st_connections := st_connections (sw_stats w) + 1\<rparr>\<rparr>)"
| acq_take: "sw_pc w = AcqAdded before \<Longrightarrow> \<not> before \<ge> of_nat (max_connections (sw_limits w)) \<Longrightarrow>
     slot_step w (w\<lparr>sw_pc := AcqIdle, sw_held := Suc (sw_held w)\<rparr>)"
| acq_refuse: "sw_pc w = AcqAdded before \<Longrightarrow> before \<ge> of_nat (max_connections (sw_limits w)) \<Longrightarrow>
     slot_step w (w\<lparr>sw_pc := AcqIdle, sw_stats := bump st_connections_refused_update (slot_drop (sw_stats w))\<rparr>)"
| slot_end: "sw_held w > 0 \<Longrightarrow>
     slot_step w (w\<lparr>sw_held := sw_held w - 1, sw_stats := slot_drop (sw_stats w)\<rparr>)"

definition slot_start :: "limits \<Rightarrow> slot_world" where
  "slot_start limits = \<lparr>sw_limits = limits, sw_stats = stats_default, sw_pc = AcqIdle, sw_held = 0\<rparr>"

section \<open>The connection count: lemmas\<close>

definition slot_inv :: "limits \<Rightarrow> slot_world \<Rightarrow> bool" where
  "slot_inv l w \<longleftrightarrow> sw_limits w = l \<and> sw_held w \<le> max_connections l
     \<and> (case sw_pc w of
          AcqIdle \<Rightarrow> st_connections (sw_stats w) = of_nat (sw_held w)
        | AcqAdded before \<Rightarrow> st_connections (sw_stats w) = of_nat (sw_held w) + 1
            \<and> sw_held w \<le> unat before \<and> unat before \<le> max_connections l)"

lemma slot_step_inv:
  assumes "slot_step w w'" "slot_inv l w" "max_connections l < 2 ^ 64"
  shows "slot_inv l w'"
proof -
  have n: "unat (of_nat n :: u64) = n" if "n \<le> max_connections l" for n
    using assms(3) that by (simp add: unsigned_of_nat take_bit_eq_mod)
  show ?thesis
    using assms(1,2)
    by cases (auto simp: slot_inv_def slot_drop_def bump_def n word_le_nat_alt of_nat_diff split: acquire_pc.splits)
qed

text \<open>C26: the connection cap, with the accept loop and the ends of connections interleaved at every atomic
  operation: never more than \<open>max_connections\<close> slots are held, the gauge exceeds them by at most the one
  being tried, and it is exact whenever the accept loop waits.\<close>

theorem slots_capped:
  assumes "slot_step\<^sup>*\<^sup>* (slot_start l) w" "max_connections l < 2 ^ 64"
  shows "sw_held w \<le> max_connections l
    \<and> st_connections (sw_stats w) = of_nat (sw_held w) + (if sw_pc w = AcqIdle then 0 else 1)"
proof -
  have "slot_inv l w"
    using assms(1)
  proof (induction rule: rtranclp_induct)
    case base
    show ?case by (simp add: slot_inv_def slot_start_def stats_default_def)
  next
    case (step w w')
    then show ?case using slot_step_inv assms(2) by blast
  qed
  then show ?thesis by (auto simp: slot_inv_def split: acquire_pc.splits)
qed

section \<open>The budget: lemmas\<close>

text \<open>What a sender has added to the counter, and how much of that its own test will let stand.\<close>

fun inflight :: "reserve_pc \<Rightarrow> usize" where
  "inflight (RAdded n before) = n"
| "inflight _ = 0"

fun standing :: "usize \<Rightarrow> reserve_pc \<Rightarrow> usize" where
  "standing limit (RAdded n before) = (if before > 0 \<and> before + n > limit then 0 else n)"
| "standing limit _ = 0"

fun pc_ok :: "usize \<Rightarrow> reserve_pc \<Rightarrow> bool" where
  "pc_ok frame_max (RLoad n) \<longleftrightarrow> n \<le> frame_max"
| "pc_ok frame_max (RAdd n) \<longleftrightarrow> n \<le> frame_max"
| "pc_ok frame_max (RAdded n before) \<longleftrightarrow> n \<le> frame_max \<and> before + n < 2 ^ 64"
| "pc_ok frame_max _ \<longleftrightarrow> True"

abbreviation inflights :: "reserve_pc list \<Rightarrow> usize" where
  "inflights pcs \<equiv> sum_list (map inflight pcs)"

abbreviation standings :: "usize \<Rightarrow> reserve_pc list \<Rightarrow> usize" where
  "standings limit pcs \<equiv> sum_list (map (standing limit) pcs)"

definition budget_inv :: "usize \<Rightarrow> usize \<Rightarrow> budget_world \<Rightarrow> bool" where
  "budget_inv frame_max limit w \<longleftrightarrow>
     b_limit (bw_budget w) = limit \<and> list_all (pc_ok frame_max) (bw_pcs w)
     \<and> b_queued (bw_budget w) = sum_list (bw_granted w) + inflights (bw_pcs w) \<and> b_queued (bw_budget w) < 2 ^ 64
     \<and> sum_list (bw_granted w) + standings limit (bw_pcs w) \<le> max limit frame_max
     \<and> bw_closes w = (if b_overflowed (bw_budget w) then 1 else 0)"

lemma standings_le: "standings limit pcs \<le> inflights pcs"
proof (rule sum_list_mono)
  show "standing limit pc \<le> inflight pc" for pc by (cases pc) simp_all
qed

lemma sum_list_map_update:
  "i < length xs \<Longrightarrow> sum_list (map f (xs[i := x])) + f (xs ! i) = sum_list (map f xs) + (f x :: nat)"
  by (induction xs arbitrary: i) (auto split: nat.splits)

lemma member_le_inflights: "i < length pcs \<Longrightarrow> inflight (pcs ! i) \<le> inflights pcs"
  using elem_le_sum_list [of i "map inflight pcs"] by simp

lemma list_all_nth: "list_all P xs \<Longrightarrow> i < length xs \<Longrightarrow> P (xs ! i)"
  by (simp add: list_all_length)

lemma list_all_update: "list_all P xs \<Longrightarrow> P x \<Longrightarrow> list_all P (xs[i := x])"
  by (auto simp: list_all_iff dest: set_update_subset_insert [THEN subsetD])

lemma sum_list_remove1_nat: "n \<in> set xs \<Longrightarrow> sum_list (remove1 n xs) + n = sum_list (xs :: nat list)"
  by (induction xs) auto

lemma budget_step_inv:
  assumes "budget_step frame_max w w'" "budget_inv frame_max limit w"
  shows "budget_inv frame_max limit w'"
  using assms(1)
proof cases
  case (call i n)
  then show ?thesis
    using assms(2) sum_list_map_update [OF call(2), of inflight "RLoad n"] sum_list_map_update [OF call(2), of "standing limit" "RLoad n"]
    by (simp add: budget_inv_def list_all_update)
next
  case (load i n)
  let ?pc = "if b_overflowed (bw_budget w) then RIdle else RAdd n"
  have "pc_ok frame_max (RLoad n)" using list_all_nth [OF _ load(2)] assms(2) load(3) by (metis budget_inv_def)
  then show ?thesis
    using load assms(2) sum_list_map_update [OF load(2), of inflight ?pc] sum_list_map_update [OF load(2), of "standing limit" ?pc]
    by (auto simp: budget_inv_def list_all_update)
next
  case (fetch_add i n)
  let ?pc = "RAdded n (b_queued (bw_budget w))"
  have "pc_ok frame_max (RAdd n)" using list_all_nth [OF _ fetch_add(2)] assms(2) fetch_add(3) by (metis budget_inv_def)
  then have ok: "pc_ok frame_max ?pc" and n: "n \<le> frame_max" using fetch_add(4) by simp_all
  note inf = sum_list_map_update [OF fetch_add(2), of inflight ?pc] and std = sum_list_map_update [OF fetch_add(2), of "standing limit" ?pc]
  have "sum_list (bw_granted w) + standings limit ((bw_pcs w)[i := ?pc]) \<le> max limit frame_max"
  proof -
    let ?G = "sum_list (bw_granted w)" and ?S = "standings limit (bw_pcs w)" and ?q = "b_queued (bw_budget w)"
    have inv: "?q = ?G + inflights (bw_pcs w)" "?G + ?S \<le> max limit frame_max"
      using assms(2) unfolding budget_inv_def by blast+
    have std': "standings limit ((bw_pcs w)[i := ?pc]) = ?S + standing limit ?pc" using std fetch_add(3) by simp
    show ?thesis
    proof (cases "?q > 0 \<and> ?q + n > limit")
      case True
      then show ?thesis using inv(2) std' by simp
    next
      case False
      then have "?q + n \<le> max limit frame_max" using n by auto
      then show ?thesis using std' inv(1) standings_le [of limit "bw_pcs w"] False by simp
    qed
  qed
  then show ?thesis
    using ok inf fetch_add(1,3,4) assms(2) by (simp add: budget_inv_def list_all_update usize_add_exact)
next
  case (grant i n before)
  have ok: "pc_ok frame_max (RAdded n before)" using list_all_nth [OF _ grant(2)] assms(2) grant(3) by (metis budget_inv_def)
  then have "standing limit (RAdded n before) = n"
    using grant(4) assms(2) by (auto simp: budget_inv_def usize_add_exact)
  then show ?thesis
    using grant assms(2) sum_list_map_update [OF grant(2), of inflight RIdle]
      sum_list_map_update [OF grant(2), of "standing limit" RIdle]
    by (auto simp: budget_inv_def list_all_update)
next
  case (undo i n before)
  have ok: "pc_ok frame_max (RAdded n before)" using list_all_nth [OF _ undo(2)] assms(2) undo(3) by (metis budget_inv_def)
  then have "standing limit (RAdded n before) = 0"
    using undo(4) assms(2) by (auto simp: budget_inv_def usize_add_exact)
  moreover have "n \<le> b_queued (bw_budget w)" "b_queued (bw_budget w) < 2 ^ 64"
    using member_le_inflights [OF undo(2)] undo(3) assms(2) by (auto simp: budget_inv_def)
  ultimately show ?thesis
    using undo assms(2) sum_list_map_update [OF undo(2), of inflight RSwap] sum_list_map_update [OF undo(2), of "standing limit" RSwap]
    by (simp add: budget_inv_def list_all_update budget_release_def usize_sub_exact) linarith
next
  case (swap i)
  then show ?thesis
    using assms(2) sum_list_map_update [OF swap(2), of inflight RIdle] sum_list_map_update [OF swap(2), of "standing limit" RIdle]
    by (simp add: budget_inv_def list_all_update)
next
  case (release n)
  then show ?thesis
    using assms(2) sum_list_remove1_nat [OF release(2)]
    by (simp add: budget_inv_def budget_release_def usize_sub_exact) linarith
qed

text \<open>C15: the budget, with senders and writers interleaved at every atomic operation: the bytes reserved
  never exceed the larger of the limit and one frame, the counter is the bytes reserved plus those of
  senders still deciding, so it is exact when none is, and a connection is closed as a slow consumer at
  most once, together with its overflow mark.\<close>

theorem budget_atomic:
  assumes "(budget_step frame_max)\<^sup>*\<^sup>* (budget_start limit senders) w"
  shows "sum_list (bw_granted w) \<le> max limit frame_max
    \<and> b_queued (bw_budget w) = sum_list (bw_granted w) + inflights (bw_pcs w)
    \<and> bw_closes w = (if b_overflowed (bw_budget w) then 1 else 0)"
proof -
  have "budget_inv frame_max limit w"
    using assms
  proof (induction rule: rtranclp_induct)
    case base
    show ?case by (simp add: budget_inv_def budget_start_def budget_new_def list_all_iff sum_list_replicate)
  next
    case (step w w')
    then show ?case using budget_step_inv by blast
  qed
  then show ?thesis by (simp add: budget_inv_def)
qed

text \<open>A sender that is not interrupted does what the single-step \<open>reserve\<close> does.\<close>

theorem reserve_uninterrupted:
  assumes "i < length (bw_pcs w)" "bw_pcs w ! i = RIdle" "n \<le> frame_max" "b_queued (bw_budget w) + n < 2 ^ 64"
    and "c_budget c = bw_budget w"
  shows "\<exists>w'. (budget_step frame_max)\<^sup>*\<^sup>* w w' \<and> bw_budget w' = c_budget (snd (reserve n c)) \<and> bw_pcs w' = bw_pcs w
    \<and> bw_granted w' = (if fst (reserve n c) then n # bw_granted w else bw_granted w)"
proof -
  let ?b = "bw_budget w" and ?q = "b_queued (bw_budget w)"
  note go = converse_rtranclp_into_rtranclp [of "budget_step frame_max"]
  have idle: "(bw_pcs w)[i := RIdle] = bw_pcs w" using assms(1,2) by (metis list_update_id)
  let ?w1 = "w\<lparr>bw_pcs := (bw_pcs w)[i := RLoad n]\<rparr>" and ?w2 = "w\<lparr>bw_pcs := (bw_pcs w)[i := RAdd n]\<rparr>"
    and ?w3 = "w\<lparr>bw_pcs := (bw_pcs w)[i := RAdded n ?q], bw_budget := ?b\<lparr>b_queued := usize_add ?q n\<rparr>\<rparr>"
  have s1: "budget_step frame_max w ?w1" by (rule call) (use assms in simp_all)
  show ?thesis
  proof (cases "b_overflowed ?b")
    case True
    have "budget_step frame_max ?w1 w" using load [of i ?w1 n frame_max] assms(1) True idle by simp
    then show ?thesis using s1 True assms(5) by (intro exI [of _ w]) (auto simp: reserve_def intro: go)
  next
    case False
    have s2: "budget_step frame_max ?w1 ?w2" using load [of i ?w1 n frame_max] assms(1) False by simp
    have s3: "budget_step frame_max ?w2 ?w3" using fetch_add [of i ?w2 n frame_max] assms(1,4) by simp
    have run3: "(budget_step frame_max)\<^sup>*\<^sup>* w ?w3" by (rule go [OF s1 go [OF s2 go [OF s3 rtranclp.rtrancl_refl]]])
    show ?thesis
    proof (cases "?q > 0 \<and> usize_add ?q n > b_limit ?b")
      case False
      let ?w4 = "w\<lparr>bw_budget := ?b\<lparr>b_queued := usize_add ?q n\<rparr>, bw_granted := n # bw_granted w\<rparr>"
      have "budget_step frame_max ?w3 ?w4" using grant [of i ?w3 n ?q frame_max] assms(1) False idle by simp
      with run3 show ?thesis
        using False \<open>\<not> b_overflowed ?b\<close> assms(5)
        by (intro exI [of _ ?w4]) (auto simp: reserve_def Let_def intro: rtranclp.rtrancl_into_rtrancl)
    next
      case True
      let ?b4 = "budget_release n (?b\<lparr>b_queued := usize_add ?q n\<rparr>)"
      let ?w4 = "w\<lparr>bw_pcs := (bw_pcs w)[i := RSwap], bw_budget := ?b4\<rparr>"
        and ?w5 = "w\<lparr>bw_budget := ?b4\<lparr>b_overflowed := True\<rparr>, bw_closes := bw_closes w + 1\<rparr>"
      have "budget_step frame_max ?w3 ?w4" using undo [of i ?w3 n ?q frame_max] assms(1) True by simp
      moreover have "budget_step frame_max ?w4 ?w5"
        using swap [of i ?w4 frame_max] assms(1) idle \<open>\<not> b_overflowed ?b\<close> by (simp add: budget_release_def)
      ultimately have "(budget_step frame_max)\<^sup>*\<^sup>* w ?w5" using run3 by (meson rtranclp.rtrancl_into_rtrancl)
      then show ?thesis
        using True \<open>\<not> b_overflowed ?b\<close> assms(5)
        by (intro exI [of _ ?w5]) (auto simp: reserve_def Let_def conn_release_def budget_release_def conn_close_def)
    qed
  qed
qed

theorem slots_capped_witness:
  "\<exists>w. slot_step\<^sup>*\<^sup>* (slot_start limits_default) w \<and> sw_held w = 1 \<and> st_connections (sw_stats w) = 1"
proof -
  let ?w0 = "slot_start limits_default"
  let ?w1 = "?w0\<lparr>sw_pc := AcqAdded 0, sw_stats := stats_default\<lparr>st_connections := 1\<rparr>\<rparr>"
  let ?w2 = "?w1\<lparr>sw_pc := AcqIdle, sw_held := 1\<rparr>"
  have "slot_step ?w0 ?w1" using acq_add [of ?w0] by (simp add: slot_start_def stats_default_def)
  moreover have "slot_step ?w1 ?w2"
    using acq_take [of ?w1 0] by (simp add: slot_start_def limits_default_def)
  ultimately have run: "slot_step\<^sup>*\<^sup>* ?w0 ?w2" by (meson rtranclp.rtrancl_into_rtrancl rtranclp.rtrancl_refl)
  show ?thesis
    using run slots_capped [OF run] by (intro exI [of _ ?w2]) (simp add: limits_default_def)
qed

theorem budget_atomic_witness:
  "\<exists>w. (budget_step 5)\<^sup>*\<^sup>* (budget_start 4 2) w \<and> bw_granted w = [5] \<and> bw_pcs w ! 1 = RAdd 3
     \<and> sum_list (bw_granted w) \<le> 5"
proof -
  define st where "st pcs q granted = \<lparr>bw_budget = \<lparr>b_queued = q, b_limit = 4, b_overflowed = False\<rparr>,
    bw_pcs = pcs, bw_granted = granted, bw_closes = 0\<rparr>" for pcs q granted
  have s0: "budget_start 4 2 = st [RIdle, RIdle] 0 []" by (simp add: st_def budget_start_def budget_new_def numeral_eq_Suc)
  have s1: "budget_step 5 (st [RIdle, RIdle] 0 []) (st [RLoad 5, RIdle] 0 [])"
    using call [of 0 "st [RIdle, RIdle] 0 []" 5 5] by (simp add: st_def)
  have s2: "budget_step 5 (st [RLoad 5, RIdle] 0 []) (st [RLoad 5, RLoad 3] 0 [])"
    using call [of 1 "st [RLoad 5, RIdle] 0 []" 3 5] by (simp add: st_def)
  have s3: "budget_step 5 (st [RLoad 5, RLoad 3] 0 []) (st [RLoad 5, RAdd 3] 0 [])"
    using load [of 1 "st [RLoad 5, RLoad 3] 0 []" 3 5] by (simp add: st_def)
  have s4: "budget_step 5 (st [RLoad 5, RAdd 3] 0 []) (st [RAdd 5, RAdd 3] 0 [])"
    using load [of 0 "st [RLoad 5, RAdd 3] 0 []" 5 5] by (simp add: st_def)
  have s5: "budget_step 5 (st [RAdd 5, RAdd 3] 0 []) (st [RAdded 5 0, RAdd 3] 5 [])"
    using fetch_add [of 0 "st [RAdd 5, RAdd 3] 0 []" 5 5] by (simp add: st_def usize_add_def)
  have s6: "budget_step 5 (st [RAdded 5 0, RAdd 3] 5 []) (st [RIdle, RAdd 3] 5 [5])"
    using grant [of 0 "st [RAdded 5 0, RAdd 3] 5 []" 5 0 5] by (simp add: st_def)
  have run: "(budget_step 5)\<^sup>*\<^sup>* (budget_start 4 2) (st [RIdle, RAdd 3] 5 [5])"
    unfolding s0 using s1 s2 s3 s4 s5 s6 by (blast intro: converse_rtranclp_into_rtranclp)
  show ?thesis using run budget_atomic [OF run] by (intro exI [of _ "st [RIdle, RAdd 3] 5 [5]"]) (simp add: st_def)
qed

end
