(* ===== verification/Entering.thy ===== *)
theory Entering
  imports Server Probe
begin

text \<open>
  A probe enters a room, across the whole system: the calls of \<open>room\<close> in \<open>src/src/bin/kt-probe.rs\<close>, the session stream
  of \<open>src/src/client.rs\<close>, the read loop of \<open>src/src/server.rs\<close>, the rooms, and the queues of the other members.
\<close>

section \<open>The server's side\<close>

text \<open>The two frames of a client that enters: SUBSCRIBE with room and a token, then ANNOUNCE with a token.\<close>

lemma subscribe_enters:
  assumes r: "ready P k se s" and t: "wf_topic t" "\<not> is_zero t" "t \<notin> set (se_subscribed se)"
    and cap: "length (se_subscribed se) < max_topics_per_connection (f_limits s)"
      "card (dom (presence (f_rooms s) t)) < r_max_members (f_rooms s)"
    and tok: "fst (try_take (f_clock s (f_ticks s)) 0 (se_join se))"
    and hf: "handle_frame (Subscribe t) n se s = (se', s')"
  shows "se_subscribed se' = se_subscribed se @ [t] \<and> se_readers se' = se_readers se
    \<and> f_clock s' = f_clock s \<and> f_ticks s' = Suc (f_ticks s)
    \<and> presence (f_rooms s') = (presence (f_rooms s))(t := (presence (f_rooms s) t)(P k \<mapsto> (k, [])))"
    and "presence (f_rooms s) t i = Some (k', b) \<Longrightarrow> i \<noteq> P k
      \<Longrightarrow> n_conns (f_net s') k' = push_frame (server_encode (Joined t (P k))) (n_conns (f_net s) k')"
proof -
  let ?h = "rd_handle (se_readers se)"
  have h: "?h = \<lparr>h_peer = P k, h_conn = k\<rparr>" by (rule ready_handle [OF r])
  have rok: "rooms_ok P (f_rooms s)" using ready_sfu [OF r] by (simp add: sfu_ok_def)
  have full: "\<not> is_full (f_rooms s) t (h_peer ?h)" using cap(2) is_full_presence [OF rok] by simp
  have Pk: "P (h_conn ?h) = h_peer ?h" by (simp add: h)
  obtain res rs nt where j: "join t ?h (f_rooms s) (f_net s) = (res, rs, nt)" by (metis prod_cases3)
  obtain bk where tk: "try_take (f_clock s (f_ticks s)) 0 (se_join se) = (True, bk)" using tok by (metis prod.collapse)
  note e = join_enters_presence [OF rok full Pk j]
  have "se' = se\<lparr>se_join := bk, se_subscribed := se_subscribed se @ [t]\<rparr>"
      "s' = s\<lparr>f_ticks := Suc (f_ticks s), f_rooms := rs, f_net := nt\<rparr>"
    using hf t cap(1) tk j e by (auto simp: handle_frame_def Let_def instant_now_def set_insert_def)
  note new = this
  then show "se_subscribed se' = se_subscribed se @ [t] \<and> se_readers se' = se_readers se
    \<and> f_clock s' = f_clock s \<and> f_ticks s' = Suc (f_ticks s)
    \<and> presence (f_rooms s') = (presence (f_rooms s))(t := (presence (f_rooms s) t)(P k \<mapsto> (k, [])))"
    using e h by simp
  show "n_conns (f_net s') k' = push_frame (server_encode (Joined t (P k))) (n_conns (f_net s) k')"
    if "presence (f_rooms s) t i = Some (k', b)" "i \<noteq> P k"
  proof -
    have "k' \<noteq> k" using presence_owner [OF rok that(1)] that(2) by auto
    then show ?thesis using join_told [OF rok full Pk j that(1)] that(2) new h by simp
  qed
qed

lemma announce_enters:
  assumes r: "ready P k se s" and t: "t \<in> set (se_subscribed se)" "presence (f_rooms s) t (P k) = Some (k, b0)"
    and blob: "length blob \<le> MAX_ANNOUNCE_LEN" and tok: "fst (try_take (f_clock s (f_ticks s)) n (rd_rate (se_readers se)))"
    and hf: "handle_frame (Announce t blob) n se s = (se', s')"
  shows "se_subscribed se' = se_subscribed se
    \<and> presence (f_rooms s') = (presence (f_rooms s))(t := (presence (f_rooms s) t)(P k \<mapsto> (k, blob)))"
    and "presence (f_rooms s) t i = Some (k', b) \<Longrightarrow> i \<noteq> P k
      \<Longrightarrow> n_conns (f_net s') k' = push_frame (server_encode (Presence t (P k) blob)) (n_conns (f_net s) k')"
proof -
  let ?h = "rd_handle (se_readers se)"
  have h: "?h = \<lparr>h_peer = P k, h_conn = k\<rparr>" by (rule ready_handle [OF r])
  have rok: "rooms_ok P (f_rooms s)" using ready_sfu [OF r] by (simp add: sfu_ok_def)
  have m: "is_member t ?h (f_rooms s)" using t(2) by (simp add: is_member_presence h)
  obtain res rs nt where a: "announce t ?h blob (f_rooms s) (f_net s) = (res, rs, nt)" by (metis prod_cases3)
  obtain bk where tk: "try_take (f_clock s (f_ticks s)) n (rd_rate (se_readers se)) = (True, bk)"
    using tok by (metis prod.collapse)
  have new: "se' = se\<lparr>se_readers := (se_readers se)\<lparr>rd_rate := bk\<rparr>\<rparr>"
      "s' = s\<lparr>f_ticks := Suc (f_ticks s), f_rooms := rs, f_net := nt\<rparr>"
    using hf t(1) blob tk a by (auto simp: handle_frame_def Let_def take_publish_def instant_now_def)
  show "se_subscribed se' = se_subscribed se
    \<and> presence (f_rooms s') = (presence (f_rooms s))(t := (presence (f_rooms s) t)(P k \<mapsto> (k, blob)))"
    using announce_refines [OF rok blob a] t(2) new h by (simp add: spec_announce_def)
  show "n_conns (f_net s') k' = push_frame (server_encode (Presence t (P k) blob)) (n_conns (f_net s) k')"
    if "presence (f_rooms s) t i = Some (k', b)" "i \<noteq> P k"
    using announce_told [OF rok m blob a that(1)] that(2) new h by simp
qed

section \<open>The stream between them\<close>

text \<open>Frames written to a session stream are handled one by one, in order.\<close>

lemma session_reaches_server:
  assumes "\<forall>f \<in> set fs. wf_client_frame (ev_valid_key ev) f" "stream_bytes r = concat (map client_encode fs)" "tail r = Eof"
  shows "\<exists>r'. session_read_loop ev r se s
    = (None, fold (\<lambda>f (se, s). handle_frame f (5 + length (client_body f)) se s) fs (se, s), r')"
proof -
  have "\<exists>r'. session_read_loop ev r se s
    = (None, fold (\<lambda>f (se, s). session_frame ev (client_tag f) (client_body f) se s) fs (se, s), r')"
    unfolding session_read_loop_def
    by (rule client.read_loop_whole [OF assms(1) _ assms(2,3), where I = "\<lambda>_. True"]) (auto split: prod.splits)
  moreover have "fold (\<lambda>f (se, s). session_frame ev (client_tag f) (client_body f) se s) fs x
      = fold (\<lambda>f (se, s). handle_frame f (5 + length (client_body f)) se s) fs x" for x
    using assms(1)
    by (intro fold_cong) (auto simp: session_frame_def client_decode_body)
  ultimately show ?thesis by simp
qed

lemma room_enter_stream:
  assumes "room_enter False None False None t me client_new = (res, c)"
  shows "res = Inr ()" "ss_written (cl_session c) = concat (map client_encode [Subscribe t, Announce t (probe_blob me)])"
  using assms by (auto simp: room_enter_def client_subscribe_def client_announce_def send_session_def ensure_open_def
      write_frame_def write_all_def ss_put_def client_new_def stream_new_def)

section \<open>Properties\<close>

text \<open>C11: a probe that enters a room is in it. When the two calls of \<open>room\<close> succeed, its session stream is read by the
  server, however it was segmented, as a SUBSCRIBE and an ANNOUNCE. If the topic is well formed and not zero, the
  session is fresh (no topic yet, and the topic cap is not 0), the room has a free place and the connection has a
  join token for the one and publish tokens for the other, then afterwards the connection lists the topic, the
  presence table has the probe with its blob and is otherwise unchanged, and every other member has been queued
  JOINED and then PRESENCE, from whose blob a probe reads the id of the one that entered.\<close>

theorem probe_enters_room:
  assumes enter: "room_enter False None False None t me client_new = (res, c)"
    and r: "stream_bytes r = ss_written (cl_session c)" "tail r = Eof"
    and srv: "ready P k se s" "P k = me" "wf_id (ev_valid_key ev) me" "se_subscribed se = []"
    and t: "wf_topic t" "\<not> is_zero t" "0 < max_topics_per_connection (f_limits s)"
    and room: "card (dom (presence (f_rooms s) t)) < r_max_members (f_rooms s)"
    and tokens: "fst (try_take (f_clock s (f_ticks s)) 0 (se_join se))"
      "fst (try_take (f_clock s (Suc (f_ticks s))) (5 + length (client_body (Announce t (probe_blob me)))) (rd_rate (se_readers se)))"
  shows "res = Inr () \<and> (\<exists>se' s' r'. session_read_loop ev r se s = (None, (se', s'), r') \<and> se_subscribed se' = [t]
    \<and> presence (f_rooms s') = (presence (f_rooms s))(t := (presence (f_rooms s) t)(me \<mapsto> (k, probe_blob me)))
    \<and> (\<forall>i k' b. presence (f_rooms s) t i = Some (k', b) \<and> i \<noteq> me \<longrightarrow>
        n_conns (f_net s') k' = push_frame (server_encode (Presence t me (probe_blob me)))
          (push_frame (server_encode (Joined t me)) (n_conns (f_net s) k')))
    \<and> parse_blob (ev_valid_key ev) (probe_blob me) = Some me)"
proof -
  note e = room_enter_stream [OF enter]
  have me: "length (id_bytes me) = 32" using srv(3) by (simp add: wf_id_def)
  have len: "length (probe_blob me) = 43" using me by (simp add: probe_blob_def BLOB_MAGIC_def ascii_def)
  have blob: "length (probe_blob me) \<le> MAX_ANNOUNCE_LEN" by (simp add: len MAX_ANNOUNCE_LEN_def)
  have wf: "\<forall>f \<in> set [Subscribe t, Announce t (probe_blob me)]. wf_client_frame (ev_valid_key ev) f"
    using t(1) len by (simp add: MAX_FRAME_LEN_value)
  let ?n1 = "5 + length (client_body (Subscribe t))" and ?n2 = "5 + length (client_body (Announce t (probe_blob me)))"
  obtain se1 s1 where f1: "handle_frame (Subscribe t) ?n1 se s = (se1, s1)" by fastforce
  obtain se2 s2 where f2: "handle_frame (Announce t (probe_blob me)) ?n2 se1 s1 = (se2, s2)" by fastforce
  have sub: "t \<notin> set (se_subscribed se)" "length (se_subscribed se) < max_topics_per_connection (f_limits s)"
    using srv(4) t(3) by simp_all
  note a = subscribe_enters [OF srv(1) t(1,2) sub room tokens(1) f1]
  have "?n1 \<le> 2 ^ 53" using t(1) by (simp add: wf_topic_def)
  then have "moved P k s se1 s1" using handle_frame_moved [OF srv(1) _ _ f1, of "ev_valid_key ev"] wf by simp
  then have r1: "ready P k se1 s1" by (simp add: moved_def)
  have m1: "t \<in> set (se_subscribed se1)" "presence (f_rooms s1) t (P k) = Some (k, [])" using a(1) by simp_all
  have tok: "fst (try_take (f_clock s1 (f_ticks s1)) ?n2 (rd_rate (se_readers se1)))" using tokens(2) a(1) by simp
  note b = announce_enters [OF r1 m1 blob tok f2]
  obtain r' where "session_read_loop ev r se s = (None, (se2, s2), r')"
    using session_reaches_server [OF wf _ r(2), of se s] e(2) r(1) f1 f2 by auto
  moreover have "se_subscribed se2 = [t]" using a(1) b(1) srv(4) by simp
  moreover have "presence (f_rooms s2) = (presence (f_rooms s))(t := (presence (f_rooms s) t)(me \<mapsto> (k, probe_blob me)))"
    using a(1) b(1) srv(2) by (simp add: fun_eq_iff)
  moreover have "n_conns (f_net s2) k' = push_frame (server_encode (Presence t me (probe_blob me)))
      (push_frame (server_encode (Joined t me)) (n_conns (f_net s) k'))"
    if p: "presence (f_rooms s) t i = Some (k', bb)" "i \<noteq> me" for i k' bb
  proof -
    have "presence (f_rooms s1) t i = Some (k', bb)" using a(1) p srv(2) by simp
    then show ?thesis using b(2) [of i k' bb] a(2) [OF p(1)] p(2) srv(2) by (simp del: server_encode.simps)
  qed
  moreover have "parse_blob (ev_valid_key ev) (probe_blob me) = Some me"
    using parse_probe_blob srv(3) by simp
  ultimately show ?thesis using e(1) by blast
qed

text \<open>The first client of a server is such a probe.\<close>

definition entering_stream :: reader where
  "entering_stream = \<lparr>segs = [ss_written (cl_session (snd (room_enter False None False None sample_topic (peer_of 1) client_new)))],
     tail = Eof\<rparr>"

theorem probe_enters_room_witness:
  "\<exists>v se' s' r'. server_reach sample_env start_state v
     \<and> session_read_loop sample_env entering_stream sample_session (v_sfu v) = (None, (se', s'), r')
     \<and> presence (f_rooms s') sample_topic (peer_of 1) = Some (1, probe_blob (peer_of 1))"
proof -
  obtain v where v: "server_reach sample_env start_state v" "v_live v 1 = Some sample_session"
    "f_rooms (v_sfu v) = rooms_new limits_default" "f_limits (v_sfu v) = limits_default" "f_clock (v_sfu v) = (\<lambda>_. 0)"
    using connected_run by blast
  have rd: "ready (v_peer v) 1 sample_session (v_sfu v)"
    using server_ok_ready [OF server_reach_ok [OF v(1) [unfolded start_state_def] limits_default_ok sample_env_ok]
        holder_live [OF v(2)]] .
  have P: "v_peer v 1 = peer_of 1" using ready_handle [OF rd] by (simp add: sample_session_def handle_of_def)
  obtain res c where e: "room_enter False None False None sample_topic (peer_of 1) client_new = (res, c)" by fastforce
  have st: "stream_bytes entering_stream = ss_written (cl_session c)" "tail entering_stream = Eof"
    using e by (simp_all add: entering_stream_def stream_bytes_def)
  have t: "wf_id (ev_valid_key sample_env) (peer_of 1)" "se_subscribed sample_session = []" "wf_topic sample_topic"
      "\<not> is_zero sample_topic" "0 < max_topics_per_connection (f_limits (v_sfu v))"
    by (simp_all add: wf_id_def peer_of_def sample_env_def sample_session_def wf_topic_def sample_topic_def is_zero_def
        ZERO_def v(4) limits_default_def MAX_TOPICS_PER_CONNECTION_def)
  have room: "card (dom (presence (f_rooms (v_sfu v)) sample_topic)) < r_max_members (f_rooms (v_sfu v))"
    by (simp add: v(3) presence_new) (simp add: rooms_new_def)
  have tokens: "fst (try_take (f_clock (v_sfu v) (f_ticks (v_sfu v))) 0 (se_join sample_session))"
      "fst (try_take (f_clock (v_sfu v) (Suc (f_ticks (v_sfu v)))) n (rd_rate (se_readers sample_session)))" for n
    using join_token sample_tokens by (simp_all add: v(5) sample_session_def)
  from probe_enters_room [OF e st rd P t room tokens]
  obtain se' s' r' where "session_read_loop sample_env entering_stream sample_session (v_sfu v) = (None, (se', s'), r')"
      "presence (f_rooms s') sample_topic (peer_of 1) = Some (1, probe_blob (peer_of 1))"
    by (metis fun_upd_same)
  then show ?thesis using v(1) by blast
qed

end
