(* ===== verification/Draining.thy ===== *)
theory Draining
  imports Server
begin

text \<open>
  What is left when the clients are gone. Once \<open>Sfu::shutdown\<close> has closed the endpoint, or every client has hung up,
  the only steps left to a connection of \<open>src/src/server.rs\<close> are those at its end: its read loop returns, it
  leaves its topics one by one, and its record is dropped. Connections do this in any order and interleaved.
\<close>

section \<open>The steps at the end of a connection\<close>

inductive drain_step :: "server \<Rightarrow> server \<Rightarrow> bool" where
  ended: "v_live v k = Some se
    \<Longrightarrow> drain_step v (v\<lparr>v_live := (v_live v)(k := None), v_dgs := (v_dgs v)(k := None),
          v_closing := (v_closing v)(k \<mapsto> (result, se))\<rparr>)"
| leaving: "v_closing v k = Some (result, se) \<Longrightarrow> se_subscribed se = t # ts
    \<Longrightarrow> leave t (rd_handle (se_readers se)) (f_rooms (v_sfu v)) (f_net (v_sfu v)) = (res, rs, n)
    \<Longrightarrow> drain_step v (v\<lparr>v_sfu := (v_sfu v)\<lparr>f_rooms := rs, f_net := n\<rparr>,
          v_closing := (v_closing v)(k \<mapsto> (result, se\<lparr>se_subscribed := ts\<rparr>))\<rparr>)"
| gone: "v_closing v k = Some (result, se) \<Longrightarrow> se_subscribed se = []
    \<Longrightarrow> drain_step v (v\<lparr>v_sfu := end_connection result se (v_sfu v), v_closing := (v_closing v)(k := None)\<rparr>)"

abbreviation drains :: "server \<Rightarrow> server \<Rightarrow> bool" where
  "drains \<equiv> drain_step\<^sup>*\<^sup>*"

abbreviation drained :: "server \<Rightarrow> bool" where
  "drained v \<equiv> (\<nexists>v'. drain_step v v')"

lemma drain_is_step: "drain_step v v' \<Longrightarrow> server_step ev v v'"
  by (induction rule: drain_step.induct) (auto intro: server_step.ended server_step.leaving server_step.gone)

section \<open>Draining ends\<close>

text \<open>What a connection still has to do: end, leave its topics, go.\<close>

definition left_to_do :: "server \<Rightarrow> u64 \<Rightarrow> nat" where
  "left_to_do v k =
     (case v_live v k of Some se \<Rightarrow> 2 + length (se_subscribed se)
      | None \<Rightarrow> (case v_closing v k of Some (_, se) \<Rightarrow> 1 + length (se_subscribed se) | None \<Rightarrow> 0))"

definition drain_measure :: "server \<Rightarrow> nat" where
  "drain_measure v = (\<Sum>k \<in> UNIV. left_to_do v k)"

lemma drain_measure_less:
  assumes "left_to_do v' k < left_to_do v k" "\<And>j. j \<noteq> k \<Longrightarrow> left_to_do v' j = left_to_do v j"
  shows "drain_measure v' < drain_measure v"
  unfolding drain_measure_def
proof (rule sum_strict_mono_ex1)
  show "\<forall>j \<in> UNIV. left_to_do v' j \<le> left_to_do v j"
  proof
    fix j show "left_to_do v' j \<le> left_to_do v j" using assms by (cases "j = k") simp_all
  qed
qed (use assms(1) in auto)

lemma drain_step_decreases:
  assumes "drain_step v v'" "server_ok v"
  shows "drain_measure v' < drain_measure v"
  using assms(1)
proof cases
  case (ended k se result)
  then show ?thesis by (intro drain_measure_less [where k = k]) (auto simp: left_to_do_def split: option.splits)
next
  case (leaving k result se t ts res rs n)
  have "v_live v k = None" using server_ok_one [OF assms(2), of k] leaving(2) by simp
  then show ?thesis using leaving by (intro drain_measure_less [where k = k]) (auto simp: left_to_do_def split: option.splits)
next
  case (gone k result se)
  have "v_live v k = None" using server_ok_one [OF assms(2), of k] gone(2) by simp
  then show ?thesis using gone by (intro drain_measure_less [where k = k]) (auto simp: left_to_do_def split: option.splits)
qed

text \<open>A connection that is still there has a step to take.\<close>

lemma drained_none:
  assumes "drained v"
  shows "holder v k = None"
proof -
  have "v_live v k = None" using assms drain_step.ended [of v k] by (cases "v_live v k") blast+
  moreover have "v_closing v k = None"
  proof (rule ccontr)
    assume "v_closing v k \<noteq> None"
    then obtain result se where c: "v_closing v k = Some (result, se)" by auto
    show False
    proof (cases "se_subscribed se")
      case Nil
      then show ?thesis using assms drain_step.gone [OF c] by blast
    next
      case (Cons t ts)
      obtain res rs n where "leave t (rd_handle (se_readers se)) (f_rooms (v_sfu v)) (f_net (v_sfu v)) = (res, rs, n)"
        by (metis prod_cases3)
      then show ?thesis using assms drain_step.leaving [OF c Cons] by blast
    qed
  qed
  ultimately show ?thesis by (simp add: holder_def hold_def)
qed

lemma drained_empty:
  assumes "server_ok v" "drained v"
  shows "presence (f_rooms (v_sfu v)) t i = None"
proof (cases "presence (f_rooms (v_sfu v)) t i")
  case (Some e)
  then have "t \<in> owned_in (f_rooms (v_sfu v)) (fst e)" by (cases e) (auto simp: owned_in_def)
  moreover have "owned_in (f_rooms (v_sfu v)) (fst e) = {}"
    using assms(1) drained_none [OF assms(2)] by (simp add: server_ok_def)
  ultimately show ?thesis by blast
qed

lemma drain_exists:
  assumes "server_ok v"
  shows "\<exists>v'. drains v v' \<and> drained v'"
  using assms
proof (induction "drain_measure v" arbitrary: v rule: less_induct)
  case less
  show ?case
  proof (cases "drained v")
    case False
    then obtain u where u: "drain_step v u" by blast
    define ev :: env where "ev = \<lparr>ev_valid_key = \<lambda>_. True, ev_key_error = [], ev_sendable = \<lambda>_ _. True\<rparr>"
    have "server_ok u" using server_step_ok [OF drain_is_step [OF u] less.prems, of ev] by (simp add: ev_def env_ok_def)
    from less.hyps [OF drain_step_decreases [OF u less.prems] this] u
    show ?thesis by (meson converse_rtranclp_into_rtranclp)
  qed auto
qed

lemma drains_ok: "drains v v' \<Longrightarrow> server_ok v \<Longrightarrow> env_ok ev \<Longrightarrow> server_ok v'"
  by (induction rule: rtranclp_induct) (blast intro: server_step_ok drain_is_step)+

lemma no_endless_drain:
  assumes "server_ok (f 0)" "env_ok ev" "\<And>i. drain_step (f i) (f (Suc i))"
  shows False
proof -
  have ok: "server_ok (f i)" for i
    using assms by (induction i) (blast intro: server_step_ok drain_is_step)+
  have "drain_measure (f i) + i \<le> drain_measure (f 0)" for i
  proof (induction i)
    case (Suc i)
    then show ?case using drain_step_decreases [OF assms(3) ok, of i] by simp
  qed simp
  from this [of "Suc (drain_measure (f 0))"] show False by simp
qed

section \<open>Properties\<close>

text \<open>C4: when its clients are gone, nothing is left of them. From every reachable state, whatever connections are open
  and in whatever order their ends interleave: the ends of connections come to an end (there is no endless run
  of them, and one that cannot go on exists); and when none can go on, no session is left and no room has a
  member, so \<open>occupancy\<close> is zero.\<close>

theorem server_drains:
  assumes "server_reach ev (server_new l clock peers) v" "limits_ok l" "env_ok ev"
  shows "(\<exists>v'. drains v v' \<and> drained v')
    \<and> (\<forall>v'. drains v v' \<and> drained v' \<longrightarrow> (\<forall>k. holder v' k = None) \<and> occupancy (f_rooms (v_sfu v')) = (0, 0))
    \<and> (\<nexists>f. f 0 = v \<and> (\<forall>i. drain_step (f i) (f (Suc i))))"
proof (intro conjI allI impI)
  have ok: "server_ok v" using server_reach_ok [OF assms] .
  show "\<exists>v'. drains v v' \<and> drained v'" using drain_exists [OF ok] .
  show "\<nexists>f. f 0 = v \<and> (\<forall>i. drain_step (f i) (f (Suc i)))" using no_endless_drain [OF _ assms(3)] ok by blast
  fix v' assume d: "drains v v' \<and> drained v'"
  then show "holder v' k = None" for k using drained_none by blast
  have ok': "server_ok v'" using drains_ok [OF _ ok assms(3)] d by blast
  have "presence (f_rooms (v_sfu v')) t = Map.empty" for t using drained_empty [OF ok'] d by blast
  moreover have "rooms_ok (v_peer v') (f_rooms (v_sfu v'))" using server_ok_sfu [OF ok'] by (simp add: sfu_ok_def)
  ultimately show "occupancy (f_rooms (v_sfu v')) = (0, 0)" by (simp add: occupancy_counts)
qed

theorem server_drains_witness:
  "\<exists>v v'. server_reach sample_env start_state v \<and> presence (f_rooms (v_sfu v)) sample_topic (peer_of 1) = Some (1, [])
     \<and> drains v v' \<and> occupancy (f_rooms (v_sfu v')) = (0, 0)"
proof -
  obtain v where v: "server_reach sample_env start_state v"
    "presence (f_rooms (v_sfu v)) sample_topic (peer_of 1) = Some (1, [])" using subscribed_run by blast
  from server_drains [OF v(1) [unfolded start_state_def] limits_default_ok sample_env_ok] v
  show ?thesis by blast
qed

end
