(* ===== verification/Spec2Isabelle.thy ===== *)
theory Spec2Isabelle
  imports SFU_Prelude Utf8 Wire Framing Snapshots F64 Bucket Config BulkQueue Outbound Rooms Session Server
    Writers Client Typing Info Probe KeyFile Tls Launch Atomics Entering Draining
begin

text \<open>
  KeepTalkingSFU: a verification library.

  The program is a forwarding service for topic rooms. Clients connect over QUIC (iroh), subscribe to
  topics, announce a presence blob and publish payloads on three prioritised lanes or as datagrams; the
  server keeps one room per topic and fans out what its members publish. One library crate
  (\<open>src/src\<close>: \<open>proto\<close>, \<open>server\<close>, \<open>client\<close>, \<open>info\<close>, \<open>tls\<close>) and two binaries (\<open>src/src/bin\<close>: \<open>kt-sfu\<close>,
  \<open>kt-probe\<close>) make it up. This library models them part by part, under the names of the source, and proves
  what makes each part and their composition correct.

  \<^bold>\<open>Parts and theories.\<close>

  \<^item> \<open>SFU_Prelude\<close>: bytes, big-endian integers, wrapping \<open>usize\<close> arithmetic, hash maps as association
    lists, and the collections \<open>wire_simps\<close> and \<open>hash_simps\<close>. \<open>Utf8\<close>: what the sources use of \<open>str\<close>.
    \<open>F64\<close>: IEEE binary64 with rounding to nearest, ties to even; the locale \<open>rounding\<close> holds the laws the
    buckets need and is interpreted on \<open>round64\<close>.
  \<^item> \<open>Wire\<close>, \<open>Framing\<close>, \<open>Snapshots\<close> (\<open>proto.rs\<close>): frames and their encoders and decoders; reading frames off
    a stream that arrives in arbitrary segments and may end or fail anywhere; cutting a room into SNAPSHOT
    frames. The locale \<open>frame_codec\<close> is what a codec promises to the reader; it is interpreted for client
    and server frames and gives the round trips and what a cut stream yields.
  \<^item> \<open>Bucket\<close>, \<open>Config\<close> (\<open>server.rs\<close>): token buckets, \<open>Limits\<close>, \<open>Stats\<close>.
  \<^item> \<open>BulkQueue\<close>, \<open>Outbound\<close> (\<open>server.rs\<close>): the queues towards one client, \<open>MemberHandle\<close> and its budget. The
    locale \<open>conn_effect\<close> is a fan-out that touches each connection once; it is interpreted for frames and
    for deliveries.
  \<^item> \<open>Rooms\<close> (\<open>server.rs\<close>): the sharded room table and its methods, each atomic because it holds the shard's
    lock. The locale \<open>topic_store\<close> is what the methods need of the shards. The abstract specification is a
    table from topics and endpoints to a connection and a blob; \<open>rooms_refine\<close> is the refinement.
  \<^item> \<open>Session\<close> (\<open>server.rs\<close>): \<open>ConnectionSlot\<close>, \<open>Readers\<close>, \<open>Session\<close>, the lane readers, datagrams,
    \<open>serve_connection\<close>. \<open>Server\<close>: all connections at once, as the relation \<open>server_step\<close> between states; its
    invariant \<open>server_ok\<close> is kept by every step. \<open>Typing\<close>: a second invariant, that whatever is queued for a
    client stands for a well-formed server frame.
  \<^item> \<open>Writers\<close> (\<open>server.rs\<close>): \<open>write_chunks\<close>, the session and lane writers, the bulk dispatcher, as runs
    interleaved with everything that moves their queues.
  \<^item> \<open>Atomics\<close> (\<open>server.rs\<close>): \<open>reserve\<close> and \<open>ConnectionSlot\<close> one atomic operation at a time.
    \<open>reserve_uninterrupted\<close> connects it with the single-step \<open>reserve\<close> of \<open>Outbound\<close>.
  \<^item> \<open>Client\<close> (\<open>client.rs\<close>): binding and connecting, the sending operations and the two pumps behind the inbox.
  \<^item> \<open>Info\<close> (\<open>info.rs\<close>): the JSON document, its parser, the HTTP server and client.
  \<^item> \<open>Tls\<close> (\<open>tls.rs\<close>): certificates and trust anchors over the TLS libraries. \<open>KeyFile\<close>, \<open>Launch\<close> (\<open>kt-sfu.rs\<close>,
    \<open>Sfu::spawn\<close>): the key file, the arguments and the configurations built from them, the start-up with all its
    errors, the reporting task, the stop.
  \<^item> \<open>Probe\<close> (\<open>kt-probe.rs\<close>): the mesh, who dials whom, pings, pongs and bulk probes.
  \<^item> \<open>Draining\<close>: how the connections of a running server end and what they leave behind. \<open>Entering\<close>: a probe that
    enters a room, from its calls to the queues of the other members. This theory: the other properties that
    span components.

  \<^bold>\<open>How the code is represented.\<close> A struct is a record, an enum a datatype; counters are words or \<open>usize\<close>
  values that wrap at \<open>2 ^ 64\<close>; a fallible function returns a sum or an option with one constructor per error
  of the source. State is passed explicitly. A method that holds a lock is one step; tasks are step relations
  or lists of events, and a theorem about a run holds for each interleaving of those steps. A handler that takes
  several locks in turn is one definition, as in the code, and \<open>server_step\<close> has its sections as steps of their
  own too, so that other tasks can run between them. What works without a lock, \<open>reserve\<close> and \<open>ConnectionSlot\<close>,
  is one step there and in \<open>Outbound\<close>; its interleaving at the level of single atomic operations is the subject
  of \<open>Atomics\<close> alone. Times are arguments
  (nanoseconds, or a clock the state carries). What is outside the repository is an argument: whether 32
  bytes are a valid endpoint id, what a QUIC stream accepts of a write, how a TCP stream is segmented, the
  digest and key functions, the relay server and the endpoint (the record \<open>world\<close> of \<open>Launch\<close>), the TLS libraries (the
  record \<open>tls_lib\<close> of \<open>Tls\<close>).

  \<^bold>\<open>What is shown.\<close> Composition: what a client publishes is read and handled by the server, in order on the
  control and interactive lanes (\<open>client_publish_reaches_server\<close>), is queued for every other member (\<open>publish_end_to_end\<close>,
  \<open>publish_fanout\<close>), written to its streams and taken out of its inbox in order (\<open>session_end_to_end\<close>,
  \<open>lane_end_to_end\<close>, \<open>bulk_end_to_end\<close>); what a started server advertises is where it is
  (\<open>launch_info_reaches_probe\<close>) and trusted with the certificate it wrote (\<open>dev_certificate_trusted\<close>); a probe
  that enters a room is in it and the others are told (\<open>probe_enters_room\<close>); when the clients are gone their
  ends come to an end and the rooms are empty (\<open>server_drains\<close>). Invariants of every reachable state: no member outlives its connection, all
  caps hold, all queues are accounted for and within budget, also at the level of single atomic operations,
  and everything queued is well formed (\<open>server_speaks_protocol\<close>), which is what the client's side assumes.
  Round trips of both frame types and of the info document; equality of the incremental frame reader with a
  function of the bytes; bounds on buffers, bursts, streams and slots; refusals with their error frames;
  recovery of the buckets; termination of the chunking loop; uniqueness of the key whatever instances do;
  safety of the probe's dialling and publishing.

  \<^bold>\<open>Bounds and fuel.\<close> No definition uses fuel: loops over a stream recurse on a measure (bytes missing, bytes
  unread, members left), loops of tasks are step relations or lists of events of any length. Hypotheses that
  bound numbers say that counters do not wrap: \<open>limits_ok\<close> (budgets below \<open>2 ^ 63\<close>, which the defaults
  satisfy), fewer than \<open>2 ^ 64\<close> connections in the life of a server, and an error text of the key library
  below \<open>2 ^ 32\<close> bytes (\<open>env_ok\<close>; UTF-8 and at most 1000 bytes for it to fit into an ERROR: \<open>env_typed\<close>).

  \<^bold>\<open>Not modelled.\<close> Logging and printing. The libraries themselves: QUIC and iroh's endpoint and relay, rustls and
  rcgen, the parser of the command line, tokio's scheduler. Deadlines appear as outcomes (a read or a write that
  fails), not as time that passes. The unit tests in the sources.
\<close>

section \<open>From a client's call to the server's handler\<close>

text \<open>A decoded frame of a lane, as the server's reader handles it.\<close>

definition lane_handle :: "lane \<Rightarrow> client_frame \<Rightarrow> (readers \<times> sfu) option \<Rightarrow> (readers \<times> sfu) option" where
  "lane_handle lane f st =
     (case st of None \<Rightarrow> None
      | Some (rd, s) \<Rightarrow> readers_publish lane f (topic_bytes (frame_topic f)) (5 + length (client_body f)) rd s)"

lemma lane_handle_Some: "is_lane_frame f \<Longrightarrow> st \<noteq> None \<Longrightarrow> lane_handle lane f st \<noteq> None"
  using readers_publish_lane by (auto simp: lane_handle_def)

lemma decode_lane_frame_wf:
  assumes "wf_client_frame (ev_valid_key ev) f" "is_lane_frame f"
  shows "decode_lane_frame ev (client_tag f) (client_body f) = Inr (f, topic_bytes (frame_topic f))"
  using client_decode_body [OF assms(1)] assms
  by (cases f) (simp_all add: decode_lane_frame_def Let_def ensure_def wf_topic_def)

lemma lane_frame_handle:
  assumes "wf_client_frame (ev_valid_key ev) f" "is_lane_frame f"
  shows "lane_frame ev lane (client_tag f) (client_body f) rd s = lane_handle lane f (Some (rd, s))"
    and "bulk_frame ev (client_tag f) (client_body f) rd s = (None, lane_handle Bulk f (Some (rd, s)))"
  by (simp_all add: lane_frame_def bulk_frame_def decode_lane_frame_wf [OF assms] lane_handle_def)

text \<open>A long-lived lane: one stream, its frames in order.\<close>

lemma lane_stream_handled:
  assumes "lane \<noteq> Bulk" "\<forall>f \<in> set fs. wf_client_frame (ev_valid_key ev) f \<and> is_lane_frame f"
    and "stream_bytes r = lane_byte lane # concat (map client_encode fs)" "tail r = Eof"
  shows "read_lane ev r rd s = (None, None, fold (lane_handle lane) fs (Some (rd, s)))"
proof -
  let ?handle = "\<lambda>tag body st. case st of None \<Rightarrow> (False, None)
      | Some (rd, s) \<Rightarrow> let st1 = lane_frame ev lane tag body rd s in (st1 \<noteq> None, st1)"
  let ?lane = "\<lambda>f st. case st of None \<Rightarrow> None | Some (rd, s) \<Rightarrow> lane_frame ev lane (client_tag f) (client_body f) rd s"
  from read_lane_byte_Cons [OF assms(3)] obtain r1 where r1: "read_lane_byte r = (Inr (Some (lane_byte lane)), r1)"
      "stream_bytes r1 = concat (map client_encode fs)" "tail r1 = Eof" using assms(4) by metis
  have step: "?handle (client_tag f) (client_body f) st = (True, ?lane f st) \<and> ?lane f st \<noteq> None" if "st \<noteq> None" for f st
    using that lane_frame_no_panic by (auto simp: Let_def)
  have wf: "\<forall>f \<in> set fs. wf_client_frame (ev_valid_key ev) f" using assms(2) by blast
  obtain r' where "read_loop ?handle r1 (Some (rd, s)) = (None, fold ?lane fs (Some (rd, s)), r')"
    using client.read_loop_whole [of fs "ev_valid_key ev" "\<lambda>st. st \<noteq> None" ?handle ?lane r1 "Some (rd, s)",
        OF wf step r1(2,3)] by blast
  moreover have "fold ?lane fs st = fold (lane_handle lane) fs st" for st
  proof (intro fold_cong refl ext)
    show "?lane f st = lane_handle lane f st" if "f \<in> set fs" for f st
      using lane_frame_handle(1) [of ev f lane] that assms(2) by (cases st) (auto simp: lane_handle_def)
  qed
  ultimately show ?thesis using r1(1) assms(1) by (simp add: read_lane_def del: not_None_eq)
qed

text \<open>A bulk stream: one frame, then its end.\<close>

lemma bulk_stream_handled:
  assumes "wf_client_frame (ev_valid_key ev) f" "is_lane_frame f"
    and "stream_bytes r = lane_byte Bulk # client_encode f" "tail r = Eof"
  shows "read_lane ev r rd s = (None, None, lane_handle Bulk f (Some (rd, s)))"
proof -
  from read_lane_byte_Cons [OF assms(3)] obtain r1 where r1: "read_lane_byte r = (Inr (Some (lane_byte Bulk)), r1)"
      "stream_bytes r1 = client_encode f @ []" "tail r1 = Eof" using assms(4) by auto
  from client.read_frame_enc [OF assms(1) r1(2)] obtain r2 where r2: "read_frame r1 = (Inr (Some (client_tag f, client_body f)), r2)"
      "stream_bytes r2 = []" by blast
  have "fst (read_some 1 r2) \<noteq> Some (x # xs)" for x xs
    using read_some_Some(1) [of 1 r2 "x # xs"] r2(2) by (metis Nil_is_append_conv list.distinct(1) prod.collapse)
  moreover obtain rd1 s1 where "lane_handle Bulk f (Some (rd, s)) = Some (rd1, s1)"
    using lane_handle_Some [OF assms(2), of "Some (rd, s)" Bulk] by auto
  ultimately show ?thesis
    using r1(1) r2(1) lane_frame_handle(2) [OF assms(1,2), of rd s]
    by (simp add: read_lane_def read_bulk_def lane_from_byte_def split: option.split list.split)
qed

text \<open>A bulk publish opens a stream of its own, with its frame alone.\<close>

lemma send_frames_bulk:
  "map ss_written (cl_bulk (send_frames Bulk fs c)) = map ss_written (cl_bulk c) @ map (\<lambda>f. lane_byte Bulk # client_encode f) fs"
proof (induction fs arbitrary: c)
  case (Cons f fs)
  have "map ss_written (cl_bulk (snd (send_lane False True None Bulk f c)))
      = map ss_written (cl_bulk c) @ [lane_byte Bulk # client_encode f]"
    by (simp add: send_lane_def ensure_open_def write_all_def ss_put_def ss_finish_def stream_new_def lane_prefix_byte)
  with Cons show ?case by (simp add: send_frames_def)
qed (simp add: send_frames_def)

text \<open>C10: publishing, from the client's calls to the server's handler. A client makes successful calls that publish
  well-formed PUBLISH and PUBLISH_TO frames on one lane. On the control and interactive lanes they are all on one
  stream, and the server's \<open>read_lane\<close> publishes them one by one in the order of the calls. On the bulk lane each has
  a stream of its own, there are as many streams as calls, and \<open>read_lane\<close> publishes the one frame of a stream; no
  order is claimed between them. Either way it does not matter how the streams were segmented.\<close>

theorem client_publish_reaches_server:
  assumes "\<forall>f \<in> set fs. wf_client_frame (ev_valid_key ev) f \<and> is_lane_frame f" "tail r = Eof"
  shows "(lane \<noteq> Bulk \<and> fs \<noteq> [] \<longrightarrow>
      (\<exists>send. cl_lanes (send_frames lane fs client_new) ! lane_index lane = Some send
        \<and> (stream_bytes r = ss_written send
          \<longrightarrow> read_lane ev r rd s = (None, None, fold (lane_handle lane) fs (Some (rd, s))))))
    \<and> length (cl_bulk (send_frames Bulk fs client_new)) = length fs
    \<and> (i < length fs \<and> stream_bytes r = ss_written (cl_bulk (send_frames Bulk fs client_new) ! i)
      \<longrightarrow> read_lane ev r rd s = (None, None, lane_handle Bulk (fs ! i) (Some (rd, s))))"
proof (intro conjI impI)
  assume l: "lane \<noteq> Bulk \<and> fs \<noteq> []"
  have c: "length (cl_lanes client_new) = 2" "cl_lanes client_new ! lane_index lane = None"
    using l by (cases lane; simp add: client_new_def)+
  with send_frames_stream [OF _ c(1), of lane fs] l
  obtain send where "cl_lanes (send_frames lane fs client_new) ! lane_index lane = Some send"
    "ss_written send = lane_byte lane # concat (map client_encode fs)" by force
  with lane_stream_handled [OF _ assms(1) _ assms(2)] l
  show "\<exists>send. cl_lanes (send_frames lane fs client_new) ! lane_index lane = Some send
      \<and> (stream_bytes r = ss_written send
        \<longrightarrow> read_lane ev r rd s = (None, None, fold (lane_handle lane) fs (Some (rd, s))))" by auto
next
  have w: "map ss_written (cl_bulk (send_frames Bulk fs client_new)) = map (\<lambda>f. lane_byte Bulk # client_encode f) fs"
    using send_frames_bulk [of fs client_new] by (simp add: client_new_def)
  then show n: "length (cl_bulk (send_frames Bulk fs client_new)) = length fs" by (metis length_map)
  assume i: "i < length fs \<and> stream_bytes r = ss_written (cl_bulk (send_frames Bulk fs client_new) ! i)"
  then have "stream_bytes r = lane_byte Bulk # client_encode (fs ! i)" using w n by (metis nth_map)
  then show "read_lane ev r rd s = (None, None, lane_handle Bulk (fs ! i) (Some (rd, s)))"
    using bulk_stream_handled assms i by simp
qed

theorem client_publish_reaches_server_witness:
  "\<exists>send :: send_stream. cl_lanes (send_frames Control [Publish sample_topic [1]] client_new) ! 0 = Some send
     \<and> read_lane sample_env \<lparr>segs = [ss_written send], tail = Eof\<rparr> sample_readers sample_sfu
       = (None, None, fold (lane_handle Control) [Publish sample_topic [1]] (Some (sample_readers, sample_sfu)))"
proof -
  obtain send where s: "cl_lanes (send_frames Control [Publish sample_topic [1]] client_new) ! lane_index Control = Some send"
    using send_frames_stream [of Control client_new "[Publish sample_topic [1]]"] by (auto simp: client_new_def)
  have "\<forall>f \<in> set [Publish sample_topic [1]]. wf_client_frame (ev_valid_key sample_env) f \<and> is_lane_frame f"
    by (simp add: sample_topic_def wf_topic_def MAX_FRAME_LEN_value)
  from client_publish_reaches_server [OF this, of "\<lparr>segs = [ss_written send], tail = Eof\<rparr>" Control sample_readers sample_sfu] s
  show ?thesis by - (rule exI [of _ send], simp add: stream_bytes_def)
qed

section \<open>From a server's start to a probe's target\<close>

text \<open>A peer that hands a request to the info listener of \<open>kt-sfu\<close> and its answer back, in whatever segments.\<close>

definition serves_info :: "http_peer \<Rightarrow> bytes \<Rightarrow> bytes \<Rightarrow> bool" where
  "serves_info server body request \<longleftrightarrow> (\<exists>unclean r req answer. server request = Inr (unclean, r) \<and> stream_bytes req = request
     \<and> respond req body = Some answer \<and> stream_bytes r = answer \<and> tail r = Eof)"

text \<open>C14: what a started server advertises is where it is. A probe that is given the URL of the info endpoint of a
  server \<open>kt-sfu\<close> brought up, however request and answer are segmented, aims at that server's own id and
  relay, and the endpoint it binds is given the very relay map the server itself uses.\<close>

theorem launch_info_reaches_probe:
  assumes "kt_main lib w clock peers args key files = Inr (sfu, Some body, files1)"
    and "field_ok (w_show_id w (sp_id sfu))" "length (w_show_id w (sp_id sfu)) \<le> 1000"
    and "field_ok (w_show_url w (sp_relay_url sfu))" "length (w_show_url w (sp_relay_url sfu)) \<le> 1000"
    and "parse_id (w_show_id w (sp_id sfu)) = Some (sp_id sfu)"
    and "w_parse_url w (w_show_url w (sp_relay_url sfu)) = Some (sp_relay_url sfu)"
    and "url = \<lparr>iu_scheme = ascii ''http'', iu_host = Some host, iu_port = Some port, iu_path = INFO_PATH, iu_query = None\<rparr>"
    and "graphic host" "length host \<le> 1000" "connect (bare_host host) port = Inr server"
    and "serves_info server body (fetch_request host INFO_PATH None)"
    and "ra_info pargs = Some url" "ra_qad_port pargs = None" "room_ca lib files2 pargs = Inr ca"
  shows "\<exists>target. room_find lib files2 (fetch_info parse_id (w_parse_url w) connect handshake) pargs = Inr (ca, target)
    \<and> (fst target, fst (snd target)) = sfu_addr sfu \<and> co_relay_map (room_options target ca relay_only) = sp_relay_map sfu"
proof -
  obtain secret cert ca0 where up: "spawn w clock peers (kt_config args secret cert ca0) = Inr sfu"
    and body: "body = kt_info_body w args sfu"
    using kt_main_ok [OF assms(1)] by (metis map_option_eq_Some)
  let ?port = "or_bound_port w (a_public_quic_port args) (sp_quic_addr sfu)"
  have "sp_relay_map sfu = (sp_relay_url sfu, ?port)" using spawn_ok(1) [OF up] by (simp add: kt_config_def)
  moreover obtain unclean r req where p: "server (fetch_request host INFO_PATH None) = Inr (unclean, r)"
      "stream_bytes req = fetch_request host INFO_PATH None" "respond req body = Some (stream_bytes r)" "tail r = Eof"
    using assms(12) by (auto simp: serves_info_def)
  have "fetch_response parse_id (w_parse_url w) unclean r
      = Inr \<lparr>i_sfu = sp_id sfu, i_relay = sp_relay_url sfu, i_alpn = SFU_ALPN, i_qad_port = ?port\<rparr>"
    by (rule info_round_trip [OF assms(2,4) _ _ assms(3,5,9,10) _ p(2) _ refl p(4)])
      (use assms(6,7) p(3) in \<open>simp_all add: body kt_info_body_def\<close>)
  ultimately show ?thesis
    using assms(8,11,13-15) p(1)
    by (simp add: room_find_def fetch_info_def room_target_def room_options_def sfu_addr_def)
qed

text \<open>A development server is trusted by whoever has its certificate file. When \<open>kt-sfu --dev\<close> is up, a probe that
  reads the file it wrote trusts exactly the certificate its relay was given to present, and these are the
  anchors the SFU's own endpoint uses to reach that relay.\<close>

theorem dev_certificate_trusted:
  assumes "kt_main lib w clock peers args key files = Inr (sfu, body, files1)" "a_dev args" "pem_faithful lib"
    and "ra_relay_ca pargs = Some (a_dev_cert_out args)"
  shows "\<exists>dev cert rc ec. dev_cert_config lib dev = Inr cert \<and> rs_tls rc = Some (a_relay_https_bind args, cert)
    \<and> w_relay w rc = Some (sp_https_addr sfu, sp_quic_addr sfu)
    \<and> room_ca lib files1 pargs = Inr (Some (dev_cert_ca lib dev))
    \<and> ec_ca ec = Some (dev_cert_ca lib dev) \<and> ec_relay_map ec = sp_relay_map sfu \<and> w_endpoint w ec = Some (sp_id sfu)"
proof -
  obtain secret cert ca where up: "kt_cert lib w args files = Inr (cert, ca, files1)"
      "spawn w clock peers (kt_config args secret cert ca) = Inr sfu"
    using kt_main_ok [OF assms(1)] by metis
  obtain dev where dev: "dev_cert_config lib dev = Inr cert" "ca = Some (dev_cert_ca lib dev)"
      "ca_from_pem_file lib files1 (a_dev_cert_out args) = Inr (dev_cert_ca lib dev)"
    using kt_cert_trusted [OF up(1) assms(2,3)] by metis
  have "rs_tls (spawn_relay (kt_config args secret cert ca)) = Some (a_relay_https_bind args, cert)"
    by (simp add: spawn_relay_def kt_config_def)
  moreover have "room_ca lib files1 pargs = Inr (Some (dev_cert_ca lib dev))"
    using dev(3) assms(4) by (simp add: room_ca_def)
  moreover have "cf_sfu_ca (kt_config args secret cert ca) = Some (dev_cert_ca lib dev)"
    by (simp add: kt_config_def dev(2))
  ultimately show ?thesis using dev(1) spawn_ok(4,5) [OF up(2)] by metis
qed

text \<open>A probe of the development server started in \<open>Launch\<close>.\<close>

definition sample_url :: info_url where
  "sample_url = \<lparr>iu_scheme = ascii ''http'', iu_host = Some (ascii ''r.example''), iu_port = Some 80,
     iu_path = INFO_PATH, iu_query = None\<rparr>"

definition sample_room_args :: "bytes room_args" where
  "sample_room_args = \<lparr>ra_sfu = None, ra_relay = None, ra_info = Some sample_url, ra_qad_port = None,
     ra_relay_ca = Some (ascii ''out.pem''), ra_context = None, ra_topic = None, ra_relay_only = False\<rparr>"

definition sample_peer :: http_peer where
  "sample_peer = (\<lambda>_. Inr (False, \<lparr>segs = [info_response (kt_info_body sample_world sample_args sample_up)], tail = Eof\<rparr>))"

lemma sample_peer_serves:
  "serves_info sample_peer (kt_info_body sample_world sample_args sample_up) (fetch_request (ascii ''r.example'') INFO_PATH None)"
proof -
  let ?r = "\<lparr>segs = [info_response (kt_info_body sample_world sample_args sample_up)], tail = Eof\<rparr>"
  have "sample_peer x = Inr (False, ?r)" for x by (simp add: sample_peer_def)
  moreover have "stream_bytes sample_request = fetch_request (ascii ''r.example'') INFO_PATH None" "tail ?r = Eof"
    "respond sample_request (kt_info_body sample_world sample_args sample_up) = Some (stream_bytes ?r)"
    by (simp_all add: sample_respond) (simp_all add: sample_request_def stream_bytes_def)
  ultimately show ?thesis unfolding serves_info_def by blast
qed

theorem launch_info_reaches_probe_witness:
  "\<exists>target. room_find sample_lib [ascii ''out.pem'' \<mapsto> ascii ''cert''] (fetch_info (\<lambda>s. Some (EndpointId s)) (w_parse_url sample_world)
      (\<lambda>_ _. Inr sample_peer) (\<lambda>_ _ p. Inr p)) sample_room_args = Inr (Some [ascii ''cert''], target)
     \<and> (fst target, fst (snd target)) = sfu_addr sample_up
     \<and> co_relay_map (room_options target (Some [ascii ''cert'']) False) = sp_relay_map sample_up"
  by (rule launch_info_reaches_probe [OF sample_start _ _ _ _ _ _ sample_url_def _ _ _ sample_peer_serves])
    (simp_all add: sample_world_def sample_up_def field_ok_def ascii_def sample_room_args_def
      room_ca_def ca_from_pem_file_def sample_lib_def)

theorem dev_certificate_trusted_witness:
  "room_ca sample_lib [ascii ''out.pem'' \<mapsto> ascii ''localhost127.0.0.1::1''] sample_room_args
     = Inr (Some [ascii ''localhost127.0.0.1::1''])
   \<and> (\<exists>dev. dev_cert_ca sample_lib dev = [ascii ''localhost127.0.0.1::1''])"
  using dev_certificate_trusted [OF sample_start _ sample_lib_faithful, of sample_room_args]
  by (auto simp: sample_args_def sample_room_args_def room_ca_def ca_from_pem_file_def sample_lib_def)

end
